(* ===== verification/Prelude.thy ===== *)
theory Prelude
  imports Main "HOL-Library.Word" "HOL-Library.DAList" "HOL-Library.Code_Target_Nat"
begin

text \<open>
  Shared vocabulary of the development: the machine types of the Rust sources, the
  \<open>Result\<close> type with an explicit panic outcome, slice access on byte buffers,
  big-endian encodings, the hash maps (association lists with distinct keys, so that
  iteration order is explicit) and the ordered maps (key-sorted association lists) that
  every component uses.
\<close>

unbundle bit_operations_syntax

named_theorems res_simps \<open>rules for Result values and their sequencing\<close>
named_theorems map_simps \<open>rules for lookups in hash maps and ordered maps\<close>
named_theorems no_panic \<open>operations that never panic, whatever their input\<close>
named_theorems buf_simps \<open>rules for reads and writes of byte buffers\<close>

section \<open>Machine types\<close>

type_synonym u8 = "8 word"
type_synonym u16 = "16 word"
type_synonym u32 = "32 word"
type_synonym u64 = "64 word"
type_synonym bytes = "u8 list"

text \<open>
  \<open>Instant\<close> and \<open>Duration\<close> are counted in nanoseconds; a reading of
  \<open>Instant::now()\<close> is an argument of the operation that makes it.
\<close>

type_synonym instant = nat
type_synonym duration = nat

definition from_secs :: "nat \<Rightarrow> duration" where
  "from_secs s = s * 1000000000"

lemma from_secs_less_iff [simp]: "from_secs a < from_secs b \<longleftrightarrow> a < b"
  by (simp add: from_secs_def)

lemma from_secs_eq_0_iff [simp]: "from_secs a = 0 \<longleftrightarrow> a = 0"
  by (simp add: from_secs_def)

lemma unat_u8_less: "unat (b :: u8) < 256"
  using unsigned_less [of b, where 'a = nat] by simp

lemma unat_u16_less: "unat (p :: u16) < 65536"
  using unsigned_less [of p, where 'a = nat] by simp

lemma unat_u32_less: "unat (p :: u32) < 4294967296"
  using unsigned_less [of p, where 'a = nat] by simp

text \<open>Casts keep the value when the target is wide enough.\<close>

lemma unat_ucast_fits: "unat w < 2 ^ LENGTH('b) \<Longrightarrow> unat (ucast w :: 'b::len word) = unat w"
  for w :: "'a::len word"
  by (simp add: unsigned_ucast_eq take_bit_nat_eq_self_iff)

section \<open>Results\<close>

text \<open>
  A Rust function returning \<open>Result<T, E>\<close> returns \<open>Ok\<close> or \<open>Err\<close>; an index out
  of range, a failed \<open>expect\<close> or an arithmetic underflow aborts, which is the third
  outcome \<open>Panic\<close>.
\<close>

datatype ('a, 'e) result = Ok 'a | Err 'e | Panic

fun and_then :: "('a, 'e) result \<Rightarrow> ('a \<Rightarrow> ('b, 'e) result) \<Rightarrow> ('b, 'e) result" where
  "and_then (Ok x) f = f x"
| "and_then (Err e) f = Err e"
| "and_then Panic f = Panic"

fun map_err :: "('e \<Rightarrow> 'f) \<Rightarrow> ('a, 'e) result \<Rightarrow> ('a, 'f) result" where
  "map_err g (Ok x) = Ok x"
| "map_err g (Err e) = Err (g e)"
| "map_err g Panic = Panic"

fun ok_or :: "'a option \<Rightarrow> 'e \<Rightarrow> ('a, 'e) result" where
  "ok_or (Some x) e = Ok x"
| "ok_or None e = Err e"

fun expect :: "'a option \<Rightarrow> ('a, 'e) result" where
  "expect (Some x) = Ok x"
| "expect None = Panic"

definition guard_err :: "bool \<Rightarrow> 'e \<Rightarrow> ('a, 'e) result \<Rightarrow> ('a, 'e) result" where
  "guard_err b e r = (if b then Err e else r)"

fun is_ok :: "('a, 'e) result \<Rightarrow> bool" where
  "is_ok (Ok x) = True"
| "is_ok (Err e) = False"
| "is_ok Panic = False"

fun ok :: "('a, 'e) result \<Rightarrow> 'a option" where
  "ok (Ok x) = Some x"
| "ok (Err e) = None"
| "ok Panic = None"

lemma and_then_eq_Ok [res_simps]:
  "and_then m f = Ok y \<longleftrightarrow> (\<exists>x. m = Ok x \<and> f x = Ok y)"
  by (cases m) auto

lemma and_then_eq_Err [res_simps]:
  "and_then m f = Err e \<longleftrightarrow> m = Err e \<or> (\<exists>x. m = Ok x \<and> f x = Err e)"
  by (cases m) auto

lemma and_then_eq_Panic [res_simps]:
  "and_then m f = Panic \<longleftrightarrow> m = Panic \<or> (\<exists>x. m = Ok x \<and> f x = Panic)"
  by (cases m) auto

lemma map_err_eq_Ok [res_simps]: "map_err g m = Ok y \<longleftrightarrow> m = Ok y"
  by (cases m) auto

lemma map_err_eq_Err [res_simps]: "map_err g m = Err e \<longleftrightarrow> (\<exists>d. m = Err d \<and> e = g d)"
  by (cases m) auto

lemma map_err_eq_Panic [res_simps]: "map_err g m = Panic \<longleftrightarrow> m = Panic"
  by (cases m) auto

lemma ok_or_eq_Ok [res_simps]: "ok_or v e = Ok y \<longleftrightarrow> v = Some y"
  by (cases v) auto

lemma ok_or_eq_Err [res_simps]: "ok_or v e = Err d \<longleftrightarrow> v = None \<and> d = e"
  by (cases v) auto

lemma ok_or_not_Panic [simp, no_panic]: "ok_or v e \<noteq> Panic"
  by (cases v) auto

lemma expect_eq_Ok [res_simps]: "expect v = Ok y \<longleftrightarrow> v = Some y"
  by (cases v) auto

lemma expect_eq_Panic [res_simps]: "expect v = Panic \<longleftrightarrow> v = None"
  by (cases v) auto

lemma expect_not_Err [simp]: "expect v \<noteq> Err e"
  by (cases v) auto

lemma guard_err_eq_Ok [res_simps]: "guard_err b e r = Ok y \<longleftrightarrow> \<not> b \<and> r = Ok y"
  by (simp add: guard_err_def)

lemma guard_err_eq_Err [res_simps]:
  "guard_err b e r = Err d \<longleftrightarrow> b \<and> d = e \<or> \<not> b \<and> r = Err d"
  by (auto simp: guard_err_def)

lemma guard_err_eq_Panic [res_simps]: "guard_err b e r = Panic \<longleftrightarrow> \<not> b \<and> r = Panic"
  by (simp add: guard_err_def)

lemma guard_err_False [simp]: "guard_err False e r = r"
  by (simp add: guard_err_def)

lemma guard_err_True [simp]: "guard_err True e r = Err e"
  by (simp add: guard_err_def)

lemma is_ok_iff [res_simps]: "is_ok r \<longleftrightarrow> (\<exists>x. r = Ok x)"
  by (cases r) auto

lemma and_then_cong [fundef_cong]:
  assumes "m = m'" and "\<And>x. m' = Ok x \<Longrightarrow> f x = g x"
  shows "and_then m f = and_then m' g"
  using assms by (cases m') auto

lemma and_then_no_panic [no_panic]:
  assumes "m \<noteq> Panic" and "\<And>x. m = Ok x \<Longrightarrow> f x \<noteq> Panic"
  shows "and_then m f \<noteq> Panic"
  using assms by (cases m) auto

lemma guard_err_no_panic [no_panic]: "(\<not> b \<Longrightarrow> r \<noteq> Panic) \<Longrightarrow> guard_err b e r \<noteq> Panic"
  by (simp add: guard_err_def)

lemma and_then_assoc: "and_then (and_then m f) g = and_then m (\<lambda>x. and_then (f x) g)"
  by (cases m) auto

section \<open>Byte buffers\<close>

text \<open>\<open>slice_get\<close> is \<open>buf.get(a..b)\<close>; \<open>slice_at\<close> is \<open>&buf[a..b]\<close>, which panics.\<close>

definition slice_get :: "bytes \<Rightarrow> nat \<Rightarrow> nat \<Rightarrow> bytes option" where
  "slice_get p a b = (if a \<le> b \<and> b \<le> length p then Some (take (b - a) (drop a p)) else None)"

definition slice_at :: "bytes \<Rightarrow> nat \<Rightarrow> nat \<Rightarrow> (bytes, 'e) result" where
  "slice_at p a b = expect (slice_get p a b)"

definition byte_get :: "bytes \<Rightarrow> nat \<Rightarrow> u8 option" where
  "byte_get p i = (if i < length p then Some (p ! i) else None)"

definition rd8 :: "bytes \<Rightarrow> nat \<Rightarrow> (u8, 'e) result" where
  "rd8 p i = expect (byte_get p i)"

text \<open>\<open>buf[i..i + bs.len()].copy_from_slice(bs)\<close> and \<open>buf[i] = b\<close>.\<close>

definition splice :: "bytes \<Rightarrow> nat \<Rightarrow> bytes \<Rightarrow> bytes" where
  "splice p i bs = take i p @ bs @ drop (i + length bs) p"

definition put :: "bytes \<Rightarrow> nat \<Rightarrow> bytes \<Rightarrow> (bytes, 'e) result" where
  "put p i bs = (if i + length bs \<le> length p then Ok (splice p i bs) else Panic)"

text \<open>\<open>usize\<close> subtraction, which must not go below zero.\<close>

definition csub :: "nat \<Rightarrow> nat \<Rightarrow> (nat, 'e) result" where
  "csub a b = (if b \<le> a then Ok (a - b) else Panic)"

lemma slice_get_eq_Some [buf_simps]:
  "slice_get p a b = Some s \<longleftrightarrow> a \<le> b \<and> b \<le> length p \<and> s = take (b - a) (drop a p)"
  by (auto simp: slice_get_def)

lemma slice_get_eq_None [buf_simps]: "slice_get p a b = None \<longleftrightarrow> \<not> (a \<le> b \<and> b \<le> length p)"
  by (auto simp: slice_get_def)

lemma slice_at_in [buf_simps]:
  "a \<le> b \<Longrightarrow> b \<le> length p \<Longrightarrow> slice_at p a b = Ok (take (b - a) (drop a p))"
  by (simp add: slice_at_def slice_get_def)

lemma slice_at_eq_Ok [res_simps]:
  "slice_at p a b = Ok s \<longleftrightarrow> a \<le> b \<and> b \<le> length p \<and> s = take (b - a) (drop a p)"
  by (simp add: slice_at_def res_simps buf_simps)

lemma slice_at_not_Err [simp]: "slice_at p a b \<noteq> Err e"
  by (simp add: slice_at_def)

lemma slice_at_eq_Panic [res_simps]:
  "slice_at p a b = Panic \<longleftrightarrow> \<not> (a \<le> b \<and> b \<le> length p)"
  by (simp add: slice_at_def res_simps buf_simps)

lemma byte_get_in [buf_simps]: "i < length p \<Longrightarrow> byte_get p i = Some (p ! i)"
  by (simp add: byte_get_def)

lemma byte_get_eq_Some [buf_simps]: "byte_get p i = Some b \<longleftrightarrow> i < length p \<and> b = p ! i"
  by (auto simp: byte_get_def)

lemma byte_get_eq_None [buf_simps]: "byte_get p i = None \<longleftrightarrow> length p \<le> i"
  by (auto simp: byte_get_def)

lemma rd8_in [buf_simps]: "i < length p \<Longrightarrow> rd8 p i = Ok (p ! i)"
  by (simp add: rd8_def byte_get_def)

lemma rd8_eq_Ok [res_simps]: "rd8 p i = Ok b \<longleftrightarrow> i < length p \<and> b = p ! i"
  by (simp add: rd8_def res_simps buf_simps)

lemma rd8_not_Err [simp]: "rd8 p i \<noteq> Err e"
  by (simp add: rd8_def)

lemma rd8_eq_Panic [res_simps]: "rd8 p i = Panic \<longleftrightarrow> length p \<le> i"
  by (simp add: rd8_def res_simps buf_simps)

lemma put_in [buf_simps]: "i + length bs \<le> length p \<Longrightarrow> put p i bs = Ok (splice p i bs)"
  by (simp add: put_def)

lemma put_eq_Ok [res_simps]:
  "put p i bs = Ok q \<longleftrightarrow> i + length bs \<le> length p \<and> q = splice p i bs"
  by (auto simp: put_def)

lemma put_not_Err [simp]: "put p i bs \<noteq> Err e"
  by (simp add: put_def)

lemma put_eq_Panic [res_simps]: "put p i bs = Panic \<longleftrightarrow> length p < i + length bs"
  by (auto simp: put_def)

lemma csub_in [buf_simps]: "b \<le> a \<Longrightarrow> csub a b = Ok (a - b)"
  by (simp add: csub_def)

lemma csub_eq_Ok [res_simps]: "csub a b = Ok c \<longleftrightarrow> b \<le> a \<and> c = a - b"
  by (auto simp: csub_def)

lemma csub_not_Err [simp]: "csub a b \<noteq> Err e"
  by (simp add: csub_def)

lemma csub_eq_Panic [res_simps]: "csub a b = Panic \<longleftrightarrow> a < b"
  by (auto simp: csub_def)

lemma length_splice [buf_simps]:
  "i + length bs \<le> length p \<Longrightarrow> length (splice p i bs) = length p"
  by (simp add: splice_def)

lemma nth_splice [buf_simps]:
  assumes "i + length bs \<le> length p"
  shows "splice p i bs ! k =
    (if i \<le> k \<and> k < i + length bs then bs ! (k - i) else p ! k)"
proof (cases "k < length p")
  case True
  then show ?thesis using assms by (auto simp: splice_def nth_append)
next
  case False
  have "splice p i bs ! k = drop (i + length bs) p ! (k - (i + length bs))"
    using False assms by (auto simp: splice_def nth_append)
  also have "\<dots> = p ! k"
    using False assms by (simp add: nth_drop)
  finally show ?thesis using False assms by simp
qed

lemma splice_Nil [simp]: "splice p i [] = p"
  by (simp add: splice_def)

lemma take_drop_splice_same:
  assumes "i + length bs \<le> length p"
  shows "take (length bs) (drop i (splice p i bs)) = bs"
  using assms by (simp add: splice_def)

lemma take_drop_splice_disjoint:
  assumes "i + length bs \<le> length p" and "a + n \<le> i \<or> i + length bs \<le> a"
  shows "take n (drop a (splice p i bs)) = take n (drop a p)"
proof (rule nth_equalityI)
  show "length (take n (drop a (splice p i bs))) = length (take n (drop a p))"
    using assms by (simp add: length_splice)
next
  fix k assume "k < length (take n (drop a (splice p i bs)))"
  then have k: "k < n" "a + k < length p"
    using assms by (auto simp: length_splice)
  then show "take n (drop a (splice p i bs)) ! k = take n (drop a p) ! k"
    using assms by (auto simp: nth_splice length_splice)
qed

lemma drop_splice_before:
  assumes "i + length bs \<le> length p" and "i + length bs \<le> a"
  shows "drop a (splice p i bs) = drop a p"
  using take_drop_splice_disjoint [OF assms(1), of a "length p"] assms
  by (simp add: length_splice)

lemma drop_splice_within:
  assumes "a \<le> i" and "i + length bs \<le> length p"
  shows "drop a (splice p i bs) = splice (drop a p) (i - a) bs"
  using assms by (auto simp: splice_def drop_take)

lemma take_splice_within:
  assumes "i + length bs \<le> n" and "n \<le> length p"
  shows "take n (splice p i bs) = splice (take n p) i bs"
  using assms by (cases "n = i") (auto simp: splice_def min_def take_drop)

section \<open>Big-endian encodings\<close>

definition be_val :: "bytes \<Rightarrow> nat" where
  "be_val bs = foldl (\<lambda>acc b. acc * 256 + unat b) 0 bs"

primrec be_digits :: "nat \<Rightarrow> nat \<Rightarrow> bytes" where
  "be_digits 0 v = []"
| "be_digits (Suc n) v = be_digits n (v div 256) @ [word_of_nat v]"

text \<open>\<open>uN::from_be_bytes\<close> and \<open>to_be_bytes\<close>, for any width; \<open>n\<close> is the number of octets.\<close>

definition from_be_bytes :: "bytes \<Rightarrow> 'a::len word" where
  "from_be_bytes bs = word_of_nat (be_val bs)"

definition to_be_bytes :: "nat \<Rightarrow> 'a::len word \<Rightarrow> bytes" where
  "to_be_bytes n w = be_digits n (unat w)"

lemma be_val_Nil [simp]: "be_val [] = 0"
  by (simp add: be_val_def)

lemma be_val_snoc [simp]: "be_val (bs @ [b]) = be_val bs * 256 + unat b"
  by (simp add: be_val_def)

lemma be_val_less: "be_val bs < 256 ^ length bs"
proof (induction bs rule: rev_induct)
  case (snoc b bs)
  then have "be_val bs + 1 \<le> 256 ^ length bs" by simp
  then have "(be_val bs + 1) * 256 \<le> 256 ^ length bs * 256" by (rule mult_le_mono1)
  then show ?case using unat_u8_less [of b] by (simp add: ac_simps)
qed simp

lemma length_be_digits [simp]: "length (be_digits n v) = n"
  by (induction n arbitrary: v) simp_all

lemma unat_word_of_nat_u8 [simp]: "unat (word_of_nat v :: u8) = v mod 256"
  by (simp add: unsigned_of_nat take_bit_eq_mod)

lemma be_digits_be_val [simp]: "be_digits (length bs) (be_val bs) = bs"
proof (induction bs rule: rev_induct)
  case (snoc b bs)
  have "(be_val bs * 256 + unat b) div 256 = be_val bs" using unat_u8_less [of b] by simp
  moreover have "(word_of_nat (be_val bs * 256 + unat b) :: u8) = b"
    using unat_u8_less [of b] by (simp only: word_unat_eq_iff unat_word_of_nat_u8) simp
  ultimately show ?case using snoc by simp
qed simp

lemma be_val_be_digits [simp]: "be_val (be_digits n v) = v mod 256 ^ n"
proof (induction n arbitrary: v)
  case (Suc n)
  have "v mod (256 * 256 ^ n) = 256 * (v div 256 mod 256 ^ n) + v mod 256"
    by (rule mod_mult2_eq)
  then show ?case using Suc by simp
qed simp

lemma length_to_be_bytes [simp]: "length (to_be_bytes n w) = n"
  by (simp add: to_be_bytes_def)

lemma from_to_be_bytes:
  assumes "unat w < 256 ^ n"
  shows "from_be_bytes (to_be_bytes n w) = w"
  using assms by (simp add: from_be_bytes_def to_be_bytes_def)

lemma unat_from_be_bytes:
  assumes "256 ^ length bs \<le> (2 :: nat) ^ LENGTH('a)"
  shows "unat (from_be_bytes bs :: 'a::len word) = be_val bs"
proof -
  have "be_val bs < 2 ^ LENGTH('a)" using be_val_less [of bs] assms by (rule less_le_trans)
  then show ?thesis by (simp add: from_be_bytes_def unsigned_of_nat take_bit_nat_eq_self_iff)
qed

lemma to_from_be_bytes:
  assumes "length bs = n" and "256 ^ n \<le> (2 :: nat) ^ LENGTH('a)"
  shows "to_be_bytes n (from_be_bytes bs :: 'a::len word) = bs"
  using assms unat_from_be_bytes [where 'a = 'a, of bs] be_digits_be_val [of bs]
  by (simp add: to_be_bytes_def)

text \<open>Reading two octets in network order.\<close>

definition be16 :: "u8 \<Rightarrow> u8 \<Rightarrow> u16" where
  "be16 a b = from_be_bytes [a, b]"

definition rd16 :: "bytes \<Rightarrow> nat \<Rightarrow> (u16, 'e) result" where
  "rd16 p i = and_then (rd8 p i) (\<lambda>a. and_then (rd8 p (i + 1)) (\<lambda>b. Ok (be16 a b)))"

lemma be_val_two: "be_val [a, b] = unat a * 256 + unat b"
  by (simp add: be_val_def)

lemma unat_be16: "unat (be16 a b) = unat a * 256 + unat b"
  by (simp add: be16_def unat_from_be_bytes be_val_two)

lemma be16_to_be_bytes: "be16 (to_be_bytes 2 w ! 0) (to_be_bytes 2 w ! 1) = w"
proof -
  have "to_be_bytes 2 w = [to_be_bytes 2 w ! 0, to_be_bytes 2 w ! 1]"
    by (rule nth_equalityI) (auto simp: less_2_cases_iff)
  then show ?thesis
    using from_to_be_bytes [of w 2] unat_u16_less [of w] unfolding be16_def by simp
qed

lemma to_be_bytes_be16: "to_be_bytes 2 (be16 a b) = [a, b]"
  unfolding be16_def by (rule to_from_be_bytes) simp_all

lemma rd16_in [buf_simps]: "i + 1 < length p \<Longrightarrow> rd16 p i = Ok (be16 (p ! i) (p ! (i + 1)))"
  by (simp add: rd16_def rd8_in)

lemma rd16_eq_Ok [res_simps]:
  "rd16 p i = Ok w \<longleftrightarrow> i + 1 < length p \<and> w = be16 (p ! i) (p ! (i + 1))"
  by (auto simp: rd16_def res_simps)

lemma rd16_not_Err [simp]: "rd16 p i \<noteq> Err e"
  by (simp add: rd16_def res_simps)

lemma rd16_eq_Panic [res_simps]: "rd16 p i = Panic \<longleftrightarrow> length p \<le> i + 1"
  by (auto simp: rd16_def res_simps)

section \<open>Hash maps\<close>

text \<open>
  A \<open>HashMap<K, V>\<close> is an association list with distinct keys; its iteration order is the
  order of the list, so a theorem about every such map covers every order in which the
  real table may enumerate its entries.
\<close>

abbreviation hm_get :: "('k, 'v) alist \<Rightarrow> 'k \<Rightarrow> 'v option" where
  "hm_get \<equiv> DAList.lookup"

abbreviation hm_insert :: "'k \<Rightarrow> 'v \<Rightarrow> ('k, 'v) alist \<Rightarrow> ('k, 'v) alist" where
  "hm_insert \<equiv> DAList.update"

abbreviation hm_remove :: "'k \<Rightarrow> ('k, 'v) alist \<Rightarrow> ('k, 'v) alist" where
  "hm_remove \<equiv> DAList.delete"

abbreviation hm_empty :: "('k, 'v) alist" where
  "hm_empty \<equiv> DAList.empty"

definition hm_retain :: "('k \<Rightarrow> 'v \<Rightarrow> bool) \<Rightarrow> ('k, 'v) alist \<Rightarrow> ('k, 'v) alist" where
  "hm_retain P m = DAList.filter (\<lambda>e. P (fst e) (snd e)) m"

definition hm_has :: "('k, 'v) alist \<Rightarrow> 'k \<Rightarrow> bool" where
  "hm_has m k = (hm_get m k \<noteq> None)"

definition hm_entries :: "('k, 'v) alist \<Rightarrow> ('k \<times> 'v) list" where
  "hm_entries m = DAList.impl_of m"

definition hm_keys :: "('k, 'v) alist \<Rightarrow> 'k list" where
  "hm_keys m = map fst (hm_entries m)"

definition hm_vals :: "('k, 'v) alist \<Rightarrow> 'v list" where
  "hm_vals m = map snd (hm_entries m)"

definition hm_len :: "('k, 'v) alist \<Rightarrow> nat" where
  "hm_len m = length (hm_entries m)"

lift_definition hm_map_vals :: "('k \<Rightarrow> 'v \<Rightarrow> 'w) \<Rightarrow> ('k, 'v) alist \<Rightarrow> ('k, 'w) alist"
  is "AList.map_ran"
  by (simp add: dom_map_ran)

lemma map_of_filter_distinct:
  assumes "distinct (map fst xs)"
  shows "map_of (filter P xs) k =
    (case map_of xs k of None \<Rightarrow> None | Some v \<Rightarrow> if P (k, v) then Some v else None)"
  using assms
proof (induction xs)
  case (Cons x xs)
  obtain j w where x: "x = (j, w)" by (cases x)
  show ?case
  proof (cases "j = k")
    case True
    then have "map_of xs k = None"
      using Cons.prems x by (simp add: map_of_eq_None_iff)
    then show ?thesis using Cons x True by simp
  next
    case False
    then show ?thesis using Cons x by simp
  qed
qed simp

lemma hm_get_retain [map_simps]:
  "hm_get (hm_retain P m) k =
    (case hm_get m k of None \<Rightarrow> None | Some v \<Rightarrow> if P k v then Some v else None)"
  by (simp add: hm_retain_def DAList.lookup.rep_eq DAList.filter.rep_eq map_of_filter_distinct
      split: option.split)

lemma hm_get_map_vals [map_simps]:
  "hm_get (hm_map_vals f m) k = map_option (f k) (hm_get m k)"
  by (simp add: DAList.lookup.rep_eq hm_map_vals.rep_eq map_ran_conv)

lemma hm_get_insert [map_simps]:
  "hm_get (hm_insert k v m) j = (if j = k then Some v else hm_get m j)"
  by (simp add: lookup_update)

lemma hm_get_remove [map_simps]:
  "hm_get (hm_remove k m) j = (if j = k then None else hm_get m j)"
  by (simp add: DAList.lookup_delete)

lemma hm_entries_iff [map_simps]: "(k, v) \<in> set (hm_entries m) \<longleftrightarrow> hm_get m k = Some v"
  unfolding hm_entries_def by transfer (rule map_of_eq_Some_iff [symmetric], simp)

lemma distinct_hm_keys [simp]: "distinct (hm_keys m)"
  unfolding hm_keys_def hm_entries_def by transfer simp

lemma set_hm_keys [map_simps]: "set (hm_keys m) = {k. hm_get m k \<noteq> None}"
  unfolding hm_keys_def hm_entries_def
  by transfer (simp only: map_of_eq_None_iff set_map not_not Collect_mem_eq)

lemma hm_keys_iff [map_simps]: "k \<in> set (hm_keys m) \<longleftrightarrow> (\<exists>v. hm_get m k = Some v)"
  by (simp only: set_hm_keys mem_Collect_eq not_None_eq)

lemma set_hm_vals [map_simps]: "v \<in> set (hm_vals m) \<longleftrightarrow> (\<exists>k. hm_get m k = Some v)"
  unfolding hm_vals_def by (force simp: hm_entries_iff [symmetric])

lemma length_hm_keys [simp]: "length (hm_keys m) = hm_len m"
  by (simp add: hm_keys_def hm_len_def)

lemma dom_hm_get: "dom (hm_get m) = set (hm_keys m)"
  by (auto simp: hm_keys_iff)

lemma finite_dom_hm_get [simp]: "finite (dom (hm_get m))"
  by (simp add: dom_hm_get)

lemma hm_len_card: "hm_len m = card (dom (hm_get m))"
  by (simp add: dom_hm_get distinct_card)

lemma hm_len_empty [simp]: "hm_len hm_empty = 0"
  by (simp add: hm_len_card dom_def)

lemma dom_hm_insert: "dom (hm_get (hm_insert k v m)) = insert k (dom (hm_get m))"
  by (auto simp: hm_get_insert split: if_splits)

lemma dom_hm_remove: "dom (hm_get (hm_remove k m)) = dom (hm_get m) - {k}"
  by (auto simp: hm_get_remove split: if_splits)

lemma hm_len_insert:
  "hm_len (hm_insert k v m) = (if hm_has m k then hm_len m else Suc (hm_len m))"
  by (simp add: hm_len_card dom_hm_insert card_insert_if hm_has_def domIff)

lemma hm_len_remove:
  "hm_len (hm_remove k m) = (if hm_has m k then hm_len m - 1 else hm_len m)"
  by (simp add: hm_len_card dom_hm_remove card_Diff_singleton_if hm_has_def domIff)

lemma hm_len_retain_le: "hm_len (hm_retain P m) \<le> hm_len m"
proof -
  have "dom (hm_get (hm_retain P m)) \<subseteq> dom (hm_get m)"
    by (auto simp: hm_get_retain split: option.splits)
  then show ?thesis by (simp add: hm_len_card card_mono)
qed

lemma hm_len_map_vals [simp]: "hm_len (hm_map_vals f m) = hm_len m"
proof -
  have "dom (hm_get (hm_map_vals f m)) = dom (hm_get m)"
    by (auto simp: hm_get_map_vals)
  then show ?thesis by (simp add: hm_len_card)
qed

section \<open>Searching\<close>

text \<open>\<open>iter().find_map(f)\<close>.\<close>

fun find_map :: "('a \<Rightarrow> 'b option) \<Rightarrow> 'a list \<Rightarrow> 'b option" where
  "find_map f [] = None"
| "find_map f (x # xs) = (case f x of Some y \<Rightarrow> Some y | None \<Rightarrow> find_map f xs)"

lemma find_map_SomeE:
  assumes "find_map f xs = Some y"
  obtains x where "x \<in> set xs" and "f x = Some y"
  using assms by (induction xs) (auto split: option.splits)

lemma find_map_eq_None_iff [map_simps]: "find_map f xs = None \<longleftrightarrow> (\<forall>x\<in>set xs. f x = None)"
  by (induction xs) (auto split: option.splits)

section \<open>Ordered sets\<close>

text \<open>A \<open>BTreeSet\<close> is a strictly increasing list.\<close>

definition bs_insert :: "'a::linorder \<Rightarrow> 'a list \<Rightarrow> 'a list" where
  "bs_insert x xs = (if x \<in> set xs then xs else insort x xs)"

definition bs_remove :: "'a \<Rightarrow> 'a list \<Rightarrow> 'a list" where
  "bs_remove x xs = filter (\<lambda>y. y \<noteq> x) xs"

lemma set_bs_insert [simp]: "set (bs_insert x xs) = insert x (set xs)"
  by (auto simp: bs_insert_def set_insort_key)

lemma set_bs_remove [simp]: "set (bs_remove x xs) = set xs - {x}"
  by (auto simp: bs_remove_def)

lemma sorted_bs_insert [intro]:
  "sorted_wrt (<) xs \<Longrightarrow> sorted_wrt (<) (bs_insert x xs)"
  by (auto simp: bs_insert_def strict_sorted_iff sorted_insort distinct_insort)

lemma sorted_bs_remove [intro]:
  "sorted_wrt (<) xs \<Longrightarrow> sorted_wrt (<) (bs_remove x xs)"
  by (simp add: bs_remove_def sorted_wrt_filter)

section \<open>Ordered maps\<close>

text \<open>A \<open>BTreeMap<K, V>\<close> is an association list sorted by its keys.\<close>

definition bt_wf :: "('k::linorder \<times> 'v) list \<Rightarrow> bool" where
  "bt_wf m = sorted_wrt (<) (map fst m)"

fun bt_insert :: "'k::linorder \<Rightarrow> 'v \<Rightarrow> ('k \<times> 'v) list \<Rightarrow> ('k \<times> 'v) list" where
  "bt_insert k v [] = [(k, v)]"
| "bt_insert k v ((j, w) # m) =
    (if k < j then (k, v) # (j, w) # m
     else if k = j then (k, v) # m
     else (j, w) # bt_insert k v m)"

definition bt_remove :: "'k \<Rightarrow> ('k \<times> 'v) list \<Rightarrow> ('k \<times> 'v) list" where
  "bt_remove k m = filter (\<lambda>e. fst e \<noteq> k) m"

lemma bt_wf_Nil [simp]: "bt_wf []"
  by (simp add: bt_wf_def)

lemma bt_wf_Cons [simp]: "bt_wf (e # m) \<longleftrightarrow> (\<forall>x\<in>set m. fst e < fst x) \<and> bt_wf m"
  by (auto simp: bt_wf_def)

lemma bt_wf_distinct: "bt_wf m \<Longrightarrow> distinct (map fst m)"
  by (simp add: bt_wf_def strict_sorted_iff)

lemma set_bt_insert_subset: "set (bt_insert k v m) \<subseteq> insert (k, v) (set m)"
  by (induction k v m rule: bt_insert.induct) auto

lemma bt_wf_insert [intro]: "bt_wf m \<Longrightarrow> bt_wf (bt_insert k v m)"
proof (induction k v m rule: bt_insert.induct)
  case (2 k v j w m)
  show ?case
  proof (cases "k < j")
    case True
    then show ?thesis using 2 by (auto intro: less_trans)
  next
    case False
    have "\<forall>x\<in>set (bt_insert k v m). j < fst x" if "k \<noteq> j"
      using that False 2(2) set_bt_insert_subset [of k v m] by auto
    then show ?thesis using 2 False by auto
  qed
qed simp

lemma bt_wf_remove [intro]: "bt_wf m \<Longrightarrow> bt_wf (bt_remove k m)"
  by (induction m) (auto simp: bt_remove_def)

lemma bt_wf_filter [intro]: "bt_wf m \<Longrightarrow> bt_wf (filter P m)"
  by (induction m) auto

lemma map_of_bt_insert [map_simps]:
  "map_of (bt_insert k v m) j = (if j = k then Some v else map_of m j)"
  by (induction k v m rule: bt_insert.induct) auto

lemma map_of_bt_remove [map_simps]: "map_of (bt_remove k m) j = (if j = k then None else map_of m j)"
  by (induction m) (auto simp: bt_remove_def)

lemma bt_entries_iff: "bt_wf m \<Longrightarrow> (k, v) \<in> set m \<longleftrightarrow> map_of m k = Some v"
  by (simp add: bt_wf_distinct map_of_eq_Some_iff)

end
