(* ===== verification/Flow.thy ===== *)
theory Flow
  imports Prelude
begin

text \<open>
  The value types that every component of the flow plane shares (\<open>flow_plane/mod.rs\<close>,
  the head of \<open>flow_plane/packet.rs\<close>): addresses, transport protocols, flow keys, the
  identifiers of sessions and QUIC flows, and the owner of a network queue.  Addresses
  are the 32- and 128-bit words their octets spell in network order.
\<close>

datatype ip_addr = V4 u32 | V6 "128 word"

datatype transport_protocol = Tcp | Udp | Icmp | Icmpv6

record flow_key =
  source :: ip_addr
  destination :: ip_addr
  source_port :: u16
  destination_port :: u16
  protocol :: transport_protocol

definition reverse :: "flow_key \<Rightarrow> flow_key" where
  "reverse f =
    \<lparr> source = destination f,
      destination = source f,
      source_port = destination_port f,
      destination_port = source_port f,
      protocol = protocol f \<rparr>"

type_synonym session_id = u64
type_synonym quic_flow_id = u64
type_synonym worker_id = nat

text \<open>\<open>SocketAddr\<close>: an address and a port.\<close>

record socket_addr =
  sock_ip :: ip_addr
  sock_port :: u16

record io_owner_key =
  ifindex :: u32
  queue_id :: u32

record session_locator =
  flow_worker_id :: worker_id
  locator_session :: session_id

fun is_icmp :: "transport_protocol \<Rightarrow> bool" where
  "is_icmp Icmp = True"
| "is_icmp Icmpv6 = True"
| "is_icmp Tcp = False"
| "is_icmp Udp = False"

lemma reverse_reverse [simp]: "reverse (reverse f) = f"
  by (simp add: reverse_def)

lemma protocol_reverse [simp]: "protocol (reverse f) = protocol f"
  by (simp add: reverse_def)

lemma reverse_inject [simp]: "reverse f = reverse g \<longleftrightarrow> f = g"
  by (metis reverse_reverse)

end
