(* ===== verification/Io_Registry.thy ===== *)
theory Io_Registry
  imports Flow
begin

text \<open>
  The registry of queue owners (\<open>flow_plane/io_registry.rs\<close>): a map from
  (interface, queue) to the handle that owns the queue, in which a key is registered at
  most once and never replaced.
\<close>

section \<open>Model\<close>

datatype registry_error = DuplicateOwner io_owner_key

record 't io_registry =
  owners :: "(io_owner_key, 't) alist"

definition new_registry :: "'t io_registry" where
  "new_registry = \<lparr> owners = hm_empty \<rparr>"

definition register ::
  "'t io_registry \<Rightarrow> io_owner_key \<Rightarrow> 't \<Rightarrow> 't io_registry \<times> (unit, registry_error) result" where
  "register r key owner =
    (if hm_has (owners r) key then (r, Err (DuplicateOwner key))
     else (r\<lparr> owners := hm_insert key owner (owners r) \<rparr>, Ok ()))"

definition get :: "'t io_registry \<Rightarrow> io_owner_key \<Rightarrow> 't option" where
  "get r key = hm_get (owners r) key"

definition contains :: "'t io_registry \<Rightarrow> io_owner_key \<Rightarrow> bool" where
  "contains r key = hm_has (owners r) key"

definition registry_len :: "'t io_registry \<Rightarrow> nat" where
  "registry_len r = hm_len (owners r)"

section \<open>Correctness\<close>

lemma get_register:
  assumes "register r key owner = (r', Ok ())"
  shows "get r key = None" and "get r' = (get r)(key \<mapsto> owner)"
    and "registry_len r' = Suc (registry_len r)"
  using assms
  by (auto simp: register_def get_def registry_len_def hm_has_def map_simps hm_len_insert
      fun_eq_iff split: if_splits)

lemma register_duplicate:
  "register r key owner = (r', Err e) \<longleftrightarrow>
    contains r key \<and> r' = r \<and> e = DuplicateOwner key"
  by (auto simp: register_def contains_def)

end
