(* ===== verification/Nat_Table.thy ===== *)
theory Nat_Table
  imports Flow
begin

text \<open>
  Source NAT (\<open>flow_plane/nat.rs\<close>): the per-worker table that gives each session a
  translated flow and finds the session of a returning packet, with the quarantine that
  keeps a released tuple from being reused at once, and the shared directory through
  which the other workers find the owner of a returning packet.
\<close>

section \<open>Model\<close>

definition TCP_REUSE_QUARANTINE :: duration where
  "TCP_REUSE_QUARANTINE = from_secs 120"

definition UDP_REUSE_QUARANTINE :: duration where
  "UDP_REUSE_QUARANTINE = from_secs 60"

definition ICMP_REUSE_QUARANTINE :: duration where
  "ICMP_REUSE_QUARANTINE = from_secs 30"

fun reuse_quarantine :: "transport_protocol \<Rightarrow> duration" where
  "reuse_quarantine Tcp = TCP_REUSE_QUARANTINE"
| "reuse_quarantine Udp = UDP_REUSE_QUARANTINE"
| "reuse_quarantine Icmp = ICMP_REUSE_QUARANTINE"
| "reuse_quarantine Icmpv6 = ICMP_REUSE_QUARANTINE"

datatype reverse_nat_key = ReverseNatKey flow_key

definition from_translated_flow :: "flow_key \<Rightarrow> reverse_nat_key" where
  "from_translated_flow f =
    (case protocol f of
       Tcp \<Rightarrow> ReverseNatKey (reverse f)
     | Udp \<Rightarrow> ReverseNatKey (reverse f)
     | _ \<Rightarrow> ReverseNatKey
         \<lparr> source = destination f, destination = source f,
           source_port = source_port f, destination_port = 0, protocol = protocol f \<rparr>)"

definition from_return_flow :: "flow_key \<Rightarrow> reverse_nat_key" where
  "from_return_flow f =
    ReverseNatKey (if is_icmp (protocol f) then f\<lparr> destination_port := 0 \<rparr> else f)"

record nat_binding =
  nb_original :: flow_key
  nb_translated :: flow_key

datatype nat_error =
    InvalidPortRange
  | AddressFamilyMismatch
  | PortRangeExhausted
  | DuplicateSession session_id
  | DuplicateReverseKey reverse_nat_key
  | NatUnknownSession session_id

record reverse_nat_directory =
  entries :: "(reverse_nat_key, session_locator) alist"

definition new_directory :: reverse_nat_directory where
  "new_directory = \<lparr> entries = hm_empty \<rparr>"

definition publish ::
  "reverse_nat_directory \<Rightarrow> nat_binding \<Rightarrow> session_locator
    \<Rightarrow> reverse_nat_directory \<times> (unit, nat_error) result" where
  "publish d binding locator =
    (let key = from_translated_flow (nb_translated binding) in
     case hm_get (entries d) key of
       Some existing \<Rightarrow>
         if existing = locator then (d, Ok ()) else (d, Err (DuplicateReverseKey key))
     | None \<Rightarrow> (d\<lparr> entries := hm_insert key locator (entries d) \<rparr>, Ok ()))"

definition lookup :: "reverse_nat_directory \<Rightarrow> flow_key \<Rightarrow> session_locator option" where
  "lookup d return_flow = hm_get (entries d) (from_return_flow return_flow)"

definition retire ::
  "reverse_nat_directory \<Rightarrow> nat_binding \<Rightarrow> session_locator
    \<Rightarrow> reverse_nat_directory \<times> session_locator option" where
  "retire d binding expected =
    (let key = from_translated_flow (nb_translated binding) in
     if hm_get (entries d) key \<noteq> Some expected then (d, None)
     else (d\<lparr> entries := hm_remove key (entries d) \<rparr>, hm_get (entries d) key))"

record nat_table =
  snat_ipv4 :: "u32 option"
  snat_ipv6 :: "128 word option"
  available_ports :: "u16 list"
  forward :: "(session_id, nat_binding) alist"
  reverse_map :: "(reverse_nat_key, session_locator) alist"
  quarantined :: "(reverse_nat_key, instant) alist"

text \<open>The ports of an inclusive range \<open>first_port..=last_port\<close>, in order.\<close>

definition port_range :: "u16 \<Rightarrow> u16 \<Rightarrow> u16 list" where
  "port_range first_port last_port = map word_of_nat [unat first_port ..< Suc (unat last_port)]"

definition new_dual ::
  "u32 option \<Rightarrow> 128 word option \<Rightarrow> u16 \<Rightarrow> u16 \<Rightarrow> (nat_table, nat_error) result" where
  "new_dual v4 v6 first_port last_port =
    (if last_port < first_port then Err InvalidPortRange
     else Ok \<lparr> snat_ipv4 = v4, snat_ipv6 = v6, available_ports = port_range first_port last_port,
               forward = hm_empty, reverse_map = hm_empty, quarantined = hm_empty \<rparr>)"

definition new_single :: "ip_addr \<Rightarrow> u16 \<Rightarrow> u16 \<Rightarrow> (nat_table, nat_error) result" where
  "new_single snat_ip first_port last_port =
    (case snat_ip of
       V4 address \<Rightarrow> new_dual (Some address) None first_port last_port
     | V6 address \<Rightarrow> new_dual None (Some address) first_port last_port)"

definition snat_ip_for :: "nat_table \<Rightarrow> flow_key \<Rightarrow> ip_addr option" where
  "snat_ip_for t original =
    (case source original of
       V4 _ \<Rightarrow> map_option V4 (snat_ipv4 t)
     | V6 _ \<Rightarrow> map_option V6 (snat_ipv6 t))"

definition translate_flow :: "ip_addr \<Rightarrow> u16 \<Rightarrow> flow_key \<Rightarrow> flow_key" where
  "translate_flow snat_ip port original = original\<lparr> source := snat_ip, source_port := port \<rparr>"

definition port_candidate ::
  "nat_table \<Rightarrow> ip_addr \<Rightarrow> flow_key \<Rightarrow> u16 \<Rightarrow> (u16 \<times> flow_key \<times> reverse_nat_key) option" where
  "port_candidate t snat_ip original port =
    (let translated = translate_flow snat_ip port original;
         reverse_key = from_translated_flow translated
     in if \<not> hm_has (reverse_map t) reverse_key \<and> \<not> hm_has (quarantined t) reverse_key
        then Some (port, translated, reverse_key) else None)"

definition allocate_at ::
  "nat_table \<Rightarrow> session_id \<Rightarrow> flow_key \<Rightarrow> session_locator \<Rightarrow> instant
    \<Rightarrow> nat_table \<times> (nat_binding, nat_error) result" where
  "allocate_at t session_id original locator now =
    (if hm_has (forward t) session_id then (t, Err (DuplicateSession session_id))
     else case snat_ip_for t original of
       None \<Rightarrow> (t, Err AddressFamilyMismatch)
     | Some snat_ip \<Rightarrow>
         let t1 = t\<lparr> quarantined :=
                       hm_retain (\<lambda>_ expires_at. now < expires_at) (quarantined t) \<rparr>
         in case find_map (port_candidate t1 snat_ip original) (available_ports t1) of
              None \<Rightarrow> (t1, Err PortRangeExhausted)
            | Some (port, translated, reverse_key) \<Rightarrow>
                let binding = \<lparr> nb_original = original, nb_translated = translated \<rparr>;
                    t2 = t1\<lparr> available_ports := bs_remove port (available_ports t1),
                             reverse_map := hm_insert reverse_key locator (reverse_map t1),
                             forward := hm_insert session_id binding (forward t1) \<rparr>
                in (t2, expect (hm_get (forward t2) session_id)))"

definition binding_of :: "nat_table \<Rightarrow> session_id \<Rightarrow> nat_binding option" where
  "binding_of t session_id = hm_get (forward t) session_id"

definition lookup_reverse :: "nat_table \<Rightarrow> flow_key \<Rightarrow> session_locator option" where
  "lookup_reverse t return_flow = hm_get (reverse_map t) (from_return_flow return_flow)"

definition remove_at ::
  "nat_table \<Rightarrow> session_id \<Rightarrow> instant \<Rightarrow> nat_table \<times> (nat_binding, nat_error) result" where
  "remove_at t session_id now =
    (case hm_get (forward t) session_id of
       None \<Rightarrow> (t, Err (NatUnknownSession session_id))
     | Some binding \<Rightarrow>
         let reverse_key = from_translated_flow (nb_translated binding) in
         (t\<lparr> forward := hm_remove session_id (forward t),
             reverse_map := hm_remove reverse_key (reverse_map t),
             quarantined := hm_insert reverse_key
               (now + reuse_quarantine (protocol (nb_translated binding))) (quarantined t),
             available_ports :=
               bs_insert (source_port (nb_translated binding)) (available_ports t) \<rparr>,
          Ok binding))"

definition nat_len :: "nat_table \<Rightarrow> nat" where
  "nat_len t = hm_len (forward t)"

definition reverse_len :: "nat_table \<Rightarrow> nat" where
  "reverse_len t = hm_len (reverse_map t)"

text \<open>
  The life of a table: created once, then allocations and releases in any order, each with
  its own clock reading.
\<close>

inductive nat_step :: "instant \<Rightarrow> nat_table \<Rightarrow> nat_table \<Rightarrow> bool" where
  step_allocate: "nat_step now t (fst (allocate_at t session_id original locator now))"
| step_remove: "nat_step now t (fst (remove_at t session_id now))"

inductive nat_reach :: "u16 \<Rightarrow> u16 \<Rightarrow> nat_table \<Rightarrow> bool" for first_port last_port where
  reach_new: "new_dual v4 v6 first_port last_port = Ok t \<Longrightarrow> nat_reach first_port last_port t"
| reach_step: "nat_reach first_port last_port t \<Longrightarrow> nat_step now t t' \<Longrightarrow> nat_reach first_port last_port t'"

text \<open>Steps whose clock readings all lie before a deadline.\<close>

inductive nat_steps_before :: "instant \<Rightarrow> nat_table \<Rightarrow> nat_table \<Rightarrow> bool" for deadline where
  before_none: "nat_steps_before deadline t t"
| before_step: "nat_steps_before deadline t t1 \<Longrightarrow> now < deadline \<Longrightarrow> nat_step now t1 t2
    \<Longrightarrow> nat_steps_before deadline t t2"

text \<open>What the workers do to the shared directory, in whatever order their lock admits them.\<close>

datatype directory_op = Publish nat_binding session_locator | Retire nat_binding session_locator

fun directory_step :: "reverse_nat_directory \<Rightarrow> directory_op \<Rightarrow> reverse_nat_directory" where
  "directory_step d (Publish b l) = fst (publish d b l)"
| "directory_step d (Retire b l) = fst (retire d b l)"

inductive_cases nat_stepE: "nat_step now t t'"

section \<open>The allocator contract\<close>

text \<open>
  What the owner of a table relies on: identifiers are bound to at most one tuple, a bound
  tuple leads back to what was recorded with it, and failures change neither view.
\<close>

locale nat_allocator =
  fixes alloc :: "'s \<Rightarrow> 'id \<Rightarrow> 'flow \<Rightarrow> 'loc \<Rightarrow> instant \<Rightarrow> 's \<times> ('b, 'e) result"
    and release :: "'s \<Rightarrow> 'id \<Rightarrow> instant \<Rightarrow> 's \<times> ('b, 'e) result"
    and bound :: "'s \<Rightarrow> 'id \<Rightarrow> 'b option"
    and locate :: "'s \<Rightarrow> 'key \<Rightarrow> 'loc option"
    and key_of :: "'b \<Rightarrow> 'key"
    and invar :: "'s \<Rightarrow> bool"
  assumes alloc_invar: "invar s \<Longrightarrow> invar (fst (alloc s i f l now))"
    and release_invar: "invar s \<Longrightarrow> invar (fst (release s i now))"
    and alloc_Ok: "invar s \<Longrightarrow> alloc s i f l now = (s', Ok b) \<Longrightarrow>
      bound s i = None \<and> bound s' = (bound s)(i \<mapsto> b) \<and> locate s' = (locate s)(key_of b \<mapsto> l)"
    and alloc_fresh: "invar s \<Longrightarrow> alloc s i f l now = (s', Ok b) \<Longrightarrow> locate s (key_of b) = None"
    and alloc_Err: "alloc s i f l now = (s', Err e) \<Longrightarrow> bound s' = bound s \<and> locate s' = locate s"
    and alloc_total: "snd (alloc s i f l now) \<noteq> Panic"
    and release_Ok: "release s i now = (s', Ok b) \<Longrightarrow>
      bound s i = Some b \<and> bound s' = (bound s)(i := None) \<and> locate s' = (locate s)(key_of b := None)"
    and release_Err: "release s i now = (s', Err e) \<Longrightarrow> bound s i = None \<and> s' = s"
    and release_total: "snd (release s i now) \<noteq> Panic"
    and key_unique: "invar s \<Longrightarrow> bound s i = Some b \<Longrightarrow> bound s j = Some c
      \<Longrightarrow> key_of b = key_of c \<Longrightarrow> i = j"
begin

text \<open>Releasing a bound identifier always succeeds and returns its binding.\<close>

lemma release_bound:
  assumes "bound s i = Some b"
  shows "snd (release s i now) = Ok b"
    and "bound (fst (release s i now)) = (bound s)(i := None)"
proof -
  obtain s' r where r: "release s i now = (s', r)" by fastforce
  then show "snd (release s i now) = Ok b"
    using assms release_Ok release_Err release_total [of s i now] by (cases r) force+
  then show "bound (fst (release s i now)) = (bound s)(i := None)"
    using r release_Ok by auto
qed

lemma release_unbound:
  assumes "bound s i = None"
  shows "fst (release s i now) = s" and "\<not> is_ok (snd (release s i now))"
proof -
  obtain s' r where r: "release s i now = (s', r)" by fastforce
  have "\<exists>e. r = Err e"
    using assms r release_Ok release_total [of s i now] by (cases r) force+
  then show "fst (release s i now) = s" and "\<not> is_ok (snd (release s i now))"
    using r release_Err by auto
qed

text \<open>If every tuple leads back to its own identifier, allocation and release keep it so.\<close>

lemma located_alloc:
  assumes "invar s" and "\<forall>j c. bound s j = Some c \<longrightarrow> locate s (key_of c) = Some (loc j)"
    and "l = loc i"
    and "bound (fst (alloc s i f l now)) j = Some c"
  shows "locate (fst (alloc s i f l now)) (key_of c) = Some (loc j)"
proof -
  obtain s' r where r: "alloc s i f l now = (s', r)" by fastforce
  show ?thesis
  proof (cases r)
    case (Ok b)
    have a: "bound s' = (bound s)(i \<mapsto> b)" "locate s' = (locate s)(key_of b \<mapsto> l)"
      and fresh: "locate s (key_of b) = None"
      using alloc_Ok [OF assms(1)] alloc_fresh [OF assms(1)] r Ok by auto
    show ?thesis
    proof (cases "j = i")
      case True then show ?thesis using a r assms(3,4) by simp
    next
      case False
      then have "bound s j = Some c" using a r assms(4) by simp
      then show ?thesis using assms(2) fresh a r by force
    qed
  next
    case (Err e)
    then show ?thesis using alloc_Err r assms(2,4) by auto
  next
    case Panic
    then show ?thesis using alloc_total [of s i f l now] r by simp
  qed
qed

lemma located_release:
  assumes "invar s" and "\<forall>j c. bound s j = Some c \<longrightarrow> locate s (key_of c) = Some (loc j)"
    and "bound (fst (release s i now)) j = Some c"
  shows "locate (fst (release s i now)) (key_of c) = Some (loc j)"
proof (cases "bound s i")
  case None
  then show ?thesis using release_unbound assms by simp
next
  case (Some b)
  then obtain s' where r: "release s i now = (s', Ok b)"
    using release_bound by (metis prod.collapse)
  have j: "j \<noteq> i" "bound s j = Some c"
    using release_Ok [OF r] r assms(3) by (auto split: if_splits)
  then have "key_of c \<noteq> key_of b"
    using key_unique [OF assms(1)] Some by metis
  then show ?thesis using release_Ok [OF r] r assms(2) j by simp
qed

end

section \<open>Reverse keys\<close>

definition nat_key :: "nat_binding \<Rightarrow> reverse_nat_key" where
  "nat_key b = from_translated_flow (nb_translated b)"

text \<open>A packet that answers a translated flow; the second ICMP word of an answer is free.\<close>

definition answers :: "flow_key \<Rightarrow> flow_key \<Rightarrow> bool" where
  "answers ret f \<longleftrightarrow>
    protocol ret = protocol f \<and> source ret = destination f \<and> destination ret = source f \<and>
    (if is_icmp (protocol f) then source_port ret = source_port f
     else source_port ret = destination_port f \<and> destination_port ret = source_port f)"

lemma from_return_flow_answers:
  "from_return_flow ret = from_translated_flow f \<longleftrightarrow> answers ret f"
  by (cases ret; cases f; cases "protocol f"; cases "protocol ret")
    (auto simp: from_return_flow_def from_translated_flow_def answers_def reverse_def)

lemma from_translated_flow_eqD:
  assumes "from_translated_flow f = from_translated_flow g"
  shows "protocol f = protocol g" and "source f = source g" and "destination f = destination g"
    and "source_port f = source_port g"
    and "\<not> is_icmp (protocol f) \<Longrightarrow> f = g"
  using assms
  by (cases f; cases g; cases "protocol f"; cases "protocol g";
      auto simp: from_translated_flow_def reverse_def)+

section \<open>Invariant\<close>

definition binding_ok :: "u16 set \<Rightarrow> nat_table \<Rightarrow> nat_binding \<Rightarrow> bool" where
  "binding_ok ports t b \<longleftrightarrow>
    source_port (nb_translated b) \<in> ports \<and>
    source_port (nb_translated b) \<notin> set (available_ports t) \<and>
    map_option (\<lambda>ip. translate_flow ip (source_port (nb_translated b)) (nb_original b))
      (snat_ip_for t (nb_original b)) = Some (nb_translated b)"

definition nat_inv :: "u16 set \<Rightarrow> nat_table \<Rightarrow> bool" where
  "nat_inv ports t \<longleftrightarrow>
    sorted_wrt (<) (available_ports t) \<and>
    set (available_ports t) \<subseteq> ports \<and>
    (\<forall>p\<in>ports. p \<in> set (available_ports t) \<or>
       (\<exists>i b. hm_get (forward t) i = Some b \<and> source_port (nb_translated b) = p)) \<and>
    (\<forall>i b. hm_get (forward t) i = Some b \<longrightarrow> binding_ok ports t b) \<and>
    (\<forall>i j b c. hm_get (forward t) i = Some b \<longrightarrow> hm_get (forward t) j = Some c \<longrightarrow>
       source_port (nb_translated b) = source_port (nb_translated c) \<longrightarrow> i = j) \<and>
    (\<forall>k. hm_get (reverse_map t) k \<noteq> None \<longleftrightarrow>
       (\<exists>i b. hm_get (forward t) i = Some b \<and> nat_key b = k)) \<and>
    (\<forall>k. hm_get (reverse_map t) k \<noteq> None \<longrightarrow> hm_get (quarantined t) k = None)"

lemma nat_invI:
  assumes "sorted_wrt (<) (available_ports t)"
    and "set (available_ports t) \<subseteq> ports"
    and "\<And>p. p \<in> ports \<Longrightarrow> p \<notin> set (available_ports t) \<Longrightarrow>
       \<exists>i b. hm_get (forward t) i = Some b \<and> source_port (nb_translated b) = p"
    and "\<And>i b. hm_get (forward t) i = Some b \<Longrightarrow> binding_ok ports t b"
    and "\<And>i j b c. hm_get (forward t) i = Some b \<Longrightarrow> hm_get (forward t) j = Some c \<Longrightarrow>
       source_port (nb_translated b) = source_port (nb_translated c) \<Longrightarrow> i = j"
    and "\<And>k. hm_get (reverse_map t) k \<noteq> None \<longleftrightarrow>
       (\<exists>i b. hm_get (forward t) i = Some b \<and> nat_key b = k)"
    and "\<And>k. hm_get (reverse_map t) k \<noteq> None \<Longrightarrow> hm_get (quarantined t) k = None"
  shows "nat_inv ports t"
  using assms unfolding nat_inv_def by blast

lemma nat_invD:
  assumes "nat_inv ports t"
  shows "sorted_wrt (<) (available_ports t)"
    and "set (available_ports t) \<subseteq> ports"
    and "\<And>p. p \<in> ports \<Longrightarrow> p \<notin> set (available_ports t) \<Longrightarrow>
       \<exists>i b. hm_get (forward t) i = Some b \<and> source_port (nb_translated b) = p"
    and "\<And>i b. hm_get (forward t) i = Some b \<Longrightarrow> binding_ok ports t b"
    and "\<And>i j b c. hm_get (forward t) i = Some b \<Longrightarrow> hm_get (forward t) j = Some c \<Longrightarrow>
       source_port (nb_translated b) = source_port (nb_translated c) \<Longrightarrow> i = j"
    and "\<And>k. hm_get (reverse_map t) k \<noteq> None \<longleftrightarrow>
       (\<exists>i b. hm_get (forward t) i = Some b \<and> nat_key b = k)"
    and "\<And>k. hm_get (reverse_map t) k \<noteq> None \<Longrightarrow> hm_get (quarantined t) k = None"
  using assms unfolding nat_inv_def by blast+

lemma nat_inv_key_unique:
  assumes "nat_inv ports t" and "hm_get (forward t) i = Some b" and "hm_get (forward t) j = Some c"
    and "nat_key b = nat_key c"
  shows "i = j"
  using nat_invD(5) [OF assms(1-3)] assms(4) from_translated_flow_eqD(4)
  by (metis nat_key_def)

lemma nat_inv_port_taken:
  assumes "nat_inv ports t" and "hm_get (forward t) i = Some b"
  shows "source_port (nb_translated b) \<notin> set (available_ports t)"
    and "source_port (nb_translated b) \<in> ports"
  using nat_invD(4) [OF assms] by (auto simp: binding_ok_def translate_flow_def)

section \<open>Allocation\<close>

lemma port_candidate_eq_Some:
  "port_candidate t ip original port = Some (p, tr, k) \<longleftrightarrow>
    p = port \<and> tr = translate_flow ip port original \<and> k = from_translated_flow tr \<and>
    hm_get (reverse_map t) k = None \<and> hm_get (quarantined t) k = None"
  by (auto simp: port_candidate_def Let_def hm_has_def)

lemma allocate_at_OkE:
  assumes "allocate_at t i original l now = (t', Ok b)"
  obtains ip port k where "hm_get (forward t) i = None"
    and "snat_ip_for t original = Some ip" and "port \<in> set (available_ports t)"
    and "b = \<lparr> nb_original = original, nb_translated = translate_flow ip port original \<rparr>"
    and "k = nat_key b" and "hm_get (reverse_map t) k = None"
    and "hm_get (hm_retain (\<lambda>_ e. now < e) (quarantined t)) k = None"
    and "t' = t\<lparr> quarantined := hm_retain (\<lambda>_ e. now < e) (quarantined t),
                 available_ports := bs_remove port (available_ports t),
                 reverse_map := hm_insert k l (reverse_map t),
                 forward := hm_insert i b (forward t) \<rparr>"
proof -
  let ?t1 = "t\<lparr> quarantined := hm_retain (\<lambda>_ e. now < e) (quarantined t) \<rparr>"
  obtain ip where ip: "snat_ip_for t original = Some ip" and i: "\<not> hm_has (forward t) i"
    using assms by (auto simp: allocate_at_def split: if_splits option.splits)
  then obtain port tr k where
    f: "find_map (port_candidate ?t1 ip original) (available_ports t) = Some (port, tr, k)"
    using assms by (auto simp: allocate_at_def Let_def split: option.splits)
  then have p: "port \<in> set (available_ports t)" and
    c: "port_candidate ?t1 ip original port = Some (port, tr, k)"
    by (auto elim!: find_map_SomeE simp: port_candidate_eq_Some)
  show ?thesis
    using that [of ip port k] assms i ip f p c
    by (auto simp: allocate_at_def Let_def port_candidate_eq_Some nat_key_def hm_has_def)
qed

lemma allocate_at_Err_unchanged:
  assumes "allocate_at t i original l now = (t', Err e)"
  shows "forward t' = forward t" and "reverse_map t' = reverse_map t"
    and "available_ports t' = available_ports t"
    and "e \<noteq> PortRangeExhausted \<Longrightarrow> t' = t"
  using assms by (auto simp: allocate_at_def Let_def split: if_splits option.splits)

lemma allocate_at_total: "snd (allocate_at t i original l now) \<noteq> Panic"
  by (auto simp: allocate_at_def Let_def split: option.split)

lemma snat_ip_for_cong [simp]:
  "snat_ip_for (t\<lparr> quarantined := q \<rparr>) f = snat_ip_for t f"
  "snat_ip_for (t\<lparr> available_ports := a \<rparr>) f = snat_ip_for t f"
  "snat_ip_for (t\<lparr> reverse_map := r \<rparr>) f = snat_ip_for t f"
  "snat_ip_for (t\<lparr> forward := w \<rparr>) f = snat_ip_for t f"
  by (simp_all add: snat_ip_for_def cong: ip_addr.case_cong)

lemma nat_inv_retain:
  assumes "nat_inv ports t"
  shows "nat_inv ports (t\<lparr> quarantined := hm_retain P (quarantined t) \<rparr>)"
  using assms by (simp add: nat_inv_def binding_ok_def hm_get_retain)

lemma nat_inv_allocate_at:
  assumes inv: "nat_inv ports t"
  shows "nat_inv ports (fst (allocate_at t i original l now))"
proof -
  obtain t' r where r: "allocate_at t i original l now = (t', r)" by fastforce
  show ?thesis
  proof (cases r)
    case (Ok b)
    with r obtain ip port where new: "hm_get (forward t) i = None"
      and ip: "snat_ip_for t original = Some ip" and port: "port \<in> set (available_ports t)"
      and b: "b = \<lparr> nb_original = original, nb_translated = translate_flow ip port original \<rparr>"
      and q: "hm_get (hm_retain (\<lambda>_ e. now < e) (quarantined t)) (nat_key b) = None"
      and t': "t' = t\<lparr> quarantined := hm_retain (\<lambda>_ e. now < e) (quarantined t),
                 available_ports := bs_remove port (available_ports t),
                 reverse_map := hm_insert (nat_key b) l (reverse_map t),
                 forward := hm_insert i b (forward t) \<rparr>"
      by (auto elim!: allocate_at_OkE)
    have pb: "source_port (nb_translated b) = port" by (simp add: b translate_flow_def)
    have old: "source_port (nb_translated c) \<noteq> port" if "hm_get (forward t) j = Some c" for j c
      using nat_inv_port_taken(1) [OF inv that] port by auto
    have fwd: "hm_get (forward t') j = Some c \<longleftrightarrow>
        j = i \<and> c = b \<or> hm_get (forward t) j = Some c"
      and rev: "hm_get (reverse_map t') k \<noteq> None \<longleftrightarrow>
        k = nat_key b \<or> hm_get (reverse_map t) k \<noteq> None" for j c k
      using new by (auto simp: t' hm_get_insert)
    have avail: "set (available_ports t') = set (available_ports t) - {port}"
      by (simp add: t')
    have "nat_inv ports t'"
    proof (rule nat_invI)
      fix p assume "p \<in> ports" "p \<notin> set (available_ports t')"
      then show "\<exists>j c. hm_get (forward t') j = Some c \<and> source_port (nb_translated c) = p"
        using nat_invD(3) [OF inv, of p] pb avail by (simp add: fwd) blast
    next
      fix j c assume "hm_get (forward t') j = Some c"
      then show "binding_ok ports t' c"
        using nat_invD(4) [OF inv, of j c] nat_invD(2) [OF inv] port ip
        by (auto simp: t' hm_get_insert binding_ok_def b translate_flow_def split: if_splits)
    next
      fix j k c d assume "hm_get (forward t') j = Some c" "hm_get (forward t') k = Some d"
        "source_port (nb_translated c) = source_port (nb_translated d)"
      then show "j = k"
        using nat_invD(5) [OF inv] old pb
        by (auto simp: t' hm_get_insert split: if_splits)
    next
      fix k
      show "hm_get (reverse_map t') k \<noteq> None \<longleftrightarrow>
        (\<exists>j c. hm_get (forward t') j = Some c \<and> nat_key c = k)"
        using nat_invD(6) [OF inv, of k] rev [of k] by (simp only: fwd) blast
    next
      fix k assume "hm_get (reverse_map t') k \<noteq> None"
      then show "hm_get (quarantined t') k = None"
        using nat_invD(7) [OF inv, of k] q
        by (auto simp: t' hm_get_insert hm_get_retain split: if_splits)
    qed (use nat_invD(1,2) [OF inv] in \<open>auto simp: t'\<close>)
    then show ?thesis using r by simp
  next
    case (Err e)
    then have "t' = t \<or> t' = t\<lparr> quarantined := hm_retain (\<lambda>_ e. now < e) (quarantined t) \<rparr>"
      using r by (auto simp: allocate_at_def Let_def split: if_splits option.splits)
    then show ?thesis using r inv nat_inv_retain by auto
  qed (use allocate_at_total [of t i original l now] r in simp)
qed

section \<open>Release\<close>

lemma remove_at_OkE:
  assumes "remove_at t i now = (t', Ok b)"
  obtains "hm_get (forward t) i = Some b"
    and "t' = t\<lparr> forward := hm_remove i (forward t),
                 reverse_map := hm_remove (nat_key b) (reverse_map t),
                 quarantined := hm_insert (nat_key b)
                   (now + reuse_quarantine (protocol (nb_translated b))) (quarantined t),
                 available_ports :=
                   bs_insert (source_port (nb_translated b)) (available_ports t) \<rparr>"
  using assms by (auto simp: remove_at_def Let_def nat_key_def split: option.splits)

lemma remove_at_Err:
  "remove_at t i now = (t', Err e) \<longleftrightarrow>
    hm_get (forward t) i = None \<and> t' = t \<and> e = NatUnknownSession i"
  by (auto simp: remove_at_def Let_def split: option.splits)

lemma remove_at_total: "snd (remove_at t i now) \<noteq> Panic"
  by (auto simp: remove_at_def Let_def split: option.split)

lemma nat_inv_remove_at:
  assumes inv: "nat_inv ports t"
  shows "nat_inv ports (fst (remove_at t i now))"
proof -
  obtain t' r where r: "remove_at t i now = (t', r)" by fastforce
  show ?thesis
  proof (cases r)
    case (Ok b)
    with r have i: "hm_get (forward t) i = Some b"
      and t': "t' = t\<lparr> forward := hm_remove i (forward t),
                 reverse_map := hm_remove (nat_key b) (reverse_map t),
                 quarantined := hm_insert (nat_key b)
                   (now + reuse_quarantine (protocol (nb_translated b))) (quarantined t),
                 available_ports :=
                   bs_insert (source_port (nb_translated b)) (available_ports t) \<rparr>"
      by (auto elim!: remove_at_OkE)
    have other: "source_port (nb_translated c) \<noteq> source_port (nb_translated b)"
      if "hm_get (forward t) j = Some c" "j \<noteq> i" for j c
      using nat_invD(5) [OF inv that(1) i] that(2) by auto
    have fwd: "hm_get (forward t') j = Some c \<longleftrightarrow> j \<noteq> i \<and> hm_get (forward t) j = Some c"
      and rev: "hm_get (reverse_map t') k \<noteq> None \<longleftrightarrow>
        k \<noteq> nat_key b \<and> hm_get (reverse_map t) k \<noteq> None" for j c k
      by (auto simp: t' hm_get_remove)
    have okey: "nat_key c \<noteq> nat_key b" if "hm_get (forward t) j = Some c" "j \<noteq> i" for j c
      using nat_inv_key_unique [OF inv that(1) i] that(2) by blast
    have keep: "hm_get (forward t') j = Some c" if "hm_get (forward t) j = Some c"
      and "source_port (nb_translated c) \<noteq> source_port (nb_translated b)" for j c
      using that i by (auto simp: t' hm_get_remove)
    have avail: "set (available_ports t') =
        insert (source_port (nb_translated b)) (set (available_ports t))"
      by (simp add: t')
    have "nat_inv ports t'"
    proof (rule nat_invI)
      fix p assume "p \<in> ports" "p \<notin> set (available_ports t')"
      then show "\<exists>j c. hm_get (forward t') j = Some c \<and> source_port (nb_translated c) = p"
        using nat_invD(3) [OF inv, of p] keep avail by blast
    next
      fix j c assume "hm_get (forward t') j = Some c"
      then show "binding_ok ports t' c"
        using nat_invD(4) [OF inv, of j c] other [of j c]
        by (auto simp: t' hm_get_remove binding_ok_def translate_flow_def split: if_splits)
    next
      fix j k c d assume "hm_get (forward t') j = Some c" "hm_get (forward t') k = Some d"
        "source_port (nb_translated c) = source_port (nb_translated d)"
      then show "j = k"
        using nat_invD(5) [OF inv] by (auto simp: t' hm_get_remove split: if_splits)
    next
      fix k
      show "hm_get (reverse_map t') k \<noteq> None \<longleftrightarrow>
        (\<exists>j c. hm_get (forward t') j = Some c \<and> nat_key c = k)"
      proof
        assume "hm_get (reverse_map t') k \<noteq> None"
        then obtain j c where "hm_get (forward t) j = Some c" "nat_key c = k" "k \<noteq> nat_key b"
          using nat_invD(6) [OF inv, of k] rev [of k] by auto
        moreover from this have "j \<noteq> i" using i by auto
        ultimately show "\<exists>j c. hm_get (forward t') j = Some c \<and> nat_key c = k"
          using fwd by blast
      qed (use nat_invD(6) [OF inv, of k] rev [of k] fwd okey in \<open>auto simp del: not_None_eq\<close>)
    next
      fix k assume "hm_get (reverse_map t') k \<noteq> None"
      then show "hm_get (quarantined t') k = None"
        using nat_invD(7) [OF inv, of k]
        by (auto simp: t' hm_get_insert hm_get_remove split: if_splits)
    qed (use nat_invD(1,2) [OF inv] nat_inv_port_taken(2) [OF inv i] in \<open>auto simp: t'\<close>)
    then show ?thesis using r by simp
  next
    case (Err e)
    then have "t' = t" using r by (simp add: remove_at_Err)
    then show ?thesis using r inv by simp
  qed (use remove_at_total [of t i now] r in simp)
qed

interpretation snat: nat_allocator allocate_at remove_at binding_of
  "\<lambda>t k. hm_get (reverse_map t) k" nat_key "nat_inv ports"
proof unfold_locales
  fix s s' i f l now b assume "allocate_at s i f l now = (s', Ok b)"
  then show "binding_of s i = None \<and> binding_of s' = (binding_of s)(i \<mapsto> b) \<and>
      hm_get (reverse_map s') = (hm_get (reverse_map s))(nat_key b \<mapsto> l)"
    and "hm_get (reverse_map s) (nat_key b) = None"
    by (auto elim!: allocate_at_OkE simp: binding_of_def fun_eq_iff hm_get_insert)
next
  fix s s' i now b assume "remove_at s i now = (s', Ok b)"
  then show "binding_of s i = Some b \<and> binding_of s' = (binding_of s)(i := None) \<and>
      hm_get (reverse_map s') = (hm_get (reverse_map s))(nat_key b := None)"
    by (auto elim!: remove_at_OkE simp: binding_of_def fun_eq_iff hm_get_remove)
qed (auto simp: nat_inv_allocate_at nat_inv_remove_at allocate_at_total remove_at_total
    remove_at_Err binding_of_def allocate_at_Err_unchanged(1,2) nat_inv_key_unique)

section \<open>Reachable tables\<close>

lemma unat_word_of_nat_u16: "n < 65536 \<Longrightarrow> unat (word_of_nat n :: u16) = n"
  by (simp add: unsigned_of_nat take_bit_nat_eq_self_iff)

lemma set_port_range [simp]: "set (port_range a b) = {p. a \<le> p \<and> p \<le> b}"
proof -
  have "p \<in> set (port_range a b)" if "a \<le> p" "p \<le> b" for p
  proof -
    have "unat p \<in> set [unat a ..< Suc (unat b)]"
      using that by (auto simp: word_le_nat_alt)
    then have "word_of_nat (unat p) \<in> set (port_range a b)"
      unfolding port_range_def set_map by (rule imageI)
    then show ?thesis by simp
  qed
  moreover have "a \<le> word_of_nat n \<and> word_of_nat n \<le> b"
    if "unat a \<le> n" "n < Suc (unat b)" for n
  proof -
    have "n < 65536" using that(2) unat_u16_less [of b] by simp
    then show ?thesis using that by (simp add: word_le_nat_alt unat_word_of_nat_u16)
  qed
  ultimately show ?thesis by (auto simp: port_range_def)
qed

lemma sorted_port_range [simp]: "sorted_wrt (<) (port_range a b)"
  unfolding port_range_def sorted_wrt_map
proof (rule sorted_wrt_mono_rel [OF _ sorted_wrt_upt])
  fix m n assume mn: "m \<in> set [unat a ..< Suc (unat b)]" "n \<in> set [unat a ..< Suc (unat b)]" "m < n"
  then have "n < 65536" using unat_u16_less [of b] by auto
  then show "word_of_nat m < (word_of_nat n :: u16)"
    using mn by (simp add: word_less_nat_alt unat_word_of_nat_u16)
qed

lemma length_port_range [simp]: "length (port_range a b) = Suc (unat b) - unat a"
  by (auto simp: port_range_def)

lemma nat_inv_new:
  assumes "new_dual v4 v6 a b = Ok t"
  shows "nat_inv (set (port_range a b)) t"
  using assms by (auto simp: new_dual_def nat_inv_def split: if_splits)

lemma nat_inv_step: "nat_step now t t' \<Longrightarrow> nat_inv ports t \<Longrightarrow> nat_inv ports t'"
  by (auto elim!: nat_stepE simp: nat_inv_allocate_at nat_inv_remove_at)

lemma nat_inv_reach: "nat_reach a b t \<Longrightarrow> nat_inv (set (port_range a b)) t"
  by (induction rule: nat_reach.induct) (simp_all add: nat_inv_new nat_inv_step del: set_port_range)

lemma nat_inv_steps_before:
  "nat_steps_before d t t' \<Longrightarrow> nat_inv ports t \<Longrightarrow> nat_inv ports t'"
  by (induction rule: nat_steps_before.induct) (auto simp: nat_inv_step)

text \<open>A tuple under quarantine stays there while the clock is before its deadline.\<close>

lemma quarantine_step:
  assumes "nat_step now t t'" and "nat_inv ports t" and "now < d"
    and "hm_get (quarantined t) k = Some d"
  shows "hm_get (quarantined t') k = Some d"
  using assms(1)
proof (cases rule: nat_step.cases)
  case (step_allocate i original l)
  then show ?thesis using assms(3,4)
    by (auto simp: allocate_at_def Let_def hm_get_retain split: option.split)
next
  case (step_remove i)
  obtain t'' r where r: "remove_at t i now = (t'', r)" by fastforce
  show ?thesis
  proof (cases r)
    case (Ok b)
    then have b: "hm_get (forward t) i = Some b" using r by (auto elim: remove_at_OkE)
    then have "hm_get (reverse_map t) (nat_key b) \<noteq> None"
      using nat_invD(6) [OF assms(2), of "nat_key b"] by blast
    then have "nat_key b \<noteq> k" using nat_invD(7) [OF assms(2)] assms(4) by force
    then show ?thesis using step_remove r Ok b assms(4)
      by (auto simp: remove_at_def Let_def nat_key_def hm_get_insert)
  next
    case (Err e)
    then have "t'' = t" using r by (simp add: remove_at_Err)
    then show ?thesis using step_remove r assms(4) by simp
  qed (use r remove_at_total [of t i now] in simp)
qed

lemma quarantine_steps:
  assumes "nat_steps_before d t t'" and "nat_inv ports t" and "hm_get (quarantined t) k = Some d"
  shows "hm_get (quarantined t') k = Some d"
  using assms
proof (induction rule: nat_steps_before.induct)
  case (before_step t t1 now t2)
  then show ?case using quarantine_step nat_inv_steps_before by blast
qed simp

section \<open>Correctness of source NAT\<close>

definition sample_flow :: flow_key where
  "sample_flow = \<lparr> source = V4 0x0A000002, destination = V4 0x08080808,
     source_port = 40000, destination_port = 443, protocol = Udp \<rparr>"

definition sample_table :: nat_table where
  "sample_table = \<lparr> snat_ipv4 = Some 0xCB007101, snat_ipv6 = None,
     available_ports = [20000, 20001], forward = hm_empty, reverse_map = hm_empty,
     quarantined = hm_empty \<rparr>"

definition sample_locator :: "session_id \<Rightarrow> session_locator" where
  "sample_locator i = \<lparr> flow_worker_id = 0, locator_session = i \<rparr>"

definition sample_binding :: "u16 \<Rightarrow> nat_binding" where
  "sample_binding port = \<lparr> nb_original = sample_flow,
     nb_translated = translate_flow (V4 0xCB007101) port sample_flow \<rparr>"

lemmas nat_eval = sample_binding_def allocate_at_def remove_at_def new_dual_def port_range_def snat_ip_for_def
  port_candidate_def Let_def hm_has_def map_simps from_translated_flow_def from_return_flow_def
  translate_flow_def reverse_def bs_insert_def bs_remove_def from_secs_def lookup_reverse_def
  nat_key_def answers_def TCP_REUSE_QUARANTINE_def UDP_REUSE_QUARANTINE_def
  ICMP_REUSE_QUARANTINE_def sample_flow_def sample_table_def sample_locator_def

lemma sample_table_new: "new_dual (Some 0xCB007101) None 20000 20001 = Ok sample_table"
  by (simp add: nat_eval)

lemma sample_table_reach: "nat_reach 20000 20001 sample_table"
  by (rule nat_reach.reach_new [OF sample_table_new])

text \<open>
  C8: In every table that can arise from \<open>NatTable::new_dual\<close> by allocations and releases,
  the configured ports are split exactly between the free ports and the bound sessions, no
  two sessions share a port, each binding is its original flow with the source rewritten
  to the SNAT address of its family and to its port, the reverse map holds exactly the
  keys of the bound sessions, and no live key is under quarantine.
\<close>

theorem nat_reach_invariant:
  assumes "nat_reach first_port last_port t"
  shows "nat_inv {p. first_port \<le> p \<and> p \<le> last_port} t"
  using nat_inv_reach [OF assms] by simp

theorem nat_reach_invariant_witness:
  "nat_inv {p. 20000 \<le> p \<and> p \<le> 20001}
     (fst (allocate_at sample_table 1 sample_flow (sample_locator 1) 0))"
  by (rule nat_reach_invariant [OF nat_reach.reach_step [OF sample_table_reach nat_step.step_allocate]])

text \<open>
  C9: A successful allocation in a reachable table binds the session to a tuple that no
  other session had, on a port of the configured range, and from then on a packet that
  answers the translated flow (for ICMP: any packet of the same addresses and identifier)
  is led to the session's locator, while every other lookup is as before.
\<close>

theorem allocate_leads_back:
  assumes "nat_reach first_port last_port t"
    and "allocate_at t i original l now = (t', Ok b)"
  shows "lookup_reverse t' ret =
           (if answers ret (nb_translated b) then Some l else lookup_reverse t ret) \<and>
         (answers ret (nb_translated b) \<longrightarrow> lookup_reverse t ret = None) \<and>
         first_port \<le> source_port (nb_translated b) \<and> source_port (nb_translated b) \<le> last_port \<and>
         nb_original b = original \<and>
         destination (nb_translated b) = destination original \<and>
         destination_port (nb_translated b) = destination_port original \<and>
         protocol (nb_translated b) = protocol original"
proof -
  have inv: "nat_inv (set (port_range first_port last_port)) t" by (rule nat_inv_reach [OF assms(1)])
  have "from_return_flow ret = nat_key b \<longleftrightarrow> answers ret (nb_translated b)"
    by (simp add: nat_key_def from_return_flow_answers)
  then have "lookup_reverse t' ret =
      (if answers ret (nb_translated b) then Some l else lookup_reverse t ret)"
    and "answers ret (nb_translated b) \<longrightarrow> lookup_reverse t ret = None"
    using snat.alloc_Ok [OF inv assms(2)] snat.alloc_fresh [OF inv assms(2)]
    by (auto simp: lookup_reverse_def)
  moreover have "binding_of t' i = Some b" using snat.alloc_Ok [OF inv assms(2)] by simp
  moreover have "nat_inv (set (port_range first_port last_port)) t'"
    using snat.alloc_invar [OF inv, of i original l now] assms(2) by simp
  ultimately show ?thesis
    using nat_inv_port_taken(2) [of _ t' i b] assms(2)
    by (auto elim!: allocate_at_OkE simp: binding_of_def translate_flow_def)
qed

theorem allocate_leads_back_witness:
  "lookup_reverse (fst (allocate_at sample_table 7 sample_flow (sample_locator 7) 0))
     \<lparr> source = V4 0x08080808, destination = V4 0xCB007101,
       source_port = 443, destination_port = 20000, protocol = Udp \<rparr> = Some (sample_locator 7)"
  using allocate_leads_back [OF sample_table_reach,
      of 7 sample_flow "sample_locator 7" 0 _ _
        "\<lparr> source = V4 0x08080808, destination = V4 0xCB007101,
           source_port = 443, destination_port = 20000, protocol = Udp \<rparr>"]
  by (simp add: nat_eval)

text \<open>
  C10: Once a binding has been released, whatever allocations and releases follow, no
  session is given the same tuple again before the quarantine of its protocol has passed
  (120 s for TCP, 60 s for UDP, 30 s for ICMP).
\<close>

theorem released_tuple_quarantined:
  assumes "nat_reach first_port last_port t"
    and "remove_at t i released = (t1, Ok b)"
    and "deadline = released + reuse_quarantine (protocol (nb_translated b))"
    and "nat_steps_before deadline t1 t2"
    and "now < deadline"
    and "allocate_at t2 j original l now = (t3, Ok c)"
  shows "from_translated_flow (nb_translated c) \<noteq> from_translated_flow (nb_translated b)"
proof -
  have inv: "nat_inv (set (port_range first_port last_port)) t1"
    using nat_inv_remove_at [OF nat_inv_reach [OF assms(1)], of i released] assms(2) by simp
  have "hm_get (quarantined t1) (nat_key b) = Some deadline"
    using assms(2,3) by (auto elim!: remove_at_OkE simp: hm_get_insert)
  then have "hm_get (quarantined t2) (nat_key b) = Some deadline"
    by (rule quarantine_steps [OF assms(4) inv])
  then show ?thesis
    using assms(5,6) by (auto elim!: allocate_at_OkE simp: hm_get_retain nat_key_def)
qed

theorem released_tuple_quarantined_witness:
  "\<exists>t1 b t3 c.
     remove_at (fst (allocate_at sample_table 1 sample_flow (sample_locator 1) 0)) 1 5 = (t1, Ok b) \<and>
     allocate_at t1 2 sample_flow (sample_locator 2) 10 = (t3, Ok c) \<and>
     from_translated_flow (nb_translated c) \<noteq> from_translated_flow (nb_translated b)"
proof -
  let ?t = "fst (allocate_at sample_table 1 sample_flow (sample_locator 1) 0)"
  let ?t1 = "fst (remove_at ?t 1 5)"
  let ?a = "allocate_at ?t1 2 sample_flow (sample_locator 2) 10"
  have r: "remove_at ?t 1 5 = (?t1, Ok (sample_binding 20000))"
    by (simp add: nat_eval prod_eq_iff)
  have a: "?a = (fst ?a, Ok (sample_binding 20001))"
    by (simp add: nat_eval prod_eq_iff)
  have "(10::nat) < 5 + reuse_quarantine (protocol (nb_translated (sample_binding 20000)))"
    by (simp add: nat_eval)
  from released_tuple_quarantined [OF nat_reach.reach_step [OF sample_table_reach nat_step.step_allocate]
      r refl nat_steps_before.before_none this a]
  show ?thesis using r a by blast
qed

lemma free_port_not_live:
  assumes "nat_inv ports t" and "port \<in> set (available_ports t)"
  shows "hm_get (reverse_map t) (from_translated_flow (translate_flow ip port original)) = None"
proof (rule ccontr)
  assume "\<not> ?thesis"
  then obtain i b where b: "hm_get (forward t) i = Some b"
    "nat_key b = from_translated_flow (translate_flow ip port original)"
    using nat_invD(6) [OF assms(1)] by blast
  then have "source_port (nb_translated b) = port"
    using from_translated_flow_eqD(4) [of "nb_translated b" "translate_flow ip port original"]
    by (simp add: nat_key_def translate_flow_def)
  then show False using nat_inv_port_taken(1) [OF assms(1) b(1)] assms(2) by simp
qed

text \<open>
  For a session without a binding, of a configured family, an allocation in a reachable
  table fails exactly when every free port is still under quarantine for this flow; it then
  reports exhaustion and changes no binding, and otherwise it succeeds.
\<close>

theorem allocate_exhausted_iff:
  assumes "nat_reach first_port last_port t"
    and "binding_of t i = None" and "snat_ip_for t original = Some ip"
  shows "(if \<forall>port\<in>set (available_ports t). \<exists>deadline. now < deadline \<and>
             hm_get (quarantined t) (from_translated_flow (translate_flow ip port original))
               = Some deadline
          then snd (allocate_at t i original l now) = Err PortRangeExhausted \<and>
               forward (fst (allocate_at t i original l now)) = forward t \<and>
               reverse_map (fst (allocate_at t i original l now)) = reverse_map t \<and>
               available_ports (fst (allocate_at t i original l now)) = available_ports t
          else \<exists>b. snd (allocate_at t i original l now) = Ok b)"
proof -
  let ?t1 = "t\<lparr> quarantined := hm_retain (\<lambda>_ e. now < e) (quarantined t) \<rparr>"
  have free: "port_candidate ?t1 ip original port = None \<longleftrightarrow>
      (\<exists>d. now < d \<and> hm_get (quarantined t) (from_translated_flow (translate_flow ip port original))
        = Some d)" if "port \<in> set (available_ports t)" for port
    using free_port_not_live [OF nat_inv_reach [OF assms(1)] that, of ip original]
    by (auto simp: port_candidate_def Let_def hm_has_def hm_get_retain split: option.splits)
  have "find_map (port_candidate ?t1 ip original) (available_ports t) = None \<longleftrightarrow>
      (\<forall>port\<in>set (available_ports t). \<exists>d. now < d \<and>
        hm_get (quarantined t) (from_translated_flow (translate_flow ip port original)) = Some d)"
    by (simp add: find_map_eq_None_iff free)
  then show ?thesis
    using assms(2,3)
    by (auto simp: allocate_at_def Let_def binding_of_def hm_has_def hm_get_insert
        split: option.split)
qed

text \<open>
  The table never loses or invents a port: in a reachable table the bound sessions and
  the free ports together number exactly the configured ports, and there is exactly one
  reverse entry per bound session.
\<close>

theorem nat_capacity:
  assumes "nat_reach first_port last_port t"
  shows "nat_len t + length (available_ports t) = Suc (unat last_port) - unat first_port \<and>
         reverse_len t = nat_len t"
proof -
  let ?F = "hm_get (forward t)" and ?P = "set (port_range first_port last_port)"
  let ?port = "\<lambda>i. source_port (nb_translated (the (?F i)))" and ?key = "\<lambda>i. nat_key (the (?F i))"
  have inv: "nat_inv ?P t" by (rule nat_inv_reach [OF assms])
  have ip: "inj_on ?port (dom ?F)"
    by (rule inj_onI) (use nat_invD(5) [OF inv] in auto)
  have ik: "inj_on ?key (dom ?F)"
    by (rule inj_onI) (use nat_inv_key_unique [OF inv] in auto)
  have rp: "?port ` dom ?F = ?P - set (available_ports t)"
  proof (intro equalityI subsetI)
    fix p assume "p \<in> ?P - set (available_ports t)"
    then obtain i b where "?F i = Some b" "source_port (nb_translated b) = p"
      using nat_invD(3) [OF inv] by blast
    then show "p \<in> ?port ` dom ?F" by (intro image_eqI [of _ _ i]) auto
  qed (use nat_inv_port_taken [OF inv] in auto)
  have rk: "?key ` dom ?F = dom (hm_get (reverse_map t))"
  proof (intro equalityI subsetI)
    fix k assume "k \<in> dom (hm_get (reverse_map t))"
    then obtain i b where "?F i = Some b" "nat_key b = k"
      using nat_invD(6) [OF inv, of k] by auto
    then show "k \<in> ?key ` dom ?F" by (intro image_eqI [of _ _ i]) auto
  next
    fix k assume "k \<in> ?key ` dom ?F"
    then obtain i b where "?F i = Some b" "nat_key b = k" by auto
    then have "hm_get (reverse_map t) k \<noteq> None" using nat_invD(6) [OF inv, of k] by blast
    then show "k \<in> dom (hm_get (reverse_map t))" by (simp add: domIff)
  qed
  have "card (dom ?F) = card (?P - set (available_ports t))"
    and "card (dom ?F) = card (dom (hm_get (reverse_map t)))"
    using card_image [OF ip] card_image [OF ik] by (simp_all only: rp rk)
  moreover have "card ?P = Suc (unat last_port) - unat first_port"
    using distinct_card [of "port_range first_port last_port"] sorted_port_range
    by (simp add: strict_sorted_iff del: set_port_range)
  moreover have "card (set (available_ports t)) = length (available_ports t)"
    using nat_invD(1) [OF inv] by (simp add: strict_sorted_iff distinct_card)
  ultimately show ?thesis
    using nat_invD(2) [OF inv] card_mono [of ?P "set (available_ports t)"]
    by (simp add: nat_len_def reverse_len_def hm_len_card card_Diff_subset del: set_port_range)
qed

section \<open>The shared directory\<close>

text \<open>
  A directory whose entries are set only when free and removed only by whoever set them:
  every update compares the present entry first.
\<close>

locale cas_directory =
  fixes pub :: "'d \<Rightarrow> 'b \<Rightarrow> 'l \<Rightarrow> 'd \<times> (unit, 'e) result"
    and ret :: "'d \<Rightarrow> 'b \<Rightarrow> 'l \<Rightarrow> 'd \<times> 'l option"
    and look :: "'d \<Rightarrow> 'k \<Rightarrow> 'l option"
    and key_of :: "'b \<Rightarrow> 'k"
  assumes pub_free: "look d (key_of b) = None \<Longrightarrow>
      snd (pub d b l) = Ok () \<and> look (fst (pub d b l)) = (look d)(key_of b \<mapsto> l)"
    and pub_taken: "look d (key_of b) = Some m \<Longrightarrow>
      fst (pub d b l) = d \<and> (snd (pub d b l) = Ok () \<longleftrightarrow> m = l)"
    and ret_own: "look d (key_of b) = Some l \<Longrightarrow>
      snd (ret d b l) = Some l \<and> look (fst (ret d b l)) = (look d)(key_of b := None)"
    and ret_other: "look d (key_of b) \<noteq> Some l \<Longrightarrow> ret d b l = (d, None)"
begin

lemma pub_keeps: "look d k = Some m \<Longrightarrow> look (fst (pub d b l)) k = Some m"
  using pub_free [of d b l] pub_taken [of d b _ l] by (cases "look d (key_of b)") auto

lemma pub_ok_look: "snd (pub d b l) = Ok () \<Longrightarrow> look (fst (pub d b l)) (key_of b) = Some l"
  using pub_free [of d b l] pub_taken [of d b _ l] by (cases "look d (key_of b)") auto

lemma ret_keeps: "look d k = Some m \<Longrightarrow> m \<noteq> l \<Longrightarrow> look (fst (ret d b l)) k = Some m"
  using ret_own [of d b l] ret_other [of d b l] by (cases "look d (key_of b) = Some l") auto

lemma ret_after_pub:
  assumes "look d (key_of b) = None"
  shows "look (fst (ret (fst (pub d b l)) b l)) = look d"
  using pub_free [OF assms, of l] ret_own [of "fst (pub d b l)" b l] assms
  by (auto simp: fun_eq_iff)

end

interpretation dir: cas_directory publish retire "\<lambda>d k. hm_get (entries d) k" nat_key
  by unfold_locales
    (auto simp: publish_def retire_def Let_def nat_key_def map_simps fun_eq_iff)

lemma directory_step_keeps:
  assumes "hm_get (entries d) k = Some l" and "\<forall>b. op \<noteq> Retire b l"
  shows "hm_get (entries (directory_step d op)) k = Some l"
  using assms by (cases op) (auto intro: dir.pub_keeps dir.ret_keeps)

text \<open>
  C28: An entry of the shared reverse-NAT directory survives every sequence of publications
  and retirements by others: only a retirement naming its own locator can remove it, and no
  publication replaces it.  A publication of the same tuple for another session is refused.
\<close>

theorem directory_entry_stable:
  assumes "lookup d ret = Some l" and "\<forall>op\<in>set ops. \<forall>b. op \<noteq> Retire b l"
  shows "lookup (foldl directory_step d ops) ret = Some l \<and>
         (\<forall>b m. answers ret (nb_translated b) \<longrightarrow> m \<noteq> l \<longrightarrow>
            publish (foldl directory_step d ops) b m =
              (foldl directory_step d ops, Err (DuplicateReverseKey (nat_key b))))"
proof -
  have "hm_get (entries (foldl directory_step d ops)) (from_return_flow ret) = Some l"
    using assms
    by (induction ops arbitrary: d) (auto simp: lookup_def directory_step_keeps)
  then show ?thesis
    by (auto simp: lookup_def publish_def nat_key_def from_return_flow_answers [symmetric])
qed

theorem directory_entry_stable_witness:
  "lookup (foldl directory_step (fst (publish new_directory (sample_binding 20000) (sample_locator 1)))
       [Publish (sample_binding 20000) (sample_locator 2),
        Retire (sample_binding 20000) (sample_locator 2)])
     (reverse (translate_flow (V4 0xCB007101) 20000 sample_flow)) = Some (sample_locator 1)"
proof -
  let ?d = "fst (publish new_directory (sample_binding 20000) (sample_locator 1))"
  have "lookup ?d (reverse (translate_flow (V4 0xCB007101) 20000 sample_flow)) = Some (sample_locator 1)"
    by (simp add: nat_eval publish_def lookup_def new_directory_def)
  from directory_entry_stable [OF this, of "[Publish (sample_binding 20000) (sample_locator 2),
        Retire (sample_binding 20000) (sample_locator 2)]"]
  show ?thesis by (simp add: sample_locator_def)
qed

end
