(* ===== verification/Session_Table.thy ===== *)
theory Session_Table
  imports Nat_Table
begin

text \<open>
  The session table of one flow worker (\<open>flow_plane/session.rs\<close>): sessions found by the
  flow and interface they came from, their NAT bindings, the TCP state that sets their
  idle timeout, and the ordered deadlines by which they expire.  Every operation is
  reserved to the owning worker.
\<close>

section \<open>Model\<close>

definition TCP_IDLE_TIMEOUT :: duration where "TCP_IDLE_TIMEOUT = from_secs 300"
definition TCP_CLOSING_TIMEOUT :: duration where "TCP_CLOSING_TIMEOUT = from_secs 5"
definition TCP_RST_TIMEOUT :: duration where "TCP_RST_TIMEOUT = from_secs 2"
definition UDP_IDLE_TIMEOUT :: duration where "UDP_IDLE_TIMEOUT = from_secs 60"
definition ICMP_IDLE_TIMEOUT :: duration where "ICMP_IDLE_TIMEOUT = from_secs 30"

datatype tcp_session_state = Established | FinSeenForward | FinSeenReverse | Closing | Reset

record session_key =
  key_original :: flow_key
  intercept_ifindex :: u32

record session =
  sess_id :: session_id
  sess_original :: flow_key
  sess_nat :: nat_binding
  sess_worker :: worker_id
  intercept_io :: io_owner_key
  sess_quic_flow :: quic_flow_id
  expires_at :: instant
  tcp_state :: "tcp_session_state option"

datatype session_error =
    WrongOwner worker_id worker_id
  | UnknownSession session_id
  | NatFailure nat_error

datatype intercept_io_update = Unchanged | Corrected | Mismatch

type_synonym 'i deadline_map = "(instant \<times> 'i list) list"

record session_table =
  owner_worker_id :: worker_id
  next_session_id :: u64
  by_key :: "(session_key, session_id) alist"
  sessions :: "(session_id, session) alist"
  deadlines :: "session_id deadline_map"
  nat_tbl :: nat_table

fun protocol_idle_timeout :: "transport_protocol \<Rightarrow> duration" where
  "protocol_idle_timeout Tcp = TCP_IDLE_TIMEOUT"
| "protocol_idle_timeout Udp = UDP_IDLE_TIMEOUT"
| "protocol_idle_timeout Icmp = ICMP_IDLE_TIMEOUT"
| "protocol_idle_timeout Icmpv6 = ICMP_IDLE_TIMEOUT"

text \<open>\<open>deadlines.entry(deadline).or_default().insert(session_id)\<close>.\<close>

definition add_deadline :: "'i deadline_map \<Rightarrow> instant \<Rightarrow> 'i \<Rightarrow> 'i deadline_map" where
  "add_deadline m deadline session_id =
    bt_insert deadline
      (List.insert session_id (case map_of m deadline of Some ids \<Rightarrow> ids | None \<Rightarrow> [])) m"

definition remove_deadline :: "'i deadline_map \<Rightarrow> instant \<Rightarrow> 'i \<Rightarrow> 'i deadline_map" where
  "remove_deadline m deadline session_id =
    (case map_of m deadline of
       None \<Rightarrow> m
     | Some ids \<Rightarrow>
         let ids' = removeAll session_id ids in
         if ids' = [] then bt_remove deadline m else bt_insert deadline ids' m)"

text \<open>The loop that pops every bucket that is due.\<close>

fun pop_due :: "instant \<Rightarrow> 'i deadline_map \<Rightarrow> 'i list \<times> 'i deadline_map" where
  "pop_due now [] = ([], [])"
| "pop_due now ((deadline, ids) # m) =
    (if deadline \<le> now
     then (let (due, rest) = pop_due now m in (ids @ due, rest))
     else ([], (deadline, ids) # m))"

definition ensure_owner :: "session_table \<Rightarrow> worker_id \<Rightarrow> (unit, session_error) result" where
  "ensure_owner st caller =
    (if caller \<noteq> owner_worker_id st then Err (WrongOwner (owner_worker_id st) caller) else Ok ())"

definition new_table ::
  "worker_id \<Rightarrow> u32 option \<Rightarrow> 128 word option \<Rightarrow> u16 \<Rightarrow> u16
    \<Rightarrow> (session_table, session_error) result" where
  "new_table owner v4 v6 first_port last_port =
    and_then (map_err NatFailure (Nat_Table.new_dual v4 v6 first_port last_port)) (\<lambda>nat.
      Ok \<lparr> owner_worker_id = owner, next_session_id = 1, by_key = hm_empty,
           sessions = hm_empty, deadlines = [], nat_tbl = nat \<rparr>)"

definition flag_set :: "u8 \<Rightarrow> u8 \<Rightarrow> bool" where
  "flag_set flags m = (flags AND m \<noteq> 0)"

text \<open>The TCP part of \<open>touch_tcp\<close>: the next state and the timeout it earns.\<close>

definition quiet_timeout :: "tcp_session_state option \<Rightarrow> duration" where
  "quiet_timeout state =
    (case state of
       Some Closing \<Rightarrow> TCP_CLOSING_TIMEOUT
     | Some Reset \<Rightarrow> TCP_RST_TIMEOUT
     | _ \<Rightarrow> TCP_IDLE_TIMEOUT)"

definition fin_state :: "tcp_session_state option \<Rightarrow> bool \<Rightarrow> tcp_session_state" where
  "fin_state state is_reverse =
    (if state = Some FinSeenReverse \<and> \<not> is_reverse then Closing
     else if state = Some FinSeenForward \<and> is_reverse then Closing
     else if state = Some Closing then Closing
     else if state = Some Reset then Reset
     else if is_reverse then FinSeenReverse else FinSeenForward)"

definition tcp_transition ::
  "tcp_session_state option \<Rightarrow> u8 option \<Rightarrow> bool \<Rightarrow> tcp_session_state option \<times> duration" where
  "tcp_transition state flags is_reverse =
    (case flags of
       None \<Rightarrow> (state, quiet_timeout state)
     | Some f \<Rightarrow>
         if flag_set f 0x04 then (Some Reset, TCP_RST_TIMEOUT)
         else if flag_set f 0x01 then
           (let next = fin_state state is_reverse in
            (Some next,
             if next = Closing \<or> next = Reset then TCP_CLOSING_TIMEOUT else TCP_IDLE_TIMEOUT))
         else (state, quiet_timeout state))"

definition touch_tcp ::
  "session_table \<Rightarrow> worker_id \<Rightarrow> session_id \<Rightarrow> u8 option \<Rightarrow> bool \<Rightarrow> instant
    \<Rightarrow> session_table \<times> (unit, session_error) result" where
  "touch_tcp st caller session_id flags is_reverse now =
    (case ensure_owner st caller of
       Err e \<Rightarrow> (st, Err e)
     | Panic \<Rightarrow> (st, Panic)
     | Ok _ \<Rightarrow>
       (case hm_get (sessions st) session_id of
          None \<Rightarrow> (st, Err (UnknownSession session_id))
        | Some s \<Rightarrow>
            let previous_deadline = expires_at s;
                (state', timeout) =
                  (if protocol (sess_original s) = Tcp
                   then tcp_transition (tcp_state s) flags is_reverse
                   else (tcp_state s, protocol_idle_timeout (protocol (sess_original s))));
                s' = s\<lparr> tcp_state := state', expires_at := now + timeout \<rparr>
            in (st\<lparr> sessions := hm_insert session_id s' (sessions st),
                    deadlines :=
                      add_deadline (remove_deadline (deadlines st) previous_deadline session_id)
                        (expires_at s') session_id \<rparr>,
                Ok ())))"

definition touch ::
  "session_table \<Rightarrow> worker_id \<Rightarrow> session_id \<Rightarrow> instant
    \<Rightarrow> session_table \<times> (unit, session_error) result" where
  "touch st caller session_id now = touch_tcp st caller session_id None False now"

text \<open>State and timeout of a new session; a RST or FIN only shortens the first timeout.\<close>

definition initial_tcp_timeout :: "u8 option \<Rightarrow> duration" where
  "initial_tcp_timeout flags =
    (case flags of
       None \<Rightarrow> TCP_IDLE_TIMEOUT
     | Some f \<Rightarrow>
         if flag_set f 0x04 then TCP_RST_TIMEOUT
         else if flag_set f 0x01 then TCP_CLOSING_TIMEOUT
         else TCP_IDLE_TIMEOUT)"

definition initial_state ::
  "transport_protocol \<Rightarrow> u8 option \<Rightarrow> tcp_session_state option \<times> duration" where
  "initial_state proto flags =
    (if proto = Tcp then (Some Established, initial_tcp_timeout flags)
     else (None, protocol_idle_timeout proto))"

definition table_key :: "flow_key \<Rightarrow> io_owner_key \<Rightarrow> session_key" where
  "table_key original io = \<lparr> key_original = original, intercept_ifindex = ifindex io \<rparr>"

definition own_locator :: "session_table \<Rightarrow> session_id \<Rightarrow> session_locator" where
  "own_locator st session_id =
    \<lparr> flow_worker_id = owner_worker_id st, locator_session = session_id \<rparr>"

text \<open>
  \<open>now\<close> is the reading the caller passes; \<open>nat_now\<close> the one \<open>NatTable::allocate\<close> makes.
\<close>

definition get_or_create_with_flags_at ::
  "session_table \<Rightarrow> worker_id \<Rightarrow> flow_key \<Rightarrow> io_owner_key \<Rightarrow> quic_flow_id \<Rightarrow> u8 option \<Rightarrow> bool
    \<Rightarrow> instant \<Rightarrow> instant \<Rightarrow> session_table \<times> (session_id, session_error) result" where
  "get_or_create_with_flags_at st caller original io quic_flow flags is_reverse now nat_now =
    (case ensure_owner st caller of
       Err e \<Rightarrow> (st, Err e)
     | Panic \<Rightarrow> (st, Panic)
     | Ok _ \<Rightarrow>
       let key = table_key original io in
       (case hm_get (by_key st) key of
          Some session_id \<Rightarrow>
            (case touch_tcp st caller session_id flags is_reverse now of
               (st', Ok _) \<Rightarrow> (st', Ok session_id)
             | (st', Err e) \<Rightarrow> (st', Err e)
             | (st', Panic) \<Rightarrow> (st', Panic))
        | None \<Rightarrow>
            let session_id = next_session_id st;
                (nat', r) = allocate_at (nat_tbl st) session_id original
                              (own_locator st session_id) nat_now;
                st1 = st\<lparr> nat_tbl := nat' \<rparr>
            in (case r of
                  Err e \<Rightarrow> (st1, Err (NatFailure e))
                | Panic \<Rightarrow> (st1, Panic)
                | Ok binding \<Rightarrow>
                    let (state, timeout) = initial_state (protocol original) flags;
                        s = \<lparr> sess_id = session_id, sess_original = original, sess_nat = binding,
                              sess_worker = owner_worker_id st, intercept_io = io,
                              sess_quic_flow = quic_flow, expires_at = now + timeout,
                              tcp_state = state \<rparr>
                    in (st1\<lparr> by_key := hm_insert key session_id (by_key st),
                             sessions := hm_insert session_id s (sessions st),
                             deadlines := add_deadline (deadlines st) (expires_at s) session_id,
                             next_session_id := session_id + 1 \<rparr>,
                        Ok session_id))))"

definition get_or_create_at ::
  "session_table \<Rightarrow> worker_id \<Rightarrow> flow_key \<Rightarrow> io_owner_key \<Rightarrow> quic_flow_id \<Rightarrow> instant \<Rightarrow> instant
    \<Rightarrow> session_table \<times> (session_id, session_error) result" where
  "get_or_create_at st caller original io quic_flow now nat_now =
    get_or_create_with_flags_at st caller original io quic_flow None False now nat_now"

definition session_get :: "session_table \<Rightarrow> session_id \<Rightarrow> session option" where
  "session_get st session_id = hm_get (sessions st) session_id"

definition correct_intercept_io ::
  "session_table \<Rightarrow> worker_id \<Rightarrow> session_id \<Rightarrow> io_owner_key
    \<Rightarrow> session_table \<times> (intercept_io_update, session_error) result" where
  "correct_intercept_io st caller session_id observed =
    (case ensure_owner st caller of
       Err e \<Rightarrow> (st, Err e)
     | Panic \<Rightarrow> (st, Panic)
     | Ok _ \<Rightarrow>
       (case hm_get (sessions st) session_id of
          None \<Rightarrow> (st, Err (UnknownSession session_id))
        | Some s \<Rightarrow>
            if intercept_io s = observed then (st, Ok Unchanged)
            else if ifindex (intercept_io s) = ifindex observed \<and> queue_id (intercept_io s) = 0
            then (st\<lparr> sessions := hm_insert session_id (s\<lparr> intercept_io := observed \<rparr>)
                        (sessions st) \<rparr>, Ok Corrected)
            else (st, Ok Mismatch)))"

definition lookup_reverse_locator :: "session_table \<Rightarrow> flow_key \<Rightarrow> session_locator option" where
  "lookup_reverse_locator st return_flow =
    (case lookup_reverse (nat_tbl st) return_flow of
       None \<Rightarrow> None
     | Some locator \<Rightarrow>
         if flow_worker_id locator = owner_worker_id st \<and>
            hm_has (sessions st) (locator_session locator)
         then Some locator else None)"

definition table_lookup_reverse :: "session_table \<Rightarrow> flow_key \<Rightarrow> session_id option" where
  "table_lookup_reverse st return_flow =
    map_option locator_session (lookup_reverse_locator st return_flow)"

definition allocate_ephemeral_nat ::
  "session_table \<Rightarrow> worker_id \<Rightarrow> session_id \<Rightarrow> flow_key \<Rightarrow> instant
    \<Rightarrow> session_table \<times> (nat_binding, session_error) result" where
  "allocate_ephemeral_nat st caller token original nat_now =
    (case ensure_owner st caller of
       Err e \<Rightarrow> (st, Err e)
     | Panic \<Rightarrow> (st, Panic)
     | Ok _ \<Rightarrow>
         let (nat', r) = allocate_at (nat_tbl st) token original (own_locator st token) nat_now
         in (st\<lparr> nat_tbl := nat' \<rparr>, map_err NatFailure r))"

definition release_ephemeral_nat ::
  "session_table \<Rightarrow> worker_id \<Rightarrow> session_id \<Rightarrow> instant
    \<Rightarrow> session_table \<times> (nat_binding, session_error) result" where
  "release_ephemeral_nat st caller token nat_now =
    (case ensure_owner st caller of
       Err e \<Rightarrow> (st, Err e)
     | Panic \<Rightarrow> (st, Panic)
     | Ok _ \<Rightarrow>
         let (nat', r) = remove_at (nat_tbl st) token nat_now
         in (st\<lparr> nat_tbl := nat' \<rparr>, map_err NatFailure r))"

definition session_key_of :: "session \<Rightarrow> session_key" where
  "session_key_of s = table_key (sess_original s) (intercept_io s)"

definition remove ::
  "session_table \<Rightarrow> worker_id \<Rightarrow> session_id \<Rightarrow> instant
    \<Rightarrow> session_table \<times> (session, session_error) result" where
  "remove st caller session_id nat_now =
    (case ensure_owner st caller of
       Err e \<Rightarrow> (st, Err e)
     | Panic \<Rightarrow> (st, Panic)
     | Ok _ \<Rightarrow>
       (case hm_get (sessions st) session_id of
          None \<Rightarrow> (st, Err (UnknownSession session_id))
        | Some s \<Rightarrow>
            (case remove_at (nat_tbl st) session_id nat_now of
               (nat', Err e) \<Rightarrow> (st\<lparr> nat_tbl := nat' \<rparr>, Err (NatFailure e))
             | (nat', Panic) \<Rightarrow> (st\<lparr> nat_tbl := nat' \<rparr>, Panic)
             | (nat', Ok _) \<Rightarrow>
                 (st\<lparr> nat_tbl := nat',
                      sessions := hm_remove session_id (sessions st),
                      deadlines := remove_deadline (deadlines st) (expires_at s) session_id,
                      by_key := hm_remove (session_key_of s) (by_key st) \<rparr>,
                  Ok s))))"

text \<open>Removals in order, stopping at the first error; \<open>clk\<close> reads the clock of each removal.\<close>

fun remove_each ::
  "session_table \<Rightarrow> worker_id \<Rightarrow> (session_id \<Rightarrow> instant) \<Rightarrow> session_id list
    \<Rightarrow> session_table \<times> (session list, session_error) result" where
  "remove_each st caller clk [] = (st, Ok [])"
| "remove_each st caller clk (i # ids) =
    (case remove st caller i (clk i) of
       (st', Ok s) \<Rightarrow>
         (case remove_each st' caller clk ids of
            (st'', Ok ss) \<Rightarrow> (st'', Ok (s # ss))
          | (st'', r) \<Rightarrow> (st'', r))
     | (st', Err e) \<Rightarrow> (st', Err e)
     | (st', Panic) \<Rightarrow> (st', Panic))"

definition expire_idle ::
  "session_table \<Rightarrow> worker_id \<Rightarrow> instant \<Rightarrow> (session_id \<Rightarrow> instant)
    \<Rightarrow> session_table \<times> (session list, session_error) result" where
  "expire_idle st caller now clk =
    (case ensure_owner st caller of
       Err e \<Rightarrow> (st, Err e)
     | Panic \<Rightarrow> (st, Panic)
     | Ok _ \<Rightarrow>
         let (due, rest) = pop_due now (deadlines st);
             st1 = st\<lparr> deadlines := rest \<rparr>;
             expired = filter (\<lambda>i. case hm_get (sessions st1) i of
                                     Some s \<Rightarrow> expires_at s \<le> now | None \<Rightarrow> False) due
         in remove_each st1 caller clk expired)"

definition rebind_quic_flow ::
  "session_table \<Rightarrow> worker_id \<Rightarrow> quic_flow_id \<Rightarrow> quic_flow_id
    \<Rightarrow> session_table \<times> (nat, session_error) result" where
  "rebind_quic_flow st caller old new =
    (case ensure_owner st caller of
       Err e \<Rightarrow> (st, Err e)
     | Panic \<Rightarrow> (st, Panic)
     | Ok _ \<Rightarrow>
         (st\<lparr> sessions := hm_map_vals (\<lambda>_ s. if sess_quic_flow s = old
                then s\<lparr> sess_quic_flow := new \<rparr> else s) (sessions st) \<rparr>,
          Ok (length (filter (\<lambda>s. sess_quic_flow s = old) (hm_vals (sessions st))))))"

definition remove_by_quic_flow ::
  "session_table \<Rightarrow> worker_id \<Rightarrow> quic_flow_id \<Rightarrow> (session_id \<Rightarrow> instant)
    \<Rightarrow> session_table \<times> (nat, session_error) result" where
  "remove_by_quic_flow st caller quic_flow clk =
    (case ensure_owner st caller of
       Err e \<Rightarrow> (st, Err e)
     | Panic \<Rightarrow> (st, Panic)
     | Ok _ \<Rightarrow>
         let ids = map sess_id (filter (\<lambda>s. sess_quic_flow s = quic_flow) (hm_vals (sessions st)))
         in (case remove_each st caller clk ids of
               (st', Ok _) \<Rightarrow> (st', Ok (length ids))
             | (st', Err e) \<Rightarrow> (st', Err e)
             | (st', Panic) \<Rightarrow> (st', Panic)))"

definition table_len :: "session_table \<Rightarrow> nat" where
  "table_len st = hm_len (sessions st)"

text \<open>
  The life of a table: any operation, by any caller.  A worker releases only tokens it
  allocated itself, which never are identifiers of sessions.
\<close>

inductive table_step :: "session_table \<Rightarrow> session_table \<Rightarrow> bool" where
  step_get_or_create: "table_step st (fst (get_or_create_with_flags_at st caller original io
     quic_flow flags is_reverse now nat_now))"
| step_touch: "table_step st (fst (touch_tcp st caller i flags is_reverse now))"
| step_correct: "table_step st (fst (correct_intercept_io st caller i observed))"
| step_expire: "table_step st (fst (expire_idle st caller now clk))"
| step_alloc_token: "table_step st (fst (allocate_ephemeral_nat st caller token original now))"
| step_release_token: "hm_get (sessions st) token = None \<Longrightarrow>
     table_step st (fst (release_ephemeral_nat st caller token now))"
| step_remove_one: "table_step st (fst (remove st caller i now))"
| step_rebind: "table_step st (fst (rebind_quic_flow st caller old new))"
| step_remove_flow: "table_step st (fst (remove_by_quic_flow st caller quic_flow clk))"

inductive table_reach :: "worker_id \<Rightarrow> u16 \<Rightarrow> u16 \<Rightarrow> session_table \<Rightarrow> bool"
  for owner first_port last_port where
  table_new: "new_table owner v4 v6 first_port last_port = Ok st \<Longrightarrow>
     table_reach owner first_port last_port st"
| table_more: "table_reach owner first_port last_port st \<Longrightarrow> table_step st st' \<Longrightarrow>
     table_reach owner first_port last_port st'"

inductive_cases table_stepE: "table_step st st'"

text \<open>A packet of a session as its owner sees it: TCP flags, direction and time.\<close>

type_synonym touch_event = "u8 option \<times> bool \<times> instant"

fun touch_all :: "session_table \<Rightarrow> session_id \<Rightarrow> touch_event list \<Rightarrow> session_table" where
  "touch_all st i [] = st"
| "touch_all st i ((flags, is_reverse, now) # es) =
    touch_all (fst (touch_tcp st (owner_worker_id st) i flags is_reverse now)) i es"

text \<open>What a connection has seen: a reset, or the ends of its two directions.\<close>

fun is_rst :: "touch_event \<Rightarrow> bool" where
  "is_rst (Some f, _, _) = flag_set f 0x04"
| "is_rst (None, _, _) = False"

fun is_fin :: "bool \<Rightarrow> touch_event \<Rightarrow> bool" where
  "is_fin dir (Some f, is_reverse, _) = (\<not> flag_set f 0x04 \<and> flag_set f 0x01 \<and> is_reverse = dir)"
| "is_fin dir (None, _, _) = False"

definition seen_state :: "touch_event list \<Rightarrow> tcp_session_state" where
  "seen_state es =
    (if list_ex is_rst es then Reset
     else if list_ex (is_fin False) es \<and> list_ex (is_fin True) es then Closing
     else if list_ex (is_fin False) es then FinSeenForward
     else if list_ex (is_fin True) es then FinSeenReverse
     else Established)"

text \<open>The table seen as a map from keys to sessions.\<close>

definition table_view :: "session_table \<Rightarrow> session_key \<Rightarrow> session option" where
  "table_view st k = Option.bind (hm_get (by_key st) k) (hm_get (sessions st))"

section \<open>Deadlines\<close>

text \<open>\<open>dl_inv m S\<close>: the buckets of \<open>m\<close> hold each session exactly at the deadline \<open>S\<close> gives it.\<close>

definition dl_inv :: "'i deadline_map \<Rightarrow> ('i \<Rightarrow> instant option) \<Rightarrow> bool" where
  "dl_inv m S \<longleftrightarrow> bt_wf m \<and>
    (\<forall>d ids. map_of m d = Some ids \<longrightarrow> ids \<noteq> [] \<and> distinct ids) \<and>
    (\<forall>i d. S i = Some d \<longleftrightarrow> (\<exists>ids. map_of m d = Some ids \<and> i \<in> set ids))"

lemma dl_invD:
  assumes "dl_inv m S"
  shows "bt_wf m" and "\<And>d ids. map_of m d = Some ids \<Longrightarrow> ids \<noteq> []"
    and "\<And>d ids. map_of m d = Some ids \<Longrightarrow> distinct ids"
    and "\<And>i d. S i = Some d \<longleftrightarrow> (\<exists>ids. map_of m d = Some ids \<and> i \<in> set ids)"
  using assms by (auto simp: dl_inv_def)

lemma dl_inv_Nil [simp]: "dl_inv [] S \<longleftrightarrow> (\<forall>i. S i = None)"
  by (auto simp: dl_inv_def)

lemma map_of_add_deadline:
  "map_of (add_deadline m d i) e =
    (if e = d then Some (List.insert i (case map_of m d of Some ids \<Rightarrow> ids | None \<Rightarrow> []))
     else map_of m e)"
  by (simp add: add_deadline_def map_of_bt_insert)

lemma dl_inv_add:
  assumes "dl_inv m S" and "S i = None"
  shows "dl_inv (add_deadline m d i) (S(i \<mapsto> d))"
  unfolding dl_inv_def
proof (intro conjI allI impI)
  show "bt_wf (add_deadline m d i)"
    using dl_invD(1) [OF assms(1)] by (auto simp: add_deadline_def)
  fix e ids assume "map_of (add_deadline m d i) e = Some ids"
  then show "ids \<noteq> []" and "distinct ids"
    using dl_invD(2,3) [OF assms(1)]
    by (auto simp: map_of_add_deadline List.insert_def split: if_splits option.splits)
next
  fix j e
  show "(S(i \<mapsto> d)) j = Some e \<longleftrightarrow>
      (\<exists>ids. map_of (add_deadline m d i) e = Some ids \<and> j \<in> set ids)"
    using dl_invD(4) [OF assms(1), of j e] dl_invD(4) [OF assms(1), of i e] assms(2)
    by (auto simp: map_of_add_deadline split: option.splits)
qed

lemma map_of_remove_deadline:
  "map_of (remove_deadline m d i) e =
    (if e = d
     then (case map_of m d of
             None \<Rightarrow> None
           | Some ids \<Rightarrow> if removeAll i ids = [] then None else Some (removeAll i ids))
     else map_of m e)"
  by (auto simp: remove_deadline_def Let_def map_of_bt_insert map_of_bt_remove split: option.splits)

lemma dl_inv_remove:
  assumes "dl_inv m S"
  shows "dl_inv (remove_deadline m d i) (if S i = Some d then S(i := None) else S)"
  unfolding dl_inv_def
proof (intro conjI allI impI)
  show "bt_wf (remove_deadline m d i)"
    using dl_invD(1) [OF assms] by (auto simp: remove_deadline_def Let_def split: option.splits)
  fix e ids assume "map_of (remove_deadline m d i) e = Some ids"
  then show "ids \<noteq> []" and "distinct ids"
    using dl_invD(2,3) [OF assms, of e]
    by (auto simp: map_of_remove_deadline distinct_removeAll split: if_splits option.splits)
next
  fix j e
  have "(\<exists>ids. map_of (remove_deadline m d i) e = Some ids \<and> j \<in> set ids) \<longleftrightarrow>
      (\<exists>ids. map_of m e = Some ids \<and> j \<in> set ids) \<and> \<not> (e = d \<and> j = i)"
  proof (cases "e = d \<and> map_of m d \<noteq> None")
    case True
    then obtain ids where ids: "e = d" "map_of m d = Some ids" by blast
    then have "(\<exists>ids. map_of (remove_deadline m d i) e = Some ids \<and> j \<in> set ids) \<longleftrightarrow>
        j \<in> set (removeAll i ids)"
      by (cases "removeAll i ids = []") (simp_all add: map_of_remove_deadline)
    then show ?thesis using ids by auto
  qed (auto simp: map_of_remove_deadline)
  then show "(if S i = Some d then S(i := None) else S) j = Some e \<longleftrightarrow>
      (\<exists>ids. map_of (remove_deadline m d i) e = Some ids \<and> j \<in> set ids)"
    using dl_invD(4) [OF assms, of j e] by auto
qed

text \<open>Popping the due buckets yields exactly the due sessions, once each.\<close>

lemma pop_due_eq:
  assumes "bt_wf m"
  shows "pop_due now m =
    (concat (map snd (filter (\<lambda>e. fst e \<le> now) m)), filter (\<lambda>e. now < fst e) m)"
  using assms
proof (induction m)
  case (Cons e m)
  obtain d ids where e: "e = (d, ids)" by (cases e)
  have "filter (\<lambda>e. now < fst e) m = m" "filter (\<lambda>e. fst e \<le> now) m = []" if "now < d"
    using Cons.prems that by (auto simp: e filter_id_conv filter_empty_conv)
  then show ?case using Cons by (auto simp: e)
qed simp

definition not_due :: "instant \<Rightarrow> ('i \<Rightarrow> instant option) \<Rightarrow> 'i \<Rightarrow> instant option" where
  "not_due now S i = (case S i of Some d \<Rightarrow> if now < d then Some d else None | None \<Rightarrow> None)"

lemma map_of_filter_key: "map_of (filter (\<lambda>e. P (fst e)) m) d = (if P d then map_of m d else None)"
  by (induction m) auto

lemma dl_inv_rest:
  assumes "dl_inv m S"
  shows "dl_inv (filter (\<lambda>e. now < fst e) m) (not_due now S)"
  unfolding dl_inv_def
proof (intro conjI allI impI)
  fix i d
  show "not_due now S i = Some d \<longleftrightarrow>
      (\<exists>ids. map_of (filter (\<lambda>e. now < fst e) m) d = Some ids \<and> i \<in> set ids)"
    using dl_invD(4) [OF assms, of i d]
    by (auto simp: not_due_def map_of_filter_key [of "\<lambda>d. now < d"] split: option.splits if_splits)
qed (use dl_invD(1,2,3) [OF assms] in
    \<open>auto simp: map_of_filter_key [of "\<lambda>d. now < d"] split: if_splits\<close>)

lemma set_due:
  assumes "dl_inv m S"
  shows "set (concat (map snd (filter (\<lambda>e. fst e \<le> now) m))) = {i. \<exists>d\<le>now. S i = Some d}"
proof (intro equalityI subsetI)
  fix i assume "i \<in> set (concat (map snd (filter (\<lambda>e. fst e \<le> now) m)))"
  then obtain d ids where "(d, ids) \<in> set m" "d \<le> now" "i \<in> set ids" by auto
  then show "i \<in> {i. \<exists>d\<le>now. S i = Some d}"
    using dl_invD(1,4) [OF assms] by (auto simp: bt_entries_iff)
next
  fix i assume "i \<in> {i. \<exists>d\<le>now. S i = Some d}"
  then obtain d ids where "d \<le> now" "(d, ids) \<in> set m" "i \<in> set ids"
    using dl_invD(1,4) [OF assms] by (auto simp: bt_entries_iff)
  then show "i \<in> set (concat (map snd (filter (\<lambda>e. fst e \<le> now) m)))" by force
qed

lemma distinct_due:
  assumes "dl_inv m S"
  shows "distinct (concat (map snd (filter (\<lambda>e. fst e \<le> now) m)))"
proof -
  have "distinct (concat (map snd xs))"
    if "bt_wf xs" "set xs \<subseteq> set m" for xs
    using that
  proof (induction xs)
    case (Cons x xs)
    obtain d ids where x: "x = (d, ids)" by (cases x)
    have m: "map_of m d = Some ids"
      using Cons.prems dl_invD(1) [OF assms] x by (auto simp: bt_entries_iff [symmetric])
    have "set ids \<inter> set ids' = {}" if "(d', ids') \<in> set xs" for d' ids'
    proof (rule ccontr)
      assume "set ids \<inter> set ids' \<noteq> {}"
      then obtain i where i: "i \<in> set ids" "i \<in> set ids'" by blast
      have "map_of m d' = Some ids'"
        using that Cons.prems dl_invD(1) [OF assms] by (auto simp: bt_entries_iff [symmetric])
      then have "S i = Some d'" "S i = Some d"
        using dl_invD(4) [OF assms] i m by blast+
      then show False using Cons.prems that x by fastforce
    qed
    then show ?case
      using Cons dl_invD(3) [OF assms m] x by fastforce
  qed simp
  then show ?thesis using dl_invD(1) [OF assms] by (simp add: bt_wf_filter)
qed

section \<open>Invariant\<close>

definition session_ok :: "session_table \<Rightarrow> session_id \<Rightarrow> session \<Rightarrow> bool" where
  "session_ok st i s \<longleftrightarrow>
    sess_id s = i \<and> sess_worker s = owner_worker_id st \<and>
    hm_get (by_key st) (session_key_of s) = Some i \<and>
    binding_of (nat_tbl st) i = Some (sess_nat s) \<and>
    nb_original (sess_nat s) = sess_original s \<and>
    (tcp_state s = None \<longleftrightarrow> protocol (sess_original s) \<noteq> Tcp)"

definition located :: "session_table \<Rightarrow> bool" where
  "located st \<longleftrightarrow> (\<forall>i b. binding_of (nat_tbl st) i = Some b \<longrightarrow>
     hm_get (reverse_map (nat_tbl st)) (nat_key b) = Some (own_locator st i))"

definition table_core :: "u16 set \<Rightarrow> session_table \<Rightarrow> bool" where
  "table_core ports st \<longleftrightarrow> nat_inv ports (nat_tbl st) \<and> located st \<and>
    (\<forall>i s. hm_get (sessions st) i = Some s \<longrightarrow> session_ok st i s) \<and>
    (\<forall>k i. hm_get (by_key st) k = Some i \<longrightarrow>
       (\<exists>s. hm_get (sessions st) i = Some s \<and> session_key_of s = k))"

text \<open>
  \<open>table_inv_except X\<close>: everything agrees, apart from the deadlines of the sessions in
  \<open>X\<close>, which have been taken out of the buckets to be removed.
\<close>

definition deadline_of :: "session_table \<Rightarrow> session_id \<Rightarrow> instant option" where
  "deadline_of st i = map_option expires_at (hm_get (sessions st) i)"

definition table_inv_except :: "session_id set \<Rightarrow> u16 set \<Rightarrow> session_table \<Rightarrow> bool" where
  "table_inv_except X ports st \<longleftrightarrow> table_core ports st \<and>
    dl_inv (deadlines st) (\<lambda>i. if i \<in> X then None else deadline_of st i)"

definition table_inv :: "u16 set \<Rightarrow> session_table \<Rightarrow> bool" where
  "table_inv ports st \<longleftrightarrow> table_core ports st \<and> dl_inv (deadlines st) (deadline_of st)"

lemma table_inv_except_empty [simp]: "table_inv_except {} ports st \<longleftrightarrow> table_inv ports st"
  by (simp add: table_inv_except_def table_inv_def)

lemma table_coreD:
  assumes "table_core ports st"
  shows "nat_inv ports (nat_tbl st)" and "located st"
    and "\<And>i s. hm_get (sessions st) i = Some s \<Longrightarrow> session_ok st i s"
    and "\<And>k i. hm_get (by_key st) k = Some i \<Longrightarrow>
       \<exists>s. hm_get (sessions st) i = Some s \<and> session_key_of s = k"
  using assms by (auto simp: table_core_def)

lemma ensure_owner_simps [simp]:
  "ensure_owner st (owner_worker_id st) = Ok ()"
  "caller \<noteq> owner_worker_id st \<Longrightarrow>
     ensure_owner st caller = Err (WrongOwner (owner_worker_id st) caller)"
  by (simp_all add: ensure_owner_def)

section \<open>Operations preserve the invariant\<close>

text \<open>Updates that leave the identity of every session alone.\<close>

definition same_identity :: "session \<Rightarrow> session \<Rightarrow> bool" where
  "same_identity s s' \<longleftrightarrow>
    sess_id s' = sess_id s \<and> sess_original s' = sess_original s \<and> sess_nat s' = sess_nat s \<and>
    sess_worker s' = sess_worker s \<and> ifindex (intercept_io s') = ifindex (intercept_io s) \<and>
    (tcp_state s' = None \<longleftrightarrow> tcp_state s = None)"

lemma same_identity_refl [simp]: "same_identity s s"
  by (simp add: same_identity_def)

lemma same_identity_key: "same_identity s s' \<Longrightarrow> session_key_of s' = session_key_of s"
  by (simp add: same_identity_def session_key_of_def table_key_def)

lemma table_core_refresh:
  assumes core: "table_core ports st"
    and same: "owner_worker_id st' = owner_worker_id st" "by_key st' = by_key st"
      "nat_tbl st' = nat_tbl st"
    and rel: "\<And>i. rel_option same_identity (hm_get (sessions st) i) (hm_get (sessions st') i)"
  shows "table_core ports st'"
  unfolding table_core_def
proof (intro conjI allI impI)
  show "nat_inv ports (nat_tbl st')" using table_coreD(1) [OF core] same by simp
  show "located st'" using table_coreD(2) [OF core] same by (simp add: located_def own_locator_def)
next
  fix i s' assume s': "hm_get (sessions st') i = Some s'"
  then obtain s where s: "hm_get (sessions st) i = Some s" "same_identity s s'"
    using rel [of i] by (auto simp: option_rel_Some2)
  then show "session_ok st' i s'"
    using table_coreD(3) [OF core s(1)] same same_identity_key [OF s(2)]
    by (auto simp: session_ok_def same_identity_def)
next
  fix k i assume "hm_get (by_key st') k = Some i"
  then obtain s where "hm_get (sessions st) i = Some s" "session_key_of s = k"
    using table_coreD(4) [OF core] same by auto
  then show "\<exists>s. hm_get (sessions st') i = Some s \<and> session_key_of s = k"
    using rel [of i] same_identity_key by (auto simp: option_rel_Some1)
qed

lemma same_identity_insert:
  assumes "hm_get (sessions st) i = Some s" and "same_identity s s'"
  shows "rel_option same_identity (hm_get (sessions st) j) (hm_get (hm_insert i s' (sessions st)) j)"
  using assms by (cases "hm_get (sessions st) j") (auto simp: hm_get_insert)

lemma deadline_of_insert:
  assumes "sessions st' = hm_insert i s (sessions st)"
  shows "deadline_of st' = (deadline_of st)(i \<mapsto> expires_at s)"
  using assms by (auto simp: fun_eq_iff deadline_of_def hm_get_insert)

lemma tcp_transition_tracked:
  "tcp_state s \<noteq> None \<Longrightarrow> fst (tcp_transition (tcp_state s) flags is_reverse) \<noteq> None"
  by (auto simp: tcp_transition_def Let_def split: option.splits)

lemma touch_tcp_owner:
  assumes "hm_get (sessions st) i = Some s"
  shows "\<exists>state timeout. touch_tcp st (owner_worker_id st) i flags is_reverse now =
     (st\<lparr> sessions := hm_insert i (s\<lparr> tcp_state := state, expires_at := now + timeout \<rparr>) (sessions st),
         deadlines := add_deadline (remove_deadline (deadlines st) (expires_at s) i) (now + timeout) i \<rparr>,
      Ok ()) \<and>
     (state, timeout) = (if protocol (sess_original s) = Tcp
        then tcp_transition (tcp_state s) flags is_reverse
        else (tcp_state s, protocol_idle_timeout (protocol (sess_original s))))"
  using assms by (auto simp: touch_tcp_def Let_def split: prod.splits)

lemma table_inv_touch_tcp:
  assumes inv: "table_inv ports st"
  shows "table_inv ports (fst (touch_tcp st caller i flags is_reverse now))"
proof (cases "caller = owner_worker_id st \<and> hm_get (sessions st) i \<noteq> None")
  case True
  then obtain s where s: "hm_get (sessions st) i = Some s" by auto
  obtain state timeout where
    t: "touch_tcp st caller i flags is_reverse now =
     (st\<lparr> sessions := hm_insert i (s\<lparr> tcp_state := state, expires_at := now + timeout \<rparr>) (sessions st),
         deadlines := add_deadline (remove_deadline (deadlines st) (expires_at s) i) (now + timeout) i \<rparr>,
      Ok ())" and tr: "(state, timeout) = (if protocol (sess_original s) = Tcp
        then tcp_transition (tcp_state s) flags is_reverse
        else (tcp_state s, protocol_idle_timeout (protocol (sess_original s))))"
    using touch_tcp_owner [OF s] True by blast
  let ?s' = "s\<lparr> tcp_state := state, expires_at := now + timeout \<rparr>"
  have core: "table_core ports st" and dl: "dl_inv (deadlines st) (deadline_of st)"
    using inv by (auto simp: table_inv_def)
  have "state = None \<longleftrightarrow> tcp_state s = None"
    using table_coreD(3) [OF core s] tcp_transition_tracked [of s flags is_reverse] tr
    by (auto simp: session_ok_def split: if_splits dest: arg_cong [of _ _ fst])
  then have "same_identity s ?s'" by (simp add: same_identity_def)
  then have "table_core ports (fst (touch_tcp st caller i flags is_reverse now))"
    using table_core_refresh [OF core] same_identity_insert [OF s] t by simp
  moreover have "dl_inv (remove_deadline (deadlines st) (expires_at s) i) ((deadline_of st)(i := None))"
    using dl_inv_remove [OF dl, of "expires_at s" i] s by (simp add: deadline_of_def)
  from dl_inv_add [OF this, of i "now + timeout"]
  have "dl_inv (deadlines (fst (touch_tcp st caller i flags is_reverse now)))
      (deadline_of (fst (touch_tcp st caller i flags is_reverse now)))"
    using t by (simp add: deadline_of_insert)
  ultimately show ?thesis by (simp add: table_inv_def)
next
  case False
  then have "fst (touch_tcp st caller i flags is_reverse now) = st"
    by (cases "caller = owner_worker_id st") (auto simp: touch_tcp_def)
  then show ?thesis using inv by simp
qed

lemma own_locator_nat [simp]: "own_locator (st\<lparr> nat_tbl := n \<rparr>) = own_locator st"
  by (simp add: own_locator_def fun_eq_iff)

lemma deadline_of_nat [simp]: "deadline_of (st\<lparr> nat_tbl := n \<rparr>) = deadline_of st"
  by (simp add: deadline_of_def fun_eq_iff)

lemma table_core_nat:
  assumes core: "table_core ports st" and "nat_inv ports nat'"
    and "\<And>i b. binding_of nat' i = Some b \<Longrightarrow>
       hm_get (reverse_map nat') (nat_key b) = Some (own_locator st i)"
    and same: "\<And>i. hm_get (sessions st) i \<noteq> None \<Longrightarrow> binding_of nat' i = binding_of (nat_tbl st) i"
  shows "table_core ports (st\<lparr> nat_tbl := nat' \<rparr>)"
  using assms table_coreD(3,4) [OF core]
  unfolding table_core_def located_def session_ok_def by simp

lemma located_after_alloc:
  assumes core: "table_core ports st"
    and "allocate_at (nat_tbl st) i f (own_locator st i) now = (nat', r)"
    and "binding_of nat' j = Some b"
  shows "hm_get (reverse_map nat') (nat_key b) = Some (own_locator st j)"
  using snat.located_alloc [OF table_coreD(1) [OF core], of "own_locator st" "own_locator st i" i f now j b]
    table_coreD(2) [OF core] assms(2,3) by (simp add: located_def)

lemma located_after_release:
  assumes core: "table_core ports st"
    and "remove_at (nat_tbl st) i now = (nat', r)"
    and "binding_of nat' j = Some b"
  shows "hm_get (reverse_map nat') (nat_key b) = Some (own_locator st j)"
  using snat.located_release [OF table_coreD(1) [OF core], of "own_locator st" i now j b]
    table_coreD(2) [OF core] assms(2,3) by (simp add: located_def)

lemma binding_after_alloc:
  assumes core: "table_core ports st"
    and "allocate_at (nat_tbl st) i f l now = (nat', r)"
    and "hm_get (sessions st) j \<noteq> None"
  shows "binding_of nat' j = binding_of (nat_tbl st) j"
proof (cases r)
  case (Ok b)
  have "binding_of (nat_tbl st) j \<noteq> None"
    using table_coreD(3) [OF core] assms(3) by (auto simp: session_ok_def)
  then show ?thesis
    using snat.alloc_Ok [OF table_coreD(1) [OF core], of i f l now nat' b] assms(2) Ok by auto
next
  case (Err e)
  then show ?thesis using snat.alloc_Err assms(2) by simp
next
  case Panic
  then show ?thesis using snat.alloc_total [of "nat_tbl st" i f l now] assms(2) by simp
qed

lemma table_core_alloc:
  assumes core: "table_core ports st"
    and a: "allocate_at (nat_tbl st) i f (own_locator st i) now = (nat', r)"
  shows "table_core ports (st\<lparr> nat_tbl := nat' \<rparr>)"
proof (rule table_core_nat [OF core])
  show "nat_inv ports nat'"
    using snat.alloc_invar [OF table_coreD(1) [OF core], of i f "own_locator st i" now] a by simp
qed (use located_after_alloc [OF core a] binding_after_alloc [OF core a] in auto)

lemma table_core_new_session:
  assumes core: "table_core ports st"
    and b: "binding_of (nat_tbl st) i = Some (sess_nat s)"
    and new: "hm_get (sessions st) i = None" "hm_get (by_key st) (session_key_of s) = None"
    and s: "sess_id s = i" "sess_worker s = owner_worker_id st" "nb_original (sess_nat s) = sess_original s"
      "tcp_state s = None \<longleftrightarrow> protocol (sess_original s) \<noteq> Tcp"
  shows "table_core ports (st\<lparr> by_key := hm_insert (session_key_of s) i (by_key st),
            sessions := hm_insert i s (sessions st), deadlines := d, next_session_id := n \<rparr>)"
    (is "table_core ports ?st'")
  unfolding table_core_def
proof (intro conjI allI impI)
  show "nat_inv ports (nat_tbl ?st')" using table_coreD(1) [OF core] by simp
  show "located ?st'" using table_coreD(2) [OF core] by (simp add: located_def own_locator_def)
next
  fix j r assume r: "hm_get (sessions ?st') j = Some r"
  show "session_ok ?st' j r"
  proof (cases "j = i")
    case True then show ?thesis using r b s by (simp add: session_ok_def hm_get_insert)
  next
    case False
    then have "session_ok st j r" using r table_coreD(3) [OF core] by (simp add: hm_get_insert)
    then show ?thesis using new(2) by (auto simp: session_ok_def hm_get_insert)
  qed
next
  fix k j assume k: "hm_get (by_key ?st') k = Some j"
  show "\<exists>r. hm_get (sessions ?st') j = Some r \<and> session_key_of r = k"
  proof (cases "k = session_key_of s")
    case True then show ?thesis using k by (simp add: hm_get_insert)
  next
    case False
    then obtain r where "hm_get (sessions st) j = Some r" "session_key_of r = k"
      using k table_coreD(4) [OF core, of k j] by (auto simp: hm_get_insert)
    then show ?thesis using new(1) by (auto simp: hm_get_insert)
  qed
qed

definition new_session ::
  "session_table \<Rightarrow> flow_key \<Rightarrow> io_owner_key \<Rightarrow> quic_flow_id \<Rightarrow> u8 option \<Rightarrow> instant
    \<Rightarrow> nat_binding \<Rightarrow> session" where
  "new_session st original io quic_flow flags now b =
    \<lparr> sess_id = next_session_id st, sess_original = original, sess_nat = b,
      sess_worker = owner_worker_id st, intercept_io = io, sess_quic_flow = quic_flow,
      expires_at = now + snd (initial_state (protocol original) flags),
      tcp_state = fst (initial_state (protocol original) flags) \<rparr>"

lemma get_or_create_known:
  assumes "table_core ports st" and "hm_get (by_key st) (table_key original io) = Some i"
  shows "get_or_create_with_flags_at st (owner_worker_id st) original io quic_flow flags is_reverse
           now nat_now =
         (fst (touch_tcp st (owner_worker_id st) i flags is_reverse now), Ok i)"
proof -
  obtain s where s: "hm_get (sessions st) i = Some s" using table_coreD(4) [OF assms] by blast
  then show ?thesis
    using assms(2) touch_tcp_owner [OF s, of flags is_reverse now]
    by (auto simp: get_or_create_with_flags_at_def Let_def)
qed

lemma get_or_create_new:
  assumes "hm_get (by_key st) (table_key original io) = None"
    and "allocate_at (nat_tbl st) (next_session_id st) original
           (own_locator st (next_session_id st)) nat_now = (nat', Ok b)"
  shows "get_or_create_with_flags_at st (owner_worker_id st) original io quic_flow flags is_reverse
           now nat_now =
         (let s = new_session st original io quic_flow flags now b; st1 = st\<lparr> nat_tbl := nat' \<rparr> in
          (st1\<lparr> by_key := hm_insert (session_key_of s) (next_session_id st) (by_key st1),
                sessions := hm_insert (next_session_id st) s (sessions st1),
                deadlines := add_deadline (deadlines st1) (expires_at s) (next_session_id st),
                next_session_id := next_session_id st + 1 \<rparr>,
           Ok (next_session_id st)))"
  using assms
  by (simp add: get_or_create_with_flags_at_def new_session_def session_key_of_def Let_def
      split: prod.split)

lemma get_or_create_failed:
  assumes "hm_get (by_key st) (table_key original io) = None"
    and "allocate_at (nat_tbl st) (next_session_id st) original
           (own_locator st (next_session_id st)) nat_now = (nat', Err e)"
  shows "get_or_create_with_flags_at st (owner_worker_id st) original io quic_flow flags is_reverse
           now nat_now = (st\<lparr> nat_tbl := nat' \<rparr>, Err (NatFailure e))"
  using assms by (simp add: get_or_create_with_flags_at_def Let_def)

lemma get_or_create_foreign:
  assumes "caller \<noteq> owner_worker_id st"
  shows "get_or_create_with_flags_at st caller original io quic_flow flags is_reverse now nat_now =
         (st, Err (WrongOwner (owner_worker_id st) caller))"
  using assms by (simp add: get_or_create_with_flags_at_def)

lemma fresh_session:
  assumes core: "table_core ports st"
    and "allocate_at (nat_tbl st) i original l now = (nat', Ok b)"
  shows "hm_get (sessions st) i = None" and "nb_original b = original"
proof -
  have "binding_of (nat_tbl st) i = None"
    using snat.alloc_Ok [OF table_coreD(1) [OF core] assms(2)] by simp
  then show "hm_get (sessions st) i = None"
    using table_coreD(3) [OF core, of i] by (cases "hm_get (sessions st) i") (auto simp: session_ok_def)
  show "nb_original b = original" using assms(2) by (auto elim!: allocate_at_OkE)
qed

lemma initial_state_tracked: "fst (initial_state proto flags) = None \<longleftrightarrow> proto \<noteq> Tcp"
  by (simp add: initial_state_def)

lemma table_inv_create:
  assumes inv: "table_inv ports st"
    and key: "hm_get (by_key st) (table_key original io) = None"
    and a: "allocate_at (nat_tbl st) (next_session_id st) original
           (own_locator st (next_session_id st)) nat_now = (nat', Ok b)"
  shows "table_inv ports (fst (get_or_create_with_flags_at st (owner_worker_id st) original io
           quic_flow flags is_reverse now nat_now))"
proof -
  let ?i = "next_session_id st" and ?s = "new_session st original io quic_flow flags now b"
  let ?st1 = "st\<lparr> nat_tbl := nat' \<rparr>"
  have core: "table_core ports st" and dl: "dl_inv (deadlines st) (deadline_of st)"
    using inv by (auto simp: table_inv_def)
  note fresh = fresh_session [OF core a]
  have "binding_of nat' ?i = Some (sess_nat ?s)"
    using snat.alloc_Ok [OF table_coreD(1) [OF core] a] by (simp add: new_session_def)
  then have "table_core ports (?st1\<lparr> by_key := hm_insert (session_key_of ?s) ?i (by_key ?st1),
      sessions := hm_insert ?i ?s (sessions ?st1),
      deadlines := add_deadline (deadlines ?st1) (expires_at ?s) ?i, next_session_id := ?i + 1 \<rparr>)"
    using fresh key
    by (intro table_core_new_session [OF table_core_alloc [OF core a]])
      (simp_all add: new_session_def session_key_of_def initial_state_tracked)
  moreover have "dl_inv (add_deadline (deadlines st) (expires_at ?s) ?i)
      ((deadline_of st)(?i \<mapsto> expires_at ?s))"
    using fresh(1) by (intro dl_inv_add [OF dl]) (simp add: deadline_of_def)
  ultimately show ?thesis
    unfolding get_or_create_new [OF key a] Let_def table_inv_def
    by (simp add: deadline_of_insert [of _ ?i ?s st])
qed

lemma table_inv_get_or_create:
  assumes inv: "table_inv ports st"
  shows "table_inv ports (fst (get_or_create_with_flags_at st caller original io quic_flow flags
           is_reverse now nat_now))"
proof (cases "caller = owner_worker_id st")
  case True
  have core: "table_core ports st" using inv by (simp add: table_inv_def)
  show ?thesis
  proof (cases "hm_get (by_key st) (table_key original io)")
    case (Some i)
    then show ?thesis using get_or_create_known [OF core Some] table_inv_touch_tcp [OF inv] True by simp
  next
    case None
    obtain nat' r where a: "allocate_at (nat_tbl st) (next_session_id st) original
        (own_locator st (next_session_id st)) nat_now = (nat', r)" by fastforce
    show ?thesis
    proof (cases r)
      case (Ok b)
      then show ?thesis using table_inv_create [OF inv None] a True by simp
    next
      case (Err e)
      then show ?thesis
        using get_or_create_failed [OF None] a True table_core_alloc [OF core a] inv
        by (simp add: table_inv_def)
    next
      case Panic
      then show ?thesis
        using a snat.alloc_total [of "nat_tbl st" "next_session_id st" original
            "own_locator st (next_session_id st)" nat_now] by simp
    qed
  qed
qed (simp add: get_or_create_foreign inv)

lemma remove_owner:
  assumes core: "table_core ports st" and s: "hm_get (sessions st) i = Some s"
  obtains nat' where "remove_at (nat_tbl st) i now = (nat', Ok (sess_nat s))"
    and "remove st (owner_worker_id st) i now =
      (st\<lparr> nat_tbl := nat', sessions := hm_remove i (sessions st),
           deadlines := remove_deadline (deadlines st) (expires_at s) i,
           by_key := hm_remove (session_key_of s) (by_key st) \<rparr>, Ok s)"
proof -
  have "binding_of (nat_tbl st) i = Some (sess_nat s)"
    using table_coreD(3) [OF core s] by (simp add: session_ok_def)
  then have "snd (remove_at (nat_tbl st) i now) = Ok (sess_nat s)" by (rule snat.release_bound)
  then obtain nat' where "remove_at (nat_tbl st) i now = (nat', Ok (sess_nat s))"
    by (metis prod.collapse)
  then show ?thesis using that s by (simp add: remove_def)
qed

lemma table_core_remove:
  assumes core: "table_core ports st" and s: "hm_get (sessions st) i = Some s"
    and r: "remove_at (nat_tbl st) i now = (nat', Ok (sess_nat s))"
  shows "table_core ports (st\<lparr> nat_tbl := nat', sessions := hm_remove i (sessions st), deadlines := d,
           by_key := hm_remove (session_key_of s) (by_key st) \<rparr>)" (is "table_core ports ?st'")
  unfolding table_core_def
proof (intro conjI allI impI)
  show "nat_inv ports (nat_tbl ?st')"
    using snat.release_invar [OF table_coreD(1) [OF core], of i now] r by simp
  show "located ?st'"
    using located_after_release [OF core r] by (simp add: located_def own_locator_def)
next
  fix j t assume j: "hm_get (sessions ?st') j = Some t"
  then have t: "j \<noteq> i" "session_ok st j t"
    using table_coreD(3) [OF core] by (auto simp: hm_get_remove split: if_splits)
  then have "session_key_of t \<noteq> session_key_of s"
    using table_coreD(3) [OF core s] by (auto simp: session_ok_def)
  then show "session_ok ?st' j t"
    using t snat.release_Ok [OF r] by (simp add: session_ok_def hm_get_remove)
next
  fix k j assume k: "hm_get (by_key ?st') k = Some j"
  then have k': "hm_get (by_key st) k = Some j" "k \<noteq> session_key_of s"
    by (auto simp: hm_get_remove split: if_splits)
  then obtain t where t: "hm_get (sessions st) j = Some t" "session_key_of t = k"
    using table_coreD(4) [OF core] by blast
  then have "j \<noteq> i" using s k'(2) by auto
  then show "\<exists>t. hm_get (sessions ?st') j = Some t \<and> session_key_of t = k"
    using t by (simp add: hm_get_remove)
qed

lemma table_inv_except_remove:
  assumes inv: "table_inv_except X ports st" and s: "hm_get (sessions st) i = Some s"
  shows "table_inv_except (X - {i}) ports (fst (remove st (owner_worker_id st) i now))"
proof -
  have core: "table_core ports st"
    and dl: "dl_inv (deadlines st) (\<lambda>j. if j \<in> X then None else deadline_of st j)"
    using inv by (auto simp: table_inv_except_def)
  obtain nat' where r: "remove_at (nat_tbl st) i now = (nat', Ok (sess_nat s))"
    and rm: "remove st (owner_worker_id st) i now =
      (st\<lparr> nat_tbl := nat', sessions := hm_remove i (sessions st),
           deadlines := remove_deadline (deadlines st) (expires_at s) i,
           by_key := hm_remove (session_key_of s) (by_key st) \<rparr>, Ok s)"
    using remove_owner [OF core s] by blast
  let ?st' = "fst (remove st (owner_worker_id st) i now)"
  have "(if (if i \<in> X then None else deadline_of st i) = Some (expires_at s)
      then (\<lambda>j. if j \<in> X then None else deadline_of st j)(i := None)
      else (\<lambda>j. if j \<in> X then None else deadline_of st j)) =
      (\<lambda>j. if j \<in> X - {i} then None else deadline_of ?st' j)"
    using s rm by (auto simp: fun_eq_iff deadline_of_def hm_get_remove)
  then have "dl_inv (deadlines ?st') (\<lambda>j. if j \<in> X - {i} then None else deadline_of ?st' j)"
    using dl_inv_remove [OF dl, of "expires_at s" i] rm by simp
  moreover have "table_core ports ?st'" using table_core_remove [OF core s r] rm by simp
  ultimately show ?thesis unfolding table_inv_except_def by blast
qed

lemma table_inv_remove:
  assumes inv: "table_inv ports st"
  shows "table_inv ports (fst (remove st caller i now))"
proof (cases "caller = owner_worker_id st \<and> hm_get (sessions st) i \<noteq> None")
  case True
  then show ?thesis using table_inv_except_remove [of "{}" ports st i] inv by auto
next
  case False
  then have "fst (remove st caller i now) = st"
    by (cases "caller = owner_worker_id st") (auto simp: remove_def)
  then show ?thesis using inv by simp
qed

text \<open>What is left of the sessions after some have been removed.\<close>

lemma remove_each_owner:
  assumes "table_inv_except X ports st" and "distinct ids"
    and "\<forall>i\<in>set ids. hm_get (sessions st) i \<noteq> None" and "owner = owner_worker_id st"
  shows "\<exists>st'. remove_each st owner clk ids = (st', Ok (map (\<lambda>i. the (hm_get (sessions st) i)) ids)) \<and>
     table_inv_except (X - set ids) ports st' \<and> owner_worker_id st' = owner_worker_id st \<and>
     (\<forall>j. hm_get (sessions st') j = (if j \<in> set ids then None else hm_get (sessions st) j)) \<and>
     (\<forall>j. binding_of (nat_tbl st') j = (if j \<in> set ids then None else binding_of (nat_tbl st) j))"
  using assms
proof (induction ids arbitrary: st X)
  case (Cons i ids)
  then obtain s where s: "hm_get (sessions st) i = Some s" by auto
  have core: "table_core ports st" using Cons.prems(1) by (simp add: table_inv_except_def)
  obtain nat' where r: "remove_at (nat_tbl st) i (clk i) = (nat', Ok (sess_nat s))"
    and rm: "remove st (owner_worker_id st) i (clk i) =
      (st\<lparr> nat_tbl := nat', sessions := hm_remove i (sessions st),
           deadlines := remove_deadline (deadlines st) (expires_at s) i,
           by_key := hm_remove (session_key_of s) (by_key st) \<rparr>, Ok s)"
    using remove_owner [OF core s] by blast
  let ?st1 = "fst (remove st (owner_worker_id st) i (clk i))"
  have st1: "owner_worker_id ?st1 = owner" "sessions ?st1 = hm_remove i (sessions st)"
    "nat_tbl ?st1 = nat'" using rm Cons.prems(4) by simp_all
  have bind: "binding_of nat' = (binding_of (nat_tbl st))(i := None)"
    using snat.release_Ok [OF r] by simp
  have "\<forall>j\<in>set ids. hm_get (sessions ?st1) j \<noteq> None"
    using Cons.prems(2,3) st1(2) by (auto simp: hm_get_remove)
  then obtain st' where st': "remove_each ?st1 owner clk ids =
      (st', Ok (map (\<lambda>i. the (hm_get (sessions ?st1) i)) ids))"
    "table_inv_except (X - {i} - set ids) ports st'" "owner_worker_id st' = owner_worker_id ?st1"
    "\<forall>j. hm_get (sessions st') j = (if j \<in> set ids then None else hm_get (sessions ?st1) j)"
    "\<forall>j. binding_of (nat_tbl st') j = (if j \<in> set ids then None else binding_of (nat_tbl ?st1) j)"
    using Cons.IH [OF table_inv_except_remove [OF Cons.prems(1) s, of "clk i"]] Cons.prems(2) st1(1)
    by auto
  have "remove_each st owner clk (i # ids) =
      (st', Ok (s # map (\<lambda>i. the (hm_get (sessions ?st1) i)) ids))"
    using st'(1) rm Cons.prems(4) by simp
  moreover have "map (\<lambda>i. the (hm_get (sessions ?st1) i)) ids = map (\<lambda>i. the (hm_get (sessions st) i)) ids"
    using Cons.prems(2) st1(2) by (auto simp: hm_get_remove)
  moreover have "X - {i} - set ids = X - set (i # ids)" by auto
  ultimately show ?case using s st' st1 bind Cons.prems(4) by (auto simp: hm_get_remove)
qed simp

lemma expire_idle_owner:
  assumes inv: "table_inv ports st"
  shows "\<exists>st' ids. expire_idle st (owner_worker_id st) now clk =
           (st', Ok (map (\<lambda>i. the (hm_get (sessions st) i)) ids)) \<and>
         distinct ids \<and> set ids = {i. \<exists>s. hm_get (sessions st) i = Some s \<and> expires_at s \<le> now} \<and>
         table_inv ports st' \<and> owner_worker_id st' = owner_worker_id st \<and>
         (\<forall>j. hm_get (sessions st') j = (if j \<in> set ids then None else hm_get (sessions st) j)) \<and>
         (\<forall>j. binding_of (nat_tbl st') j = (if j \<in> set ids then None else binding_of (nat_tbl st) j))"
proof -
  have core: "table_core ports st" and dl: "dl_inv (deadlines st) (deadline_of st)"
    using inv by (auto simp: table_inv_def)
  define ids where "ids = concat (map snd (filter (\<lambda>e. fst e \<le> now) (deadlines st)))"
  define st1 where "st1 = st\<lparr> deadlines := filter (\<lambda>e. now < fst e) (deadlines st) \<rparr>"
  have ids: "set ids = {i. \<exists>s. hm_get (sessions st) i = Some s \<and> expires_at s \<le> now}" "distinct ids"
    using set_due [OF dl, of now] distinct_due [OF dl, of now]
    by (auto simp: ids_def deadline_of_def)
  have "not_due now (deadline_of st) = (\<lambda>i. if i \<in> set ids then None else deadline_of st1 i)"
    by (auto simp: fun_eq_iff not_due_def ids(1) st1_def deadline_of_def split: option.splits)
  moreover have "table_core ports st1"
    using table_core_refresh [OF core, of st1] by (simp add: st1_def option.rel_refl)
  moreover have "deadlines st1 = filter (\<lambda>e. now < fst e) (deadlines st)" by (simp add: st1_def)
  ultimately have "table_inv_except (set ids) ports st1"
    using dl_inv_rest [OF dl, of now] by (simp add: table_inv_except_def)
  from remove_each_owner [OF this ids(2), of "owner_worker_id st" clk]
  obtain st' where st': "remove_each st1 (owner_worker_id st) clk ids =
      (st', Ok (map (\<lambda>i. the (hm_get (sessions st1) i)) ids))"
    "table_inv_except (set ids - set ids) ports st'" "owner_worker_id st' = owner_worker_id st1"
    "\<forall>j. hm_get (sessions st') j = (if j \<in> set ids then None else hm_get (sessions st1) j)"
    "\<forall>j. binding_of (nat_tbl st') j = (if j \<in> set ids then None else binding_of (nat_tbl st1) j)"
    using ids(1) by (auto simp: st1_def)
  have "filter (\<lambda>i. case hm_get (sessions st1) i of Some s \<Rightarrow> expires_at s \<le> now | None \<Rightarrow> False) ids = ids"
    using ids(1) by (auto simp: filter_id_conv st1_def)
  then have "expire_idle st (owner_worker_id st) now clk = remove_each st1 (owner_worker_id st) clk ids"
    using pop_due_eq [OF dl_invD(1) [OF dl], of now]
    by (simp add: expire_idle_def Let_def ids_def st1_def)
  moreover have "sessions st1 = sessions st" "nat_tbl st1 = nat_tbl st"
    "owner_worker_id st1 = owner_worker_id st" by (simp_all add: st1_def)
  ultimately show ?thesis
    using st' ids(2) unfolding ids(1) [symmetric] by (intro exI [of _ st'] exI [of _ ids]) simp
qed

lemma table_inv_expire_idle:
  assumes "table_inv ports st"
  shows "table_inv ports (fst (expire_idle st caller now clk))"
  using assms expire_idle_owner [OF assms, of now clk]
  by (cases "caller = owner_worker_id st") (auto simp: expire_idle_def)

lemma table_inv_correct_io:
  assumes inv: "table_inv ports st"
  shows "table_inv ports (fst (correct_intercept_io st caller i observed))"
proof (cases "caller = owner_worker_id st \<and> (\<exists>s. hm_get (sessions st) i = Some s \<and>
    intercept_io s \<noteq> observed \<and> ifindex (intercept_io s) = ifindex observed \<and>
    queue_id (intercept_io s) = 0)")
  case True
  then obtain s where s: "hm_get (sessions st) i = Some s" "ifindex (intercept_io s) = ifindex observed"
    "intercept_io s \<noteq> observed" "queue_id (intercept_io s) = 0" and "caller = owner_worker_id st"
    by blast
  then have st': "fst (correct_intercept_io st caller i observed) =
      st\<lparr> sessions := hm_insert i (s\<lparr> intercept_io := observed \<rparr>) (sessions st) \<rparr>"
    by (simp add: correct_intercept_io_def)
  let ?st' = "st\<lparr> sessions := hm_insert i (s\<lparr> intercept_io := observed \<rparr>) (sessions st) \<rparr>"
  have "same_identity s (s\<lparr> intercept_io := observed \<rparr>)" using s(2) by (simp add: same_identity_def)
  note rel = same_identity_insert [OF s(1) this]
  have "table_core ports ?st'"
    by (rule table_core_refresh [of ports st]) (use inv rel in \<open>simp_all add: table_inv_def\<close>)
  moreover have "deadline_of ?st' = deadline_of st"
    using s(1) by (auto simp: fun_eq_iff deadline_of_def hm_get_insert)
  ultimately show ?thesis using inv st' by (simp add: table_inv_def)
next
  case False
  then have "fst (correct_intercept_io st caller i observed) = st"
    by (auto simp: correct_intercept_io_def ensure_owner_def split: option.split)
  then show ?thesis using inv by simp
qed

lemma table_inv_allocate_ephemeral:
  assumes inv: "table_inv ports st"
  shows "table_inv ports (fst (allocate_ephemeral_nat st caller token original now))"
proof (cases "caller = owner_worker_id st")
  case True
  obtain nat' r where a: "allocate_at (nat_tbl st) token original (own_locator st token) now = (nat', r)"
    by fastforce
  then show ?thesis
    using inv True table_core_alloc [OF _ a, of ports]
    by (simp add: allocate_ephemeral_nat_def table_inv_def)
qed (simp add: allocate_ephemeral_nat_def inv)

text \<open>Releasing a token is safe as long as the token is not the identifier of a session.\<close>

lemma table_inv_release_ephemeral:
  assumes inv: "table_inv ports st" and free: "hm_get (sessions st) token = None"
  shows "table_inv ports (fst (release_ephemeral_nat st caller token now))"
proof (cases "caller = owner_worker_id st")
  case True
  have core: "table_core ports st" using inv by (simp add: table_inv_def)
  obtain nat' r where a: "remove_at (nat_tbl st) token now = (nat', r)" by fastforce
  have "binding_of nat' i = binding_of (nat_tbl st) i" if "hm_get (sessions st) i \<noteq> None" for i
  proof (cases "binding_of (nat_tbl st) token")
    case None
    then show ?thesis using snat.release_unbound(1) a by (metis fst_conv)
  next
    case (Some b)
    then show ?thesis using snat.release_bound(2) [OF Some, of now] a that free by auto
  qed
  then have "table_core ports (st\<lparr> nat_tbl := nat' \<rparr>)"
    using located_after_release [OF core a]
      snat.release_invar [OF table_coreD(1) [OF core], of token now] a
    by (intro table_core_nat [OF core]) auto
  then show ?thesis
    using inv True a by (simp add: release_ephemeral_nat_def table_inv_def)
qed (simp add: release_ephemeral_nat_def inv)

lemma table_inv_rebind:
  assumes inv: "table_inv ports st"
  shows "table_inv ports (fst (rebind_quic_flow st caller old new))"
proof (cases "caller = owner_worker_id st")
  case True
  let ?st' = "fst (rebind_quic_flow st caller old new)"
  have s: "hm_get (sessions ?st') i = map_option (\<lambda>s. if sess_quic_flow s = old
      then s\<lparr> sess_quic_flow := new \<rparr> else s) (hm_get (sessions st) i)"
    and same: "owner_worker_id ?st' = owner_worker_id st" "by_key ?st' = by_key st"
      "nat_tbl ?st' = nat_tbl st" "deadlines ?st' = deadlines st" for i
    using True by (simp_all add: rebind_quic_flow_def hm_get_map_vals)
  have rel: "rel_option same_identity (hm_get (sessions st) i) (hm_get (sessions ?st') i)" for i
    unfolding s by (cases "hm_get (sessions st) i") (simp_all add: same_identity_def)
  have "table_core ports ?st'"
    by (rule table_core_refresh [OF _ same(1-3) rel]) (use inv in \<open>simp add: table_inv_def\<close>)
  moreover have "deadline_of ?st' i = deadline_of st i" for i
    unfolding deadline_of_def s by (cases "hm_get (sessions st) i") simp_all
  then have "deadline_of ?st' = deadline_of st" by (rule ext)
  ultimately show ?thesis using inv by (simp only: table_inv_def same(4))
qed (simp add: rebind_quic_flow_def inv)

lemma remove_by_quic_flow_owner:
  assumes inv: "table_inv ports st"
  shows "\<exists>st' ids. remove_by_quic_flow st (owner_worker_id st) q clk = (st', Ok (length ids)) \<and>
     distinct ids \<and> set ids = {i. \<exists>s. hm_get (sessions st) i = Some s \<and> sess_quic_flow s = q} \<and>
     table_inv ports st' \<and> owner_worker_id st' = owner_worker_id st \<and>
     (\<forall>j. hm_get (sessions st') j = (if j \<in> set ids then None else hm_get (sessions st) j)) \<and>
     (\<forall>j. binding_of (nat_tbl st') j = (if j \<in> set ids then None else binding_of (nat_tbl st) j))"
proof -
  have ok: "sess_id s = i" if "hm_get (sessions st) i = Some s" for i s
    using table_coreD(3) [OF _ that] inv by (auto simp: table_inv_def session_ok_def)
  define ids where "ids = map sess_id (filter (\<lambda>s. sess_quic_flow s = q) (hm_vals (sessions st)))"
  have set: "set ids = {i. \<exists>s. hm_get (sessions st) i = Some s \<and> sess_quic_flow s = q}"
    using ok by (auto simp: ids_def set_hm_vals image_iff)
  have "map sess_id (hm_vals (sessions st)) = hm_keys (sessions st)"
    using ok by (auto simp: hm_vals_def hm_keys_def hm_entries_iff)
  then have "distinct (map sess_id (hm_vals (sessions st)))" by simp
  then have dist: "distinct ids" unfolding ids_def by (rule distinct_map_filter)
  obtain st' where st': "remove_each st (owner_worker_id st) clk ids =
      (st', Ok (map (\<lambda>i. the (hm_get (sessions st) i)) ids))" "table_inv ports st'"
    "owner_worker_id st' = owner_worker_id st"
    "\<forall>j. hm_get (sessions st') j = (if j \<in> set ids then None else hm_get (sessions st) j)"
    "\<forall>j. binding_of (nat_tbl st') j = (if j \<in> set ids then None else binding_of (nat_tbl st) j)"
    using remove_each_owner [of "{}" ports st ids "owner_worker_id st" clk] inv dist set by auto
  then have "remove_by_quic_flow st (owner_worker_id st) q clk = (st', Ok (length ids))"
    by (simp add: remove_by_quic_flow_def ids_def)
  then show ?thesis using st'(2-5) dist set by blast
qed

lemma table_inv_remove_by_quic_flow:
  assumes "table_inv ports st"
  shows "table_inv ports (fst (remove_by_quic_flow st caller q clk))"
proof (cases "caller = owner_worker_id st")
  case True
  then show ?thesis using remove_by_quic_flow_owner [OF assms, of q clk] by auto
qed (simp add: remove_by_quic_flow_def assms)

lemma table_inv_new:
  assumes "new_table owner v4 v6 a b = Ok st"
  shows "table_inv (set (port_range a b)) st \<and> owner_worker_id st = owner"
proof -
  obtain n where n: "Nat_Table.new_dual v4 v6 a b = Ok n"
    and st: "st = \<lparr> owner_worker_id = owner, next_session_id = 1, by_key = hm_empty,
           sessions = hm_empty, deadlines = [], nat_tbl = n \<rparr>"
    using assms by (auto simp: new_table_def res_simps)
  have "binding_of n i = None" for i
    using n by (auto simp: new_dual_def binding_of_def split: if_splits)
  then show ?thesis
    using nat_inv_new [OF n]
    by (simp add: st table_inv_def table_core_def located_def deadline_of_def)
qed

lemmas table_inv_ops = table_inv_get_or_create table_inv_touch_tcp table_inv_correct_io
  table_inv_expire_idle table_inv_allocate_ephemeral table_inv_release_ephemeral
  table_inv_remove table_inv_rebind table_inv_remove_by_quic_flow

lemma table_inv_step: "table_step st st' \<Longrightarrow> table_inv ports st \<Longrightarrow> table_inv ports st'"
  by (erule table_stepE) (simp_all add: table_inv_ops)

lemma owner_touch_tcp [simp]:
  "owner_worker_id (fst (touch_tcp st caller i flags is_reverse now)) = owner_worker_id st"
  by (simp add: touch_tcp_def Let_def split: result.split option.split prod.split)

lemma owner_get_or_create [simp]:
  "owner_worker_id (fst (get_or_create_with_flags_at st caller original io q flags is_reverse now n)) =
    owner_worker_id st"
proof (cases "caller = owner_worker_id st \<and> hm_get (by_key st) (table_key original io) \<noteq> None")
  case True
  then obtain i where i: "hm_get (by_key st) (table_key original io) = Some i" by blast
  have "owner_worker_id st = owner_worker_id (fst (touch_tcp st caller i flags is_reverse now))" by simp
  then show ?thesis using i
    by (auto simp: get_or_create_with_flags_at_def Let_def ensure_owner_def
        split: result.split prod.split simp del: owner_touch_tcp)
next
  case False
  then show ?thesis
    by (auto simp: get_or_create_with_flags_at_def ensure_owner_def Let_def
        split: result.split prod.split option.split)
qed

lemma owner_remove [simp]: "owner_worker_id (fst (remove st caller i now)) = owner_worker_id st"
  by (simp add: remove_def split: result.split option.split prod.split)

lemma owner_remove_each [simp]:
  "owner_worker_id (fst (remove_each st caller clk ids)) = owner_worker_id st"
proof (induction ids arbitrary: st)
  case (Cons i ids)
  obtain st' r where r: "remove st caller i (clk i) = (st', r)" by fastforce
  then have "owner_worker_id st' = owner_worker_id st" by (metis fst_conv owner_remove)
  then show ?case using Cons [of st'] r
    by (cases r) (auto split: result.split prod.split)
qed simp

lemma owner_step: "table_step st st' \<Longrightarrow> owner_worker_id st' = owner_worker_id st"
proof (erule table_stepE)
  fix caller now clk assume "st' = fst (expire_idle st caller now clk)"
  then show ?thesis
    by (cases "caller = owner_worker_id st")
      (simp_all add: expire_idle_def Let_def split: prod.split)
next
  fix caller q clk assume st': "st' = fst (remove_by_quic_flow st caller q clk)"
  have "owner_worker_id (fst (remove_each st caller clk ids)) = owner_worker_id st" for ids by simp
  then show ?thesis using st'
    by (auto simp: remove_by_quic_flow_def Let_def ensure_owner_def simp del: owner_remove_each
        split: result.split prod.split) (metis fst_conv)+
qed (simp_all add: correct_intercept_io_def allocate_ephemeral_nat_def release_ephemeral_nat_def
    rebind_quic_flow_def Let_def split: result.split option.split prod.split)

lemma table_inv_reach:
  "table_reach owner a b st \<Longrightarrow> table_inv (set (port_range a b)) st \<and> owner_worker_id st = owner"
proof (induction rule: table_reach.induct)
  case (table_new v4 v6 st)
  then show ?case by (rule table_inv_new)
next
  case (table_more st st')
  then show ?case using table_inv_step owner_step by (simp del: set_port_range)
qed

lemma get_or_create_key:
  assumes core: "table_core ports st"
    and g: "get_or_create_with_flags_at st (owner_worker_id st) original io quic_flow flags is_reverse
        now nat_now = (st', Ok i)"
  shows "hm_get (by_key st') (table_key original io) = Some i"
proof (cases "hm_get (by_key st) (table_key original io)")
  case (Some j)
  then obtain s where s: "hm_get (sessions st) j = Some s" using table_coreD(4) [OF core] by blast
  show ?thesis
    using g get_or_create_known [OF core Some, of quic_flow flags is_reverse now nat_now]
      touch_tcp_owner [OF s, of flags is_reverse now] Some by auto
next
  case None
  obtain nat' r where a: "allocate_at (nat_tbl st) (next_session_id st) original
      (own_locator st (next_session_id st)) nat_now = (nat', r)" by fastforce
  then show ?thesis
  proof (cases r)
    case (Ok b)
    then show ?thesis
      using g get_or_create_new [OF None, of nat_now nat' b quic_flow flags is_reverse now] a
      by (auto simp: Let_def new_session_def session_key_of_def hm_get_insert)
  next
    case (Err e)
    then show ?thesis
      using g get_or_create_failed [OF None, of nat_now nat' e quic_flow flags is_reverse now] a by simp
  next
    case Panic
    then show ?thesis
      using a snat.alloc_total [of "nat_tbl st" "next_session_id st" original
          "own_locator st (next_session_id st)" nat_now] by simp
  qed
qed

lemma session_nat_lookup:
  assumes core: "table_core ports st" and s: "hm_get (sessions st) i = Some s"
    and ans: "answers ret (nb_translated (sess_nat s))"
  shows "lookup_reverse_locator st ret = Some (own_locator st i)"
proof -
  have "binding_of (nat_tbl st) i = Some (sess_nat s)"
    using table_coreD(3) [OF core s] by (simp add: session_ok_def)
  then have "hm_get (reverse_map (nat_tbl st)) (nat_key (sess_nat s)) = Some (own_locator st i)"
    using table_coreD(2) [OF core] by (simp add: located_def)
  moreover have "from_return_flow ret = nat_key (sess_nat s)"
    using ans by (simp add: nat_key_def from_return_flow_answers)
  ultimately show ?thesis
    using s by (simp add: lookup_reverse_locator_def lookup_reverse_def own_locator_def hm_has_def)
qed

section \<open>Correctness of the session table\<close>

lemma tcp_transition_seen:
  "fst (tcp_transition (Some (seen_state es)) flags is_reverse) =
    Some (seen_state (es @ [(flags, is_reverse, now)]))"
  by (cases flags; cases is_reverse) (auto simp: tcp_transition_def seen_state_def fin_state_def Let_def)

lemma touch_all_state:
  assumes "hm_get (sessions st) i = Some s" and "protocol (sess_original s) = Tcp"
    and "tcp_state s = Some (seen_state past)"
  shows "map_option tcp_state (hm_get (sessions (touch_all st i es)) i) = Some (Some (seen_state (past @ es)))"
  using assms
proof (induction es arbitrary: st s past)
  case (Cons e es)
  obtain flags is_reverse now where e: "e = (flags, is_reverse, now)" by (cases e)
  obtain state timeout where t: "touch_tcp st (owner_worker_id st) i flags is_reverse now =
     (st\<lparr> sessions := hm_insert i (s\<lparr> tcp_state := state, expires_at := now + timeout \<rparr>) (sessions st),
         deadlines := add_deadline (remove_deadline (deadlines st) (expires_at s) i) (now + timeout) i \<rparr>,
      Ok ())" and tr: "(state, timeout) = tcp_transition (tcp_state s) flags is_reverse"
    using touch_tcp_owner [OF Cons.prems(1), of flags is_reverse now] Cons.prems(2) by auto
  have "state = Some (seen_state (past @ [e]))"
    using tcp_transition_seen [of past flags is_reverse now] tr Cons.prems(3) e by (metis fst_conv)
  then show ?case
    using Cons.IH [of "fst (touch_tcp st (owner_worker_id st) i flags is_reverse now)"
        "s\<lparr> tcp_state := state, expires_at := now + timeout \<rparr>" "past @ [e]"] t Cons.prems(2)
    by (simp add: e hm_get_insert)
qed simp

definition sample_io :: io_owner_key where
  "sample_io = \<lparr> ifindex = 2, queue_id = 0 \<rparr>"

definition sample_tcp_flow :: flow_key where
  "sample_tcp_flow = sample_flow\<lparr> protocol := Tcp \<rparr>"

definition sample_sessions :: session_table where
  "sample_sessions = \<lparr> owner_worker_id = 0, next_session_id = 1, by_key = hm_empty,
     sessions = hm_empty, deadlines = [], nat_tbl = sample_table \<rparr>"

definition sample_one :: session_table where
  "sample_one = fst (get_or_create_with_flags_at sample_sessions 0 sample_tcp_flow sample_io 9 None False 100 100)"

lemmas session_eval = get_or_create_with_flags_at_def touch_tcp_def ensure_owner_def table_key_def
  own_locator_def initial_state_def initial_tcp_timeout_def session_key_of_def
  protocol_idle_timeout.simps TCP_IDLE_TIMEOUT_def UDP_IDLE_TIMEOUT_def ICMP_IDLE_TIMEOUT_def
  TCP_CLOSING_TIMEOUT_def TCP_RST_TIMEOUT_def sample_io_def sample_tcp_flow_def
  sample_sessions_def sample_one_def session_get_def

lemma sample_sessions_reach: "table_reach 0 20000 20001 sample_sessions"
  by (rule table_reach.table_new [of 0 "Some 0xCB007101" None])
    (simp add: new_table_def sample_table_new sample_sessions_def)

lemma sample_one_reach: "table_reach 0 20000 20001 sample_one"
  unfolding sample_one_def
  by (rule table_reach.table_more [OF sample_sessions_reach table_step.step_get_or_create])

lemma sample_one_session:
  "hm_get (sessions sample_one) 1 = Some \<lparr> sess_id = 1, sess_original = sample_tcp_flow,
     sess_nat = \<lparr> nb_original = sample_tcp_flow,
                  nb_translated = translate_flow (V4 0xCB007101) 20000 sample_tcp_flow \<rparr>,
     sess_worker = 0, intercept_io = sample_io, sess_quic_flow = 9,
     expires_at = 100 + from_secs 300, tcp_state = Some Established \<rparr>"
  by (simp add: session_eval nat_eval)

text \<open>
  C11: In every session table that can arise from its operations, by any callers in any
  order, the index by key, the sessions, the deadline buckets and the NAT table agree: each
  session is indexed under its own key, sits in exactly the bucket of its deadline, and its
  binding leads return packets back to it.
\<close>

theorem table_reach_invariant:
  assumes "table_reach owner first_port last_port st"
  shows "table_inv {p. first_port \<le> p \<and> p \<le> last_port} st \<and> owner_worker_id st = owner"
  using table_inv_reach [OF assms] by simp

theorem table_reach_invariant_witness:
  "table_inv {p. 20000 \<le> p \<and> p \<le> 20001}
     (fst (expire_idle sample_one 0 (from_secs 1000) (\<lambda>_. from_secs 1000)))"
  using table_reach_invariant [OF table_reach.table_more [OF sample_one_reach table_step.step_expire]]
  by simp

lemma table_view_iff:
  assumes core: "table_core ports st"
  shows "table_view st k = Some s \<longleftrightarrow> (\<exists>i. hm_get (sessions st) i = Some s \<and> session_key_of s = k)"
proof
  assume "table_view st k = Some s"
  then obtain i where "hm_get (by_key st) k = Some i" "hm_get (sessions st) i = Some s"
    by (auto simp: table_view_def bind_eq_Some_conv)
  then show "\<exists>i. hm_get (sessions st) i = Some s \<and> session_key_of s = k"
    using table_coreD(4) [OF core, of k i] by auto
next
  assume "\<exists>i. hm_get (sessions st) i = Some s \<and> session_key_of s = k"
  then show "table_view st k = Some s"
    using table_coreD(3) [OF core] by (auto simp: table_view_def session_ok_def)
qed

lemma table_view_filter:
  assumes "table_core ports st" and "table_core ports st'"
    and "\<And>i. hm_get (sessions st') i =
      (case hm_get (sessions st) i of Some s \<Rightarrow> if P s then None else Some s | None \<Rightarrow> None)"
  shows "table_view st' k = (case table_view st k of Some s \<Rightarrow> if P s then None else Some s | None \<Rightarrow> None)"
proof -
  have iff: "table_view st' k = Some s \<longleftrightarrow> table_view st k = Some s \<and> \<not> P s" for s
    unfolding table_view_iff [OF assms(1)] table_view_iff [OF assms(2)] assms(3)
    by (auto split: option.splits if_splits)
  have none: "table_view st' k = None" if "\<And>s. table_view st' k \<noteq> Some s"
    using that by (cases "table_view st' k") blast+
  show ?thesis
  proof (cases "table_view st k")
    case None
    then show ?thesis using none iff by simp
  next
    case (Some s)
    then have "P s \<Longrightarrow> table_view st' k = None" using iff by (intro none) auto
    then show ?thesis using Some iff [of s] by (cases "P s") simp_all
  qed
qed

text \<open>
  C13: Expiry is exact.  On a reachable table the owner's \<open>expire_idle\<close> never fails; it returns
  each session whose deadline has passed once, removes those sessions and their NAT
  bindings, and leaves every other session as it was.
\<close>

theorem expire_idle_exact:
  assumes "table_reach owner first_port last_port st"
  shows "\<exists>st' expired. expire_idle st owner now clk = (st', Ok expired) \<and>
           distinct expired \<and>
           set expired = {s. \<exists>i. session_get st i = Some s \<and> expires_at s \<le> now} \<and>
           (\<forall>k. table_view st' k =
              (case table_view st k of Some s \<Rightarrow> if expires_at s \<le> now then None else Some s
                                     | None \<Rightarrow> None)) \<and>
           (\<forall>s\<in>set expired. binding_of (nat_tbl st') (sess_id s) = None)"
proof -
  let ?P = "set (port_range first_port last_port)"
  have inv: "table_inv ?P st" and o: "owner_worker_id st = owner"
    using table_inv_reach [OF assms] by simp_all
  obtain st' ids where e: "expire_idle st owner now clk =
      (st', Ok (map (\<lambda>i. the (hm_get (sessions st) i)) ids))" and d: "distinct ids"
    and ids: "set ids = {i. \<exists>s. hm_get (sessions st) i = Some s \<and> expires_at s \<le> now}"
    and inv': "table_inv ?P st'"
    and left: "\<forall>j. hm_get (sessions st') j = (if j \<in> set ids then None else hm_get (sessions st) j)"
    and nat: "\<forall>j. binding_of (nat_tbl st') j = (if j \<in> set ids then None else binding_of (nat_tbl st) j)"
    using expire_idle_owner [OF inv, of now clk] o by auto
  have id: "sess_id s = i" if "hm_get (sessions st) i = Some s" for i s
    using table_coreD(3) [OF _ that] inv by (auto simp: table_inv_def session_ok_def)
  have "inj_on (\<lambda>i. the (hm_get (sessions st) i)) (set ids)"
  proof (rule inj_onI)
    fix i j assume "i \<in> set ids" "j \<in> set ids"
      "the (hm_get (sessions st) i) = the (hm_get (sessions st) j)"
    then show "i = j" using id [of i] id [of j] by (auto simp: ids)
  qed
  then have 1: "distinct (map (\<lambda>i. the (hm_get (sessions st) i)) ids)" using d by (simp add: distinct_map)
  have 2: "set (map (\<lambda>i. the (hm_get (sessions st) i)) ids) =
      {s. \<exists>i. session_get st i = Some s \<and> expires_at s \<le> now}"
    unfolding set_map ids session_get_def by force
  have "hm_get (sessions st') i = (case hm_get (sessions st) i of
      Some s \<Rightarrow> if expires_at s \<le> now then None else Some s | None \<Rightarrow> None)" for i
    using left ids by (auto split: option.split)
  then have 3: "table_view st' k = (case table_view st k of
      Some s \<Rightarrow> if expires_at s \<le> now then None else Some s | None \<Rightarrow> None)" for k
    using table_view_filter [of ?P st st' "\<lambda>s. expires_at s \<le> now"] inv inv'
    unfolding table_inv_def by blast
  have 4: "binding_of (nat_tbl st') (sess_id s) = None"
    if "s \<in> set (map (\<lambda>i. the (hm_get (sessions st) i)) ids)" for s
    using that nat id unfolding set_map ids by auto
  show ?thesis using e 1 2 3 4 by blast
qed

theorem expire_idle_exact_witness:
  "\<exists>st' expired. expire_idle sample_one 0 (from_secs 1000) (\<lambda>_. from_secs 1000) = (st', Ok expired) \<and>
     (\<exists>s\<in>set expired. sess_id s = 1) \<and> binding_of (nat_tbl st') 1 = None"
proof -
  have "\<exists>i s. session_get sample_one i = Some s \<and> expires_at s \<le> from_secs 1000 \<and> sess_id s = 1"
    by (rule exI [of _ 1]) (simp add: session_get_def sample_one_session from_secs_def)
  then show ?thesis
    using expire_idle_exact [OF sample_one_reach, of "from_secs 1000" "\<lambda>_. from_secs 1000"]
    by (metis (mono_tags, lifting) mem_Collect_eq)
qed

text \<open>
  C29: A flow keeps its session.  When \<open>get_or_create\<close> returns an identifier on a reachable table,
  the session under it has the flow and interface asked for and this worker, every packet that
  answers its translated flow is located at this worker and session, and asking again at any
  later time gives the same identifier and allocates nothing.
\<close>

theorem get_or_create_session:
  assumes "table_reach owner first_port last_port st"
    and "get_or_create_with_flags_at st owner original io quic_flow flags is_reverse now nat_now
           = (st', Ok i)"
  shows "(\<exists>s. session_get st' i = Some s \<and> sess_original s = original \<and> sess_worker s = owner \<and>
            ifindex (intercept_io s) = ifindex io \<and>
            (\<forall>ret. answers ret (nb_translated (sess_nat s)) \<longrightarrow>
               lookup_reverse_locator st' ret = Some \<lparr> flow_worker_id = owner, locator_session = i \<rparr>)) \<and>
         (\<exists>st''. get_or_create_with_flags_at st' owner original io q2 flags2 rev2 now2 nat2 = (st'', Ok i) \<and>
            nat_tbl st'' = nat_tbl st' \<and> by_key st'' = by_key st')"
proof -
  let ?P = "set (port_range first_port last_port)"
  have inv: "table_inv ?P st" and o: "owner_worker_id st = owner"
    using table_inv_reach [OF assms(1)] by simp_all
  have st': "st' = fst (get_or_create_with_flags_at st owner original io quic_flow flags is_reverse
      now nat_now)" using assms(2) by simp
  have core': "table_core ?P st'" and o': "owner_worker_id st' = owner"
    using table_inv_get_or_create [OF inv, of owner original io quic_flow flags is_reverse now nat_now] o
    by (simp_all add: st' table_inv_def)
  have key: "hm_get (by_key st') (table_key original io) = Some i"
    using get_or_create_key [of ?P st original io quic_flow flags is_reverse now nat_now st' i]
      inv o assms(2) by (simp add: table_inv_def)
  then obtain s where s: "hm_get (sessions st') i = Some s" "session_key_of s = table_key original io"
    using table_coreD(4) [OF core' key] by blast
  have "sess_original s = original" "ifindex (intercept_io s) = ifindex io" "sess_worker s = owner"
    using s(2) table_coreD(3) [OF core' s(1)] o'
    by (simp_all add: session_key_of_def table_key_def session_ok_def)
  moreover have "lookup_reverse_locator st' ret = Some \<lparr> flow_worker_id = owner, locator_session = i \<rparr>"
    if "answers ret (nb_translated (sess_nat s))" for ret
    using session_nat_lookup [OF core' s(1) that] o' by (simp add: own_locator_def)
  moreover have "\<exists>st''. get_or_create_with_flags_at st' owner original io q2 flags2 rev2 now2 nat2 =
      (st'', Ok i) \<and> nat_tbl st'' = nat_tbl st' \<and> by_key st'' = by_key st'"
    using get_or_create_known [OF core' key, of q2 flags2 rev2 now2 nat2]
      touch_tcp_owner [OF s(1), of flags2 rev2 now2] o' by fastforce
  ultimately show ?thesis using s(1) unfolding session_get_def by blast
qed

theorem get_or_create_session_witness:
  "\<exists>st''. get_or_create_with_flags_at sample_one 0 sample_tcp_flow sample_io 9 (Some 0x10) False 200 200
     = (st'', Ok 1) \<and> nat_tbl st'' = nat_tbl sample_one"
proof -
  have "get_or_create_with_flags_at sample_sessions 0 sample_tcp_flow sample_io 9 None False 100 100
      = (sample_one, Ok 1)"
    unfolding sample_one_def by (simp add: prod_eq_iff session_eval nat_eval)
  from get_or_create_session [OF sample_sessions_reach this] show ?thesis by blast
qed

text \<open>
  Only the owner may touch a table: every operation called by another worker returns
  \<open>WrongOwner\<close> with both worker numbers and leaves the whole table unchanged.
\<close>

theorem foreign_caller_rejected:
  assumes "caller \<noteq> owner_worker_id st" and "e = WrongOwner (owner_worker_id st) caller"
  shows "get_or_create_with_flags_at st caller original io q flags is_reverse now nat_now = (st, Err e) \<and>
         touch_tcp st caller i flags is_reverse now = (st, Err e) \<and>
         correct_intercept_io st caller i observed = (st, Err e) \<and>
         expire_idle st caller now clk = (st, Err e) \<and>
         allocate_ephemeral_nat st caller i original nat_now = (st, Err e) \<and>
         release_ephemeral_nat st caller i nat_now = (st, Err e) \<and>
         remove st caller i nat_now = (st, Err e) \<and>
         rebind_quic_flow st caller q q2 = (st, Err e) \<and>
         remove_by_quic_flow st caller q clk = (st, Err e)"
  using assms
  by (simp add: get_or_create_with_flags_at_def touch_tcp_def correct_intercept_io_def
      expire_idle_def allocate_ephemeral_nat_def release_ephemeral_nat_def remove_def
      rebind_quic_flow_def remove_by_quic_flow_def)



text \<open>
  The FIN of the packet that creates a session is forgotten.  A TCP session created by a
  forward FIN starts as established (with the short timeout), so a later FIN of the other
  direction gives it the half-closed state and the full idle timeout of 300 seconds, although
  both directions have ended.
\<close>

theorem creating_fin_forgotten:
  assumes "table_reach owner first_port last_port st"
    and "protocol original = Tcp" and "hm_get (by_key st) (table_key original io) = None"
    and "get_or_create_with_flags_at st owner original io quic_flow (Some 0x11) False now nat_now
           = (st1, Ok i)"
    and "touch_tcp st1 owner i (Some 0x11) True later = (st2, Ok ())"
  shows "map_option tcp_state (session_get st2 i) = Some (Some FinSeenReverse) \<and>
         map_option expires_at (session_get st1 i) = Some (now + from_secs 5) \<and>
         map_option expires_at (session_get st2 i) = Some (later + from_secs 300)"
proof -
  have o: "owner_worker_id st = owner" using table_inv_reach [OF assms(1)] by simp
  obtain nat' r where a: "allocate_at (nat_tbl st) (next_session_id st) original
      (own_locator st (next_session_id st)) nat_now = (nat', r)" by fastforce
  obtain b where "r = Ok b"
    using assms(3,4) a o by (cases r) (auto simp: get_or_create_with_flags_at_def Let_def)
  then have s: "hm_get (sessions st1) i = Some (new_session st original io quic_flow (Some 0x11) now b)"
    and o1: "owner_worker_id st1 = owner"
    using get_or_create_new [OF assms(3), of nat_now nat' b] a assms(4) o
    by (auto simp: Let_def hm_get_insert)
  show ?thesis
    using touch_tcp_owner [OF s, of "Some 0x11" True later] assms(2,5) s o1
    by (auto simp: session_get_def new_session_def initial_state_def initial_tcp_timeout_def
        tcp_transition_def fin_state_def flag_set_def hm_get_insert
        TCP_CLOSING_TIMEOUT_def TCP_IDLE_TIMEOUT_def)
qed

end
