(* ===== verification/Quic_Flow.thy ===== *)
theory Quic_Flow
  imports Flow
begin

text \<open>
  QUIC flows and the index of destination connection ids (\<open>flow_plane/quic_flow.rs\<close>): which
  worker a datagram with an unknown connection id goes to, and the shared index that leads
  a known connection id to its owner.  An id is staged while its connection is not yet
  authenticated and active afterwards.
\<close>

section \<open>Model\<close>

type_synonym dcid = bytes

record dcid_owner =
  owner_worker :: worker_id
  owner_flow :: quic_flow_id

record quic_flow =
  qf_id :: quic_flow_id
  qf_worker :: worker_id
  tunnel_queue_id :: u32

datatype quic_flow_error = EmptyDcid | ZeroWorkers | ZeroTunnelQueues | DuplicateDcid dcid_owner

definition fnv1a :: "bytes \<Rightarrow> u64" where
  "fnv1a bs = foldl (\<lambda>hash byte. (hash XOR ucast byte) * 0x100000001b3) 0xcbf29ce484222325 bs"

definition new_flow ::
  "quic_flow_id \<Rightarrow> worker_id \<Rightarrow> dcid \<Rightarrow> u32 \<Rightarrow> (quic_flow, quic_flow_error) result" where
  "new_flow flow_id worker initial_dcid tunnel_queue_count =
    (if initial_dcid = [] then Err EmptyDcid
     else if tunnel_queue_count = 0 then Err ZeroTunnelQueues
     else Ok \<lparr> qf_id = flow_id, qf_worker = worker,
               tunnel_queue_id = ucast (fnv1a initial_dcid mod ucast tunnel_queue_count) \<rparr>)"

definition bootstrap_owner :: "dcid \<Rightarrow> nat \<Rightarrow> (worker_id, quic_flow_error) result" where
  "bootstrap_owner dcid worker_count =
    (if dcid = [] then Err EmptyDcid
     else if worker_count = 0 then Err ZeroWorkers
     else Ok (unat (fnv1a dcid) mod worker_count))"

record active_dcid_index =
  by_dcid :: "(dcid, dcid_owner) alist"
  staged_by_dcid :: "(dcid, dcid_owner) alist"
  by_flow :: "(quic_flow_id, dcid list) alist"

definition new_index :: active_dcid_index where
  "new_index = \<lparr> by_dcid = hm_empty, staged_by_dcid = hm_empty, by_flow = hm_empty \<rparr>"

definition owner_of_flow :: "quic_flow \<Rightarrow> dcid_owner" where
  "owner_of_flow f = \<lparr> owner_worker = qf_worker f, owner_flow = qf_id f \<rparr>"

definition resolve :: "active_dcid_index \<Rightarrow> dcid \<Rightarrow> dcid_owner option" where
  "resolve x d =
    (case hm_get (by_dcid x) d of Some o' \<Rightarrow> Some o' | None \<Rightarrow> hm_get (staged_by_dcid x) d)"

definition stage_for_flow ::
  "active_dcid_index \<Rightarrow> dcid \<Rightarrow> quic_flow \<Rightarrow> active_dcid_index \<times> (unit, quic_flow_error) result" where
  "stage_for_flow x d flow =
    (if d = [] then (x, Err EmptyDcid)
     else let owner = owner_of_flow flow in
       case resolve x d of
         Some existing \<Rightarrow>
           if existing = owner then (x, Ok ()) else (x, Err (DuplicateDcid existing))
       | None \<Rightarrow> (x\<lparr> staged_by_dcid := hm_insert d owner (staged_by_dcid x) \<rparr>, Ok ()))"

text \<open>\<open>by_flow.entry(flow).or_default().insert(dcid)\<close>.\<close>

definition add_to_flow ::
  "(quic_flow_id, dcid list) alist \<Rightarrow> quic_flow_id \<Rightarrow> dcid \<Rightarrow> (quic_flow_id, dcid list) alist" where
  "add_to_flow m q d =
    hm_insert q (List.insert d (case hm_get m q of Some ds \<Rightarrow> ds | None \<Rightarrow> [])) m"

definition activate :: "active_dcid_index \<Rightarrow> dcid \<Rightarrow> dcid_owner \<Rightarrow> active_dcid_index" where
  "activate x d owner =
    x\<lparr> by_dcid := hm_insert d owner (by_dcid x),
       by_flow := add_to_flow (by_flow x) (owner_flow owner) d \<rparr>"

definition publish_dcid ::
  "active_dcid_index \<Rightarrow> dcid \<Rightarrow> dcid_owner \<Rightarrow> active_dcid_index \<times> (unit, quic_flow_error) result" where
  "publish_dcid x d owner =
    (if d = [] then (x, Err EmptyDcid)
     else case hm_get (by_dcid x) d of
       Some existing \<Rightarrow>
         if existing = owner then (x, Ok ()) else (x, Err (DuplicateDcid existing))
     | None \<Rightarrow>
         let x1 = x\<lparr> staged_by_dcid := hm_remove d (staged_by_dcid x) \<rparr> in
         case hm_get (staged_by_dcid x) d of
           None \<Rightarrow> (activate x1 d owner, Ok ())
         | Some existing \<Rightarrow>
             if existing \<noteq> owner
             then (x1\<lparr> staged_by_dcid := hm_insert d existing (staged_by_dcid x1) \<rparr>,
                   Err (DuplicateDcid existing))
             else (activate x1 d owner, Ok ()))"

definition publish_for_flow ::
  "active_dcid_index \<Rightarrow> dcid \<Rightarrow> quic_flow \<Rightarrow> active_dcid_index \<times> (unit, quic_flow_error) result" where
  "publish_for_flow x d flow = publish_dcid x d (owner_of_flow flow)"

text \<open>First pass of a batch: check every id, collecting each one once.\<close>

fun check_batch ::
  "active_dcid_index \<Rightarrow> dcid_owner \<Rightarrow> dcid list \<Rightarrow> dcid list \<Rightarrow> (dcid list, quic_flow_error) result" where
  "check_batch x owner [] unique = Ok unique"
| "check_batch x owner (d # ds) unique =
    (if d = [] then Err EmptyDcid
     else if d \<in> set unique then check_batch x owner ds unique
     else case resolve x d of
       Some existing \<Rightarrow>
         if existing \<noteq> owner then Err (DuplicateDcid existing)
         else check_batch x owner ds (unique @ [d])
     | None \<Rightarrow> check_batch x owner ds (unique @ [d]))"

definition publish_batch_for_flow ::
  "active_dcid_index \<Rightarrow> dcid list \<Rightarrow> quic_flow \<Rightarrow> active_dcid_index \<times> (unit, quic_flow_error) result" where
  "publish_batch_for_flow x dcids flow =
    (let owner = owner_of_flow flow in
     case check_batch x owner dcids [] of
       Err e \<Rightarrow> (x, Err e)
     | Panic \<Rightarrow> (x, Panic)
     | Ok unique \<Rightarrow>
         (foldl (\<lambda>y d. activate (y\<lparr> staged_by_dcid := hm_remove d (staged_by_dcid y) \<rparr>) d owner)
            x unique, Ok ()))"

definition retire_dcid :: "active_dcid_index \<Rightarrow> dcid \<Rightarrow> active_dcid_index \<times> dcid_owner option" where
  "retire_dcid x d =
    (let (x1, found) =
       (case hm_get (by_dcid x) d of
          Some o' \<Rightarrow> (x\<lparr> by_dcid := hm_remove d (by_dcid x) \<rparr>, Some o')
        | None \<Rightarrow> (x\<lparr> staged_by_dcid := hm_remove d (staged_by_dcid x) \<rparr>,
                   hm_get (staged_by_dcid x) d))
     in case found of
          None \<Rightarrow> (x1, None)
        | Some owner \<Rightarrow>
            ((case hm_get (by_flow x1) (owner_flow owner) of
                None \<Rightarrow> x1
              | Some ds \<Rightarrow>
                  let ds' = removeAll d ds in
                  if ds' = [] then x1\<lparr> by_flow := hm_remove (owner_flow owner) (by_flow x1) \<rparr>
                  else x1\<lparr> by_flow := hm_insert (owner_flow owner) ds' (by_flow x1) \<rparr>),
             Some owner))"

definition retire_for_flow ::
  "active_dcid_index \<Rightarrow> dcid \<Rightarrow> quic_flow \<Rightarrow> active_dcid_index \<times> dcid_owner option" where
  "retire_for_flow x d flow =
    (if resolve x d \<noteq> Some (owner_of_flow flow) then (x, None) else retire_dcid x d)"

definition close_flow :: "active_dcid_index \<Rightarrow> quic_flow_id \<Rightarrow> active_dcid_index \<times> nat" where
  "close_flow x q =
    (let (x1, removed) =
       (case hm_get (by_flow x) q of
          None \<Rightarrow> (x, 0)
        | Some ds \<Rightarrow>
            (x\<lparr> by_flow := hm_remove q (by_flow x),
                by_dcid := foldl (\<lambda>m d. hm_remove d m) (by_dcid x) ds \<rparr>, length ds))
     in (x1\<lparr> staged_by_dcid := hm_retain (\<lambda>_ owner. owner_flow owner \<noteq> q) (staged_by_dcid x1) \<rparr>,
         removed))"

definition active_len :: "active_dcid_index \<Rightarrow> nat" where
  "active_len x = hm_len (by_dcid x)"

definition staged_len :: "active_dcid_index \<Rightarrow> nat" where
  "staged_len x = hm_len (staged_by_dcid x)"

text \<open>The updates the flow workers make to the shared index.\<close>

datatype index_op =
    Stage dcid quic_flow
  | PublishOne dcid quic_flow
  | PublishBatch "dcid list" quic_flow
  | RetireFor dcid quic_flow
  | CloseFlow quic_flow_id

fun index_step :: "active_dcid_index \<Rightarrow> index_op \<Rightarrow> active_dcid_index" where
  "index_step x (Stage d f) = fst (stage_for_flow x d f)"
| "index_step x (PublishOne d f) = fst (publish_for_flow x d f)"
| "index_step x (PublishBatch ds f) = fst (publish_batch_for_flow x ds f)"
| "index_step x (RetireFor d f) = fst (retire_for_flow x d f)"
| "index_step x (CloseFlow q) = fst (close_flow x q)"

section \<open>Invariant\<close>

text \<open>The ids recorded for a flow.\<close>

definition flow_ids :: "active_dcid_index \<Rightarrow> quic_flow_id \<Rightarrow> dcid list" where
  "flow_ids x q = (case hm_get (by_flow x) q of Some ds \<Rightarrow> ds | None \<Rightarrow> [])"

definition active_flow :: "active_dcid_index \<Rightarrow> dcid \<Rightarrow> quic_flow_id option" where
  "active_flow x d = map_option owner_flow (hm_get (by_dcid x) d)"

definition index_inv :: "active_dcid_index \<Rightarrow> bool" where
  "index_inv x \<longleftrightarrow>
    (\<forall>d. hm_get (by_dcid x) d \<noteq> None \<longrightarrow> hm_get (staged_by_dcid x) d = None) \<and>
    resolve x [] = None \<and>
    (\<forall>q. hm_get (by_flow x) q \<noteq> Some []) \<and>
    (\<forall>q. distinct (flow_ids x q)) \<and>
    (\<forall>q d. d \<in> set (flow_ids x q) \<longleftrightarrow> active_flow x d = Some q)"

lemma index_invD:
  assumes "index_inv x"
  shows "hm_get (by_dcid x) d \<noteq> None \<Longrightarrow> hm_get (staged_by_dcid x) d = None"
    and "resolve x [] = None" and "hm_get (by_flow x) q \<noteq> Some []"
    and "distinct (flow_ids x q)"
    and "d \<in> set (flow_ids x q) \<longleftrightarrow> active_flow x d = Some q"
  using assms unfolding index_inv_def by blast+

lemma resolve_eq_None:
  "resolve x d = None \<longleftrightarrow> hm_get (by_dcid x) d = None \<and> hm_get (staged_by_dcid x) d = None"
  by (auto simp: resolve_def split: option.splits)

lemma index_same_lookups:
  assumes "hm_get (by_dcid y) = hm_get (by_dcid x)" and "hm_get (staged_by_dcid y) = hm_get (staged_by_dcid x)"
    and "by_flow y = by_flow x"
  shows "index_inv y \<longleftrightarrow> index_inv x" and "resolve y = resolve x"
  using assms
  by (simp_all add: index_inv_def flow_ids_def active_flow_def resolve_def fun_eq_iff [of "resolve y"]
      cong: option.case_cong)

lemma index_inv_new: "index_inv new_index"
  by (simp add: index_inv_def new_index_def flow_ids_def active_flow_def resolve_def)

lemma resolve_new [simp]: "resolve new_index d = None"
  by (simp add: resolve_def new_index_def)

lemma index_inv_stage:
  assumes inv: "index_inv x"
  shows "index_inv (fst (stage_for_flow x d f))"
proof (cases "d = [] \<or> resolve x d \<noteq> None")
  case True
  then have "fst (stage_for_flow x d f) = x" by (auto simp: stage_for_flow_def Let_def)
  then show ?thesis using inv by simp
next
  case False
  then have "fst (stage_for_flow x d f) =
      x\<lparr> staged_by_dcid := hm_insert d (owner_of_flow f) (staged_by_dcid x) \<rparr>"
    by (simp add: stage_for_flow_def)
  moreover have "hm_get (by_dcid x) d = None" using False by (simp add: resolve_eq_None)
  ultimately show ?thesis
    using inv False
    by (auto simp: index_inv_def flow_ids_def active_flow_def resolve_eq_None hm_get_insert)
qed

text \<open>Activating an id that no other owner holds.\<close>

definition activated :: "active_dcid_index \<Rightarrow> dcid \<Rightarrow> dcid_owner \<Rightarrow> active_dcid_index" where
  "activated x d owner = activate (x\<lparr> staged_by_dcid := hm_remove d (staged_by_dcid x) \<rparr>) d owner"

lemma flow_ids_activated:
  "flow_ids (activated x d owner) q =
    (if q = owner_flow owner then List.insert d (flow_ids x q) else flow_ids x q)"
  by (simp add: flow_ids_def activated_def activate_def add_to_flow_def hm_get_insert)

lemma active_flow_activated:
  "active_flow (activated x d owner) e = (if e = d then Some (owner_flow owner) else active_flow x e)"
  by (simp add: active_flow_def activated_def activate_def hm_get_insert)

lemma resolve_activated:
  "resolve (activated x d owner) e = (if e = d then Some owner else resolve x e)"
  by (simp add: resolve_def activated_def activate_def hm_get_insert hm_get_remove
      split: option.split)

lemma index_inv_activated:
  assumes inv: "index_inv x" and d: "d \<noteq> []" and free: "resolve x d \<in> {None, Some owner}"
  shows "index_inv (activated x d owner)"
proof -
  have act: "active_flow x d \<in> {None, Some (owner_flow owner)}"
    using free by (auto simp: active_flow_def resolve_def split: option.splits)
  have "hm_get (staged_by_dcid (activated x d owner)) e = None"
    if "hm_get (by_dcid (activated x d owner)) e \<noteq> None" for e
    using that index_invD(1) [OF inv, of e]
    by (auto simp: activated_def activate_def hm_get_insert hm_get_remove split: if_splits)
  moreover have "resolve (activated x d owner) [] = None"
    using d index_invD(2) [OF inv] by (simp add: resolve_activated)
  moreover have "hm_get (by_flow (activated x d owner)) q \<noteq> Some []" for q
    using index_invD(3) [OF inv, of q]
    by (auto simp: activated_def activate_def add_to_flow_def hm_get_insert List.insert_def
        split: option.splits)
  moreover have "distinct (flow_ids (activated x d owner) q)" for q
    using index_invD(4) [OF inv] by (simp add: flow_ids_activated)
  moreover have "e \<in> set (flow_ids (activated x d owner) q) \<longleftrightarrow>
      active_flow (activated x d owner) e = Some q" for q e
    using index_invD(5) [OF inv, of e q] act by (auto simp: flow_ids_activated active_flow_activated)
  ultimately show ?thesis unfolding index_inv_def by blast
qed

text \<open>A refused publication changes no lookup at all.\<close>

lemma publish_dcid_refused:
  assumes "index_inv x" and "resolve x d = Some existing" and "existing \<noteq> owner"
  shows "index_inv (fst (publish_dcid x d owner)) \<and>
         resolve (fst (publish_dcid x d owner)) = resolve x"
proof -
  have "hm_get (by_dcid (fst (publish_dcid x d owner))) = hm_get (by_dcid x) \<and>
      hm_get (staged_by_dcid (fst (publish_dcid x d owner))) = hm_get (staged_by_dcid x) \<and>
      by_flow (fst (publish_dcid x d owner)) = by_flow x"
    using assms(2,3)
    by (auto simp: publish_dcid_def Let_def resolve_def fun_eq_iff hm_get_insert hm_get_remove
        split: option.splits)
  then show ?thesis
    using assms(1) index_same_lookups [of "fst (publish_dcid x d owner)" x] by simp
qed

lemma index_inv_publish:
  assumes inv: "index_inv x"
  shows "index_inv (fst (publish_dcid x d owner))"
proof (cases "d = [] \<or> (\<exists>existing. resolve x d = Some existing \<and> existing \<noteq> owner)")
  case True
  then show ?thesis
    using inv publish_dcid_refused [OF inv, of d _ owner] by (auto simp: publish_dcid_def)
next
  case False
  then have "resolve x d \<in> {None, Some owner}" and "d \<noteq> []" by (cases "resolve x d"; simp)+
  then have "index_inv (activated x d owner)" by (simp add: index_inv_activated [OF inv])
  moreover have "fst (publish_dcid x d owner) \<in> {x, activated x d owner}"
    using False
    by (auto simp: publish_dcid_def Let_def resolve_def activated_def split: option.splits)
  ultimately show ?thesis using inv by auto
qed

section \<open>Batches\<close>

lemma check_batch_Cons_Ok:
  "check_batch x owner (d # ds) unique = Ok us \<longleftrightarrow>
    d \<noteq> [] \<and> (if d \<in> set unique then check_batch x owner ds unique = Ok us
      else resolve x d \<in> {None, Some owner} \<and> check_batch x owner ds (unique @ [d]) = Ok us)"
  by (cases "resolve x d") simp_all

lemma check_batch_Ok_set: "check_batch x owner ds unique = Ok us \<Longrightarrow> set us = set unique \<union> set ds"
proof (induction ds arbitrary: unique)
  case (Cons d ds)
  show ?case
  proof (cases "d \<in> set unique")
    case True
    then show ?thesis using Cons by (auto simp only: check_batch_Cons_Ok if_True set_simps)
  next
    case False
    then have "set us = set (unique @ [d]) \<union> set ds"
      using Cons.prems by (intro Cons.IH) (simp only: check_batch_Cons_Ok if_False)
    then show ?thesis by simp
  qed
qed simp

lemma check_batch_Ok_free:
  "check_batch x owner ds unique = Ok us \<Longrightarrow> d \<in> set ds \<Longrightarrow> d \<notin> set unique \<Longrightarrow>
    d \<noteq> [] \<and> resolve x d \<in> {None, Some owner}"
proof (induction ds arbitrary: unique)
  case (Cons e ds)
  note c = Cons.prems(1) [unfolded check_batch_Cons_Ok]
  show ?case
  proof (cases "d = e")
    case True
    then show ?thesis using c Cons.prems(3) by simp
  next
    case False
    then have "d \<in> set ds" "d \<notin> set (unique @ [e])" using Cons.prems by simp_all
    then show ?thesis using c Cons.IH [of unique] Cons.IH [of "unique @ [e]"] Cons.prems(3)
      by (cases "e \<in> set unique") simp_all
  qed
qed simp

lemma check_batch_total: "check_batch x owner ds unique \<noteq> Panic"
  by (induction x owner ds unique rule: check_batch.induct) (auto split: option.splits)

lemma check_batch_succeeds:
  assumes "\<forall>d\<in>set ds. d \<noteq> [] \<and> resolve x d \<in> {None, Some owner}"
  shows "\<exists>us. check_batch x owner ds unique = Ok us"
  using assms by (induction ds arbitrary: unique) auto

lemma check_batch_fails:
  assumes "\<not> (\<forall>d\<in>set ds. d \<noteq> [] \<and> resolve x d \<in> {None, Some owner})"
  shows "\<nexists>us. check_batch x owner ds [] = Ok us"
proof
  assume "\<exists>us. check_batch x owner ds [] = Ok us"
  then obtain us where us: "check_batch x owner ds [] = Ok us" by blast
  have "\<forall>d\<in>set ds. d \<noteq> [] \<and> resolve x d \<in> {None, Some owner}"
    using check_batch_Ok_free [OF us] by simp
  then show False using assms by blast
qed

lemma activate_all:
  assumes "index_inv x" and "\<forall>d\<in>set us. d \<noteq> [] \<and> resolve x d \<in> {None, Some owner}"
  shows "index_inv (foldl (\<lambda>y d. activated y d owner) x us) \<and>
     (\<forall>e. resolve (foldl (\<lambda>y d. activated y d owner) x us) e =
        (if e \<in> set us then Some owner else resolve x e))"
  using assms
proof (induction us arbitrary: x)
  case (Cons d us)
  then have "index_inv (activated x d owner)" by (simp add: index_inv_activated)
  moreover have "\<forall>d'\<in>set us. d' \<noteq> [] \<and> resolve (activated x d owner) d' \<in> {None, Some owner}"
    using Cons.prems(2) by (auto simp: resolve_activated)
  ultimately show ?case using Cons.IH [of "activated x d owner"] by (auto simp: resolve_activated)
qed simp

lemma publish_batch_unfold:
  "publish_batch_for_flow x ds f =
    (case check_batch x (owner_of_flow f) ds [] of
       Err e \<Rightarrow> (x, Err e)
     | Panic \<Rightarrow> (x, Panic)
     | Ok us \<Rightarrow> (foldl (\<lambda>y d. activated y d (owner_of_flow f)) x us, Ok ()))"
  unfolding publish_batch_for_flow_def activated_def Let_def by (rule refl)

lemma index_inv_publish_batch:
  assumes inv: "index_inv x"
  shows "index_inv (fst (publish_batch_for_flow x ds f))"
proof (cases "check_batch x (owner_of_flow f) ds []")
  case (Ok us)
  then show ?thesis
    using activate_all [OF inv, of us "owner_of_flow f"] check_batch_Ok_set [OF Ok]
      check_batch_Ok_free [OF Ok] Ok
    by (simp add: publish_batch_unfold)
qed (simp_all add: publish_batch_unfold inv)

section \<open>Retiring and closing\<close>

lemma hm_get_foldl_remove:
  "hm_get (foldl (\<lambda>m d. hm_remove d m) m ds) e = (if e \<in> set ds then None else hm_get m e)"
  by (induction ds arbitrary: m) (auto simp: hm_get_remove)

lemma retire_lookups:
  shows "hm_get (by_dcid (fst (retire_dcid x d))) e = (if e = d then None else hm_get (by_dcid x) e)"
    and "hm_get (staged_by_dcid (fst (retire_dcid x d))) e =
      (if e = d \<and> hm_get (by_dcid x) d = None then None else hm_get (staged_by_dcid x) e)"
    and "snd (retire_dcid x d) = resolve x d"
  by (auto simp: retire_dcid_def Let_def resolve_def hm_get_remove split: option.split)

lemma retire_flow_ids:
  assumes inv: "index_inv x"
  shows "flow_ids (fst (retire_dcid x d)) q = removeAll d (flow_ids x q)"
    and "hm_get (by_flow (fst (retire_dcid x d))) q \<noteq> Some []"
proof -
  have other: "removeAll d (flow_ids x p) = flow_ids x p" if "active_flow x d \<noteq> Some p" for p
    using index_invD(5) [OF inv, of d p] that by (simp add: removeAll_id)
  have "by_flow (fst (retire_dcid x d)) = (case resolve x d of None \<Rightarrow> by_flow x | Some ow \<Rightarrow>
      (case hm_get (by_flow x) (owner_flow ow) of None \<Rightarrow> by_flow x | Some ds \<Rightarrow>
         if removeAll d ds = [] then hm_remove (owner_flow ow) (by_flow x)
         else hm_insert (owner_flow ow) (removeAll d ds) (by_flow x)))" (is "_ = ?m")
    by (simp add: retire_dcid_def Let_def resolve_def split: option.split)
  moreover have "(case hm_get ?m q of Some ds \<Rightarrow> ds | None \<Rightarrow> []) = removeAll d (flow_ids x q) \<and>
      hm_get ?m q \<noteq> Some []"
  proof (cases "resolve x d")
    case None
    then have "active_flow x d \<noteq> Some q" by (simp add: active_flow_def resolve_eq_None)
    from other [OF this] None index_invD(3) [OF inv, of q]
    show ?thesis by (simp add: flow_ids_def)
  next
    case (Some ow)
    have "active_flow x d \<noteq> Some q" if "q \<noteq> owner_flow ow"
      using Some that by (auto simp: active_flow_def resolve_def split: option.splits)
    with other [of q] Some index_invD(3) [OF inv, of q]
    show ?thesis
      by (auto simp: flow_ids_def hm_get_insert hm_get_remove split: option.splits)
  qed
  ultimately show "flow_ids (fst (retire_dcid x d)) q = removeAll d (flow_ids x q)"
    and "hm_get (by_flow (fst (retire_dcid x d))) q \<noteq> Some []"
    by (simp_all add: flow_ids_def)
qed

lemma resolve_retire:
  assumes "index_inv x"
  shows "resolve (fst (retire_dcid x d)) e = (if e = d then None else resolve x e)"
  using index_invD(1) [OF assms, of d]
  by (auto simp: resolve_def retire_lookups split: option.splits)

lemma index_inv_retire:
  assumes inv: "index_inv x"
  shows "index_inv (fst (retire_dcid x d))"
  unfolding index_inv_def
proof (intro conjI allI impI)
  show "hm_get (staged_by_dcid (fst (retire_dcid x d))) e = None"
    if "hm_get (by_dcid (fst (retire_dcid x d))) e \<noteq> None" for e
    using that index_invD(1) [OF inv, of e] by (simp add: retire_lookups split: if_splits)
  show "resolve (fst (retire_dcid x d)) [] = None"
    using index_invD(2) [OF inv] by (simp add: resolve_retire [OF inv])
  show "e \<in> set (flow_ids (fst (retire_dcid x d)) q) \<longleftrightarrow>
      active_flow (fst (retire_dcid x d)) e = Some q" for q e
    using index_invD(5) [OF inv, of e q]
    by (auto simp: retire_flow_ids [OF inv] active_flow_def retire_lookups)
qed (use index_invD(4) [OF inv] in
    \<open>simp_all add: retire_flow_ids [OF inv] distinct_removeAll\<close>)

lemma close_lookups:
  assumes inv: "index_inv x"
  shows "hm_get (by_dcid (fst (close_flow x q))) d =
      (if active_flow x d = Some q then None else hm_get (by_dcid x) d)"
    and "hm_get (staged_by_dcid (fst (close_flow x q))) d =
      (case hm_get (staged_by_dcid x) d of
         Some ow \<Rightarrow> if owner_flow ow = q then None else Some ow | None \<Rightarrow> None)"
    and "hm_get (by_flow (fst (close_flow x q))) p = (if p = q then None else hm_get (by_flow x) p)"
    and "snd (close_flow x q) = length (flow_ids x q)"
proof -
  have "d \<in> set (flow_ids x q) \<longleftrightarrow> active_flow x d = Some q" by (rule index_invD(5) [OF inv])
  then show "hm_get (by_dcid (fst (close_flow x q))) d =
      (if active_flow x d = Some q then None else hm_get (by_dcid x) d)"
    by (auto simp: close_flow_def Let_def hm_get_foldl_remove flow_ids_def split: option.splits)
qed (auto simp: close_flow_def Let_def hm_get_retain hm_get_remove flow_ids_def split: option.split)

lemma resolve_close:
  assumes inv: "index_inv x"
  shows "resolve (fst (close_flow x q)) d =
    (case resolve x d of Some ow \<Rightarrow> if owner_flow ow = q then None else Some ow | None \<Rightarrow> None)"
  using index_invD(1) [OF inv, of d]
  by (auto simp: resolve_def close_lookups [OF inv] active_flow_def split: option.splits)

lemma index_inv_close:
  assumes inv: "index_inv x"
  shows "index_inv (fst (close_flow x q))"
  unfolding index_inv_def
proof (intro conjI allI impI)
  show "hm_get (staged_by_dcid (fst (close_flow x q))) d = None"
    if "hm_get (by_dcid (fst (close_flow x q))) d \<noteq> None" for d
    using that index_invD(1) [OF inv, of d] by (simp add: close_lookups [OF inv] split: if_splits)
  show "resolve (fst (close_flow x q)) [] = None"
    using index_invD(2) [OF inv] by (simp add: resolve_close [OF inv])
  show "d \<in> set (flow_ids (fst (close_flow x q)) p) \<longleftrightarrow>
      active_flow (fst (close_flow x q)) d = Some p" for p d
    using index_invD(5) [OF inv, of d p]
    by (auto simp: flow_ids_def active_flow_def close_lookups [OF inv] split: if_splits)
qed (use index_invD(3,4) [OF inv] in \<open>auto simp: flow_ids_def close_lookups [OF inv]\<close>)

section \<open>Correctness of the index\<close>

lemma index_inv_step:
  assumes "index_inv x"
  shows "index_inv (index_step x op)"
  using assms
  by (cases op) (simp_all add: index_inv_stage index_inv_publish index_inv_publish_batch
      index_inv_retire index_inv_close publish_for_flow_def retire_for_flow_def)

lemma index_inv_steps: "index_inv x \<Longrightarrow> index_inv (foldl index_step x ops)"
  by (induction ops arbitrary: x) (simp_all add: index_inv_step)

lemma resolve_stage:
  "resolve (fst (stage_for_flow x d f)) e =
    (if e = d \<and> d \<noteq> [] \<and> resolve x d = None then Some (owner_of_flow f) else resolve x e)"
  by (auto simp: stage_for_flow_def Let_def resolve_def hm_get_insert split: option.split)

lemma resolve_publish:
  assumes inv: "index_inv x"
  shows "resolve (fst (publish_dcid x d owner)) e =
    (if e = d \<and> d \<noteq> [] \<and> resolve x d = None then Some owner else resolve x e)"
  by (auto simp: publish_dcid_def Let_def resolve_def activate_def hm_get_insert hm_get_remove
      split: option.split)

lemma resolve_batch:
  assumes inv: "index_inv x"
  shows "resolve (fst (publish_batch_for_flow x ds f)) e =
    (if e \<in> set ds \<and> (\<forall>d\<in>set ds. d \<noteq> [] \<and> resolve x d \<in> {None, Some (owner_of_flow f)})
     then Some (owner_of_flow f) else resolve x e)"
proof (cases "\<forall>d\<in>set ds. d \<noteq> [] \<and> resolve x d \<in> {None, Some (owner_of_flow f)}")
  case True
  then obtain us where us: "check_batch x (owner_of_flow f) ds [] = Ok us"
    using check_batch_succeeds by blast
  then have "set us = set ds" using check_batch_Ok_set by fastforce
  then show ?thesis
    using us True activate_all [OF inv, of us "owner_of_flow f"] by (simp add: publish_batch_unfold)
next
  case False
  then have "\<nexists>us. check_batch x (owner_of_flow f) ds [] = Ok us" by (rule check_batch_fails)
  then have "fst (publish_batch_for_flow x ds f) = x"
    by (cases "check_batch x (owner_of_flow f) ds []") (auto simp: publish_batch_unfold)
  then show ?thesis using False by (subst if_not_P) (blast, simp)
qed

definition sample_quic_flow :: "quic_flow_id \<Rightarrow> quic_flow" where
  "sample_quic_flow q = \<lparr> qf_id = q, qf_worker = 1, tunnel_queue_id = 0 \<rparr>"

text \<open>
  C31: However the workers interleave their updates of the shared index, no connection id is
  both staged and active, the empty id is never present, and the per-flow sets hold exactly
  the active ids of their flow, with no empty set left behind.
\<close>

theorem index_invariant: "index_inv (foldl index_step new_index ops)"
  by (rule index_inv_steps [OF index_inv_new])

text \<open>
  C15: A connection id is never taken over.  Once it resolves to an owner, it resolves to the
  same owner after every further update, until that owner retires it or its flow is closed.
\<close>

theorem dcid_never_taken_over:
  assumes "x = foldl index_step new_index ops"
    and "resolve x d = Some ow"
    and "\<forall>f. op = RetireFor d f \<longrightarrow> owner_of_flow f \<noteq> ow"
    and "op \<noteq> CloseFlow (owner_flow ow)"
  shows "resolve (index_step x op) d = Some ow"
proof -
  have inv: "index_inv x" unfolding assms(1) by (rule index_inv_steps [OF index_inv_new])
  show ?thesis
  proof (cases op)
    case (RetireFor e f)
    then show ?thesis
      using assms(2,3) by (cases "e = d") (simp_all add: retire_for_flow_def resolve_retire [OF inv])
  next
    case (PublishBatch ds f)
    then show ?thesis using assms(2) by (auto simp: resolve_batch [OF inv])
  qed (use assms(2,4) in \<open>auto simp: resolve_stage publish_for_flow_def resolve_publish [OF inv]
      resolve_close [OF inv]\<close>)
qed

theorem dcid_never_taken_over_witness:
  "resolve (index_step (foldl index_step new_index [Stage [1, 2] (sample_quic_flow 7)])
      (PublishBatch [[3], [1, 2]] (sample_quic_flow 8))) [1, 2]
   = Some \<lparr> owner_worker = 1, owner_flow = 7 \<rparr>"
proof -
  let ?x = "foldl index_step new_index [Stage [1, 2] (sample_quic_flow 7)]"
  have "resolve ?x [1, 2] = Some \<lparr> owner_worker = 1, owner_flow = 7 \<rparr>"
    by (simp add: resolve_stage owner_of_flow_def sample_quic_flow_def)
  from dcid_never_taken_over [OF refl this, of "PublishBatch [[3], [1, 2]] (sample_quic_flow 8)"]
  show ?thesis by simp
qed

text \<open>
  C32: Publishing a batch is all or nothing: either every id of the batch is free or already
  belongs to the flow, and then all of them resolve to the flow and nothing else changes, or
  one is empty or foreign, and then the call fails and the whole index is as before.
\<close>

theorem publish_batch_all_or_nothing:
  assumes "index_inv x"
  shows "if \<forall>d\<in>set ds. d \<noteq> [] \<and> resolve x d \<in> {None, Some (owner_of_flow f)}
         then snd (publish_batch_for_flow x ds f) = Ok () \<and>
              (\<forall>d. resolve (fst (publish_batch_for_flow x ds f)) d =
                 (if d \<in> set ds then Some (owner_of_flow f) else resolve x d)) \<and>
              (\<forall>d\<in>set ds. hm_get (by_dcid (fst (publish_batch_for_flow x ds f))) d
                 = Some (owner_of_flow f))
         else \<exists>e. publish_batch_for_flow x ds f = (x, Err e)"
proof (cases "\<forall>d\<in>set ds. d \<noteq> [] \<and> resolve x d \<in> {None, Some (owner_of_flow f)}")
  case True
  then obtain us where us: "check_batch x (owner_of_flow f) ds [] = Ok us"
    using check_batch_succeeds by blast
  have "hm_get (by_dcid (foldl (\<lambda>y d. activated y d ow) z vs)) d =
      (if d \<in> set vs then Some ow else hm_get (by_dcid z) d)" for ow z vs d
    by (induction vs arbitrary: z) (auto simp: activated_def activate_def hm_get_insert)
  then show ?thesis
    using True us check_batch_Ok_set [OF us] resolve_batch [OF assms, of ds f]
    by (simp add: publish_batch_unfold)
next
  case False
  then have "\<nexists>us. check_batch x (owner_of_flow f) ds [] = Ok us" by (rule check_batch_fails)
  then have "\<exists>e. publish_batch_for_flow x ds f = (x, Err e)"
    using check_batch_total [of x "owner_of_flow f" ds "[]"]
    by (cases "check_batch x (owner_of_flow f) ds []") (auto simp: publish_batch_unfold)
  then show ?thesis unfolding if_not_P [OF False] .
qed

theorem publish_batch_all_or_nothing_witness:
  "snd (publish_batch_for_flow new_index [[1], [2, 3]] (sample_quic_flow 7)) = Ok ()"
  using publish_batch_all_or_nothing [OF index_inv_new, of "[[1], [2, 3]]" "sample_quic_flow 7"]
  by simp

text \<open>
  Closing a flow removes every id of the flow, staged or active, and no other, and
  reports the number of active ids it removed.
\<close>

theorem close_flow_complete:
  assumes "index_inv x"
  shows "resolve (fst (close_flow x q)) d =
           (case resolve x d of Some ow \<Rightarrow> if owner_flow ow = q then None else Some ow | None \<Rightarrow> None) \<and>
         snd (close_flow x q) = card {d. active_flow x d = Some q}"
proof -
  have "{d. active_flow x d = Some q} = set (flow_ids x q)" using index_invD(5) [OF assms] by auto
  then show ?thesis
    using resolve_close [OF assms] close_lookups(4) [OF assms] index_invD(4) [OF assms]
    by (simp add: distinct_card)
qed

text \<open>
  The bootstrap owner of a connection id exists exactly when the id is not empty and
  there is a worker, is a function of the id alone, and is always a valid worker number; the
  tunnel queue of a flow is likewise below the queue count.
\<close>

theorem bootstrap_owner_valid:
  "(case bootstrap_owner d n of
      Ok w \<Rightarrow> d \<noteq> [] \<and> w < n
    | Err e \<Rightarrow> (if d = [] then e = EmptyDcid else n = 0 \<and> e = ZeroWorkers)
    | Panic \<Rightarrow> False) \<and>
   (case new_flow q w d k of
      Ok f \<Rightarrow> d \<noteq> [] \<and> tunnel_queue_id f < k \<and> qf_id f = q \<and> qf_worker f = w
    | Err e \<Rightarrow> (if d = [] then e = EmptyDcid else k = 0 \<and> e = ZeroTunnelQueues)
    | Panic \<Rightarrow> False)"
proof -
  have "(ucast (fnv1a d mod ucast k) :: u32) < k" if "k \<noteq> 0"
  proof -
    have "unat (ucast k :: u64) = unat k"
      using unat_u32_less [of k] by (intro unat_ucast_fits) simp
    moreover have "0 < unat k" using that by (simp add: unat_gt_0)
    ultimately have "unat (fnv1a d mod ucast k) < unat k" by (simp add: unat_mod_distrib)
    moreover from this have "unat (ucast (fnv1a d mod ucast k) :: u32) = unat (fnv1a d mod ucast k)"
      using unat_u32_less [of k] by (intro unat_ucast_fits) simp
    ultimately show ?thesis by (simp add: word_less_nat_alt)
  qed
  then show ?thesis by (auto simp: bootstrap_owner_def new_flow_def)
qed

end
