(* ===== verification/Packet.thy ===== *)
theory Packet
  imports Flow
begin

text \<open>
  Reading and rewriting IP packets (\<open>flow_plane/packet.rs\<close>).  A packet is a byte list; an
  index or slice out of range is the outcome \<open>Panic\<close>, a failed \<open>get\<close> an error value.  A
  function that rewrites a packet in place returns the new bytes; its callers drop the
  buffer when it returns an error.
\<close>

section \<open>Constants and errors\<close>

definition IP_PROTOCOL_HOP_BY_HOP :: u8 where [simp]: "IP_PROTOCOL_HOP_BY_HOP = 0"
definition IP_PROTOCOL_ICMP :: u8 where [simp]: "IP_PROTOCOL_ICMP = 1"
definition IP_PROTOCOL_TCP :: u8 where [simp]: "IP_PROTOCOL_TCP = 6"
definition IP_PROTOCOL_UDP :: u8 where [simp]: "IP_PROTOCOL_UDP = 17"
definition IP_PROTOCOL_ROUTING :: u8 where [simp]: "IP_PROTOCOL_ROUTING = 43"
definition IP_PROTOCOL_FRAGMENT :: u8 where [simp]: "IP_PROTOCOL_FRAGMENT = 44"
definition IP_PROTOCOL_ESP :: u8 where [simp]: "IP_PROTOCOL_ESP = 50"
definition IP_PROTOCOL_AH :: u8 where [simp]: "IP_PROTOCOL_AH = 51"
definition IP_PROTOCOL_ICMPV6 :: u8 where [simp]: "IP_PROTOCOL_ICMPV6 = 58"
definition IP_PROTOCOL_NO_NEXT_HEADER :: u8 where [simp]: "IP_PROTOCOL_NO_NEXT_HEADER = 59"
definition IP_PROTOCOL_DESTINATION_OPTIONS :: u8 where
  [simp]: "IP_PROTOCOL_DESTINATION_OPTIONS = 60"

definition TCP_MAX_SAFE_MSS :: u16 where "TCP_MAX_SAFE_MSS = 1333"

datatype packet_error =
    TruncatedIpHeader
  | InvalidIpLength
  | TruncatedTransportHeader
  | UnsupportedIpVersion u8
  | UnsupportedProtocol u8
  | UnsupportedIcmpType u8
  | NonInitialFragment
  | ExtensionHeaderChainTooLong
  | InvalidTranslation
  | InvalidIpChecksum
  | InvalidTransportChecksum
  | HopLimitExceeded

section \<open>Headers\<close>

text \<open>\<open>packet.first().ok_or(TruncatedIpHeader)? >> 4\<close>.\<close>

definition ip_version :: "bytes \<Rightarrow> (u8, packet_error) result" where
  "ip_version p = and_then (ok_or (byte_get p 0) TruncatedIpHeader) (\<lambda>b. Ok (drop_bit 4 b))"

text \<open>The checks every IPv4 reader makes first: header length and total length.\<close>

definition ipv4_lengths :: "bytes \<Rightarrow> (nat \<times> nat, packet_error) result" where
  "ipv4_lengths p =
    guard_err (length p < 20) TruncatedIpHeader
     (and_then (rd8 p 0) (\<lambda>b0.
      let header_len = unat (b0 AND 0x0f) * 4 in
      guard_err (header_len < 20 \<or> length p < header_len) TruncatedIpHeader
       (and_then (rd16 p 2) (\<lambda>w.
        let total_len = unat w in
        guard_err (total_len < header_len \<or> length p < total_len) InvalidIpLength
          (Ok (header_len, total_len))))))"

definition ipv6_length :: "bytes \<Rightarrow> (nat, packet_error) result" where
  "ipv6_length p =
    guard_err (length p < 40) TruncatedIpHeader
     (and_then (rd16 p 4) (\<lambda>w.
      let total_len = 40 + unat w in
      guard_err (length p < total_len) InvalidIpLength (Ok total_len)))"

text \<open>One extension header: where the next one starts.\<close>

definition skip_extension ::
  "bytes \<Rightarrow> nat \<Rightarrow> nat \<Rightarrow> (u8 \<Rightarrow> nat) \<Rightarrow> (u8 \<times> nat, packet_error) result" where
  "skip_extension p total_len offset octets =
    and_then (ok_or (slice_get p offset (offset + 2)) TruncatedTransportHeader) (\<lambda>header.
    and_then (rd8 header 0) (\<lambda>next_header.
    and_then (rd8 header 1) (\<lambda>units.
      let end_offset = offset + octets units in
      guard_err (total_len < end_offset) TruncatedTransportHeader (Ok (next_header, end_offset)))))"

definition option_len :: "u8 \<Rightarrow> nat" where
  "option_len units = (unat units + 1) * 8"

definition ah_len :: "u8 \<Rightarrow> nat" where
  "ah_len units = (unat units + 2) * 4"

text \<open>The loops over at most eight extension headers; the first argument counts down.\<close>

fun ipv6_transport_offset ::
  "nat \<Rightarrow> bytes \<Rightarrow> nat \<Rightarrow> u8 \<Rightarrow> nat \<Rightarrow> (u8 \<times> nat, packet_error) result" where
  "ipv6_transport_offset 0 p total_len next_header offset = Err ExtensionHeaderChainTooLong"
| "ipv6_transport_offset (Suc n) p total_len next_header offset =
    (if next_header = IP_PROTOCOL_HOP_BY_HOP \<or> next_header = IP_PROTOCOL_ROUTING \<or>
        next_header = IP_PROTOCOL_DESTINATION_OPTIONS
     then and_then (skip_extension p total_len offset option_len) (\<lambda>(next_header, offset).
            ipv6_transport_offset n p total_len next_header offset)
     else if next_header = IP_PROTOCOL_FRAGMENT
     then and_then (ok_or (slice_get p offset (offset + 8)) TruncatedTransportHeader) (\<lambda>_.
            Err NonInitialFragment)
     else if next_header = IP_PROTOCOL_AH
     then and_then (skip_extension p total_len offset ah_len) (\<lambda>(next_header, offset).
            ipv6_transport_offset n p total_len next_header offset)
     else if next_header = IP_PROTOCOL_ESP \<or> next_header = IP_PROTOCOL_NO_NEXT_HEADER
     then Err (UnsupportedProtocol next_header)
     else Ok (next_header, offset))"

fun ipv6_has_fragment_header ::
  "nat \<Rightarrow> bytes \<Rightarrow> nat \<Rightarrow> u8 \<Rightarrow> nat \<Rightarrow> (bool, packet_error) result" where
  "ipv6_has_fragment_header 0 p total_len next_header offset = Err ExtensionHeaderChainTooLong"
| "ipv6_has_fragment_header (Suc n) p total_len next_header offset =
    (if next_header = IP_PROTOCOL_HOP_BY_HOP \<or> next_header = IP_PROTOCOL_ROUTING \<or>
        next_header = IP_PROTOCOL_DESTINATION_OPTIONS
     then and_then (skip_extension p total_len offset option_len) (\<lambda>(next_header, offset).
            ipv6_has_fragment_header n p total_len next_header offset)
     else if next_header = IP_PROTOCOL_FRAGMENT then Ok True
     else if next_header = IP_PROTOCOL_AH
     then and_then (skip_extension p total_len offset ah_len) (\<lambda>(next_header, offset).
            ipv6_has_fragment_header n p total_len next_header offset)
     else Ok False)"

definition ip_packet_is_fragmented :: "bytes \<Rightarrow> (bool, packet_error) result" where
  "ip_packet_is_fragmented p =
    and_then (ip_version p) (\<lambda>version.
      if version = 4 then
        and_then (ipv4_lengths p) (\<lambda>_.
        and_then (rd16 p 6) (\<lambda>fragment. Ok (fragment AND 0x3fff \<noteq> 0)))
      else if version = 6 then
        and_then (ipv6_length p) (\<lambda>total_len.
        and_then (rd8 p 6) (\<lambda>next_header.
          ipv6_has_fragment_header 8 p total_len next_header 40))
      else Err (UnsupportedIpVersion version))"

text \<open>Protocol, offset of the transport header, and total length.\<close>

definition transport_metadata :: "bytes \<Rightarrow> (u8 \<times> nat \<times> nat, packet_error) result" where
  "transport_metadata p =
    and_then (ip_version p) (\<lambda>version.
      if version = 4 then
        and_then (ipv4_lengths p) (\<lambda>(header_len, total_len).
        and_then (rd8 p 9) (\<lambda>proto. Ok (proto, header_len, total_len)))
      else if version = 6 then
        and_then (ipv6_length p) (\<lambda>total_len.
        and_then (rd8 p 6) (\<lambda>next_header.
        and_then (ipv6_transport_offset 8 p total_len next_header 40) (\<lambda>(proto, transport_offset).
          Ok (proto, transport_offset, total_len))))
      else Err (UnsupportedIpVersion version))"

section \<open>Flow keys\<close>

definition transport_ports ::
  "u8 \<Rightarrow> bytes \<Rightarrow> (u16 \<times> u16 \<times> transport_protocol, packet_error) result" where
  "transport_ports proto transport =
    (if proto = IP_PROTOCOL_TCP then
       and_then (ok_or (slice_get transport 0 20) TruncatedTransportHeader) (\<lambda>header.
       and_then (rd8 header 12) (\<lambda>b.
         let header_len = unat (drop_bit 4 b) * 4 in
         guard_err (header_len < 20 \<or> length transport < header_len) TruncatedTransportHeader
          (and_then (rd16 header 0) (\<lambda>src.
           and_then (rd16 header 2) (\<lambda>dst. Ok (src, dst, Tcp))))))
     else if proto = IP_PROTOCOL_UDP then
       and_then (ok_or (slice_get transport 0 8) TruncatedTransportHeader) (\<lambda>ports.
       and_then (rd16 ports 4) (\<lambda>l.
         let udp_len = unat l in
         guard_err (udp_len < 8 \<or> udp_len \<noteq> length transport) InvalidIpLength
          (and_then (rd16 ports 0) (\<lambda>src.
           and_then (rd16 ports 2) (\<lambda>dst. Ok (src, dst, Udp))))))
     else if proto = IP_PROTOCOL_ICMP \<or> proto = IP_PROTOCOL_ICMPV6 then
       and_then (ok_or (slice_get transport 0 8) TruncatedTransportHeader) (\<lambda>icmp.
       and_then (rd8 icmp 0) (\<lambda>kind.
       and_then (rd8 icmp 1) (\<lambda>code.
         let supported = (if proto = IP_PROTOCOL_ICMP then kind = 0 \<or> kind = 8
                          else kind = 128 \<or> kind = 129) in
         guard_err (\<not> supported \<or> code \<noteq> 0) (UnsupportedIcmpType kind)
          (and_then (rd16 icmp 4) (\<lambda>identifier.
           and_then (rd16 icmp 0) (\<lambda>type_and_code.
             Ok (identifier, type_and_code,
                 if proto = IP_PROTOCOL_ICMP then Icmp else Icmpv6)))))))
     else Err (UnsupportedProtocol proto))"

definition build_flow_key ::
  "ip_addr \<Rightarrow> ip_addr \<Rightarrow> u8 \<Rightarrow> bytes \<Rightarrow> (flow_key, packet_error) result" where
  "build_flow_key src dst proto transport =
    and_then (transport_ports proto transport) (\<lambda>(src_port, dst_port, tp).
      Ok \<lparr> source = src, destination = dst, source_port = src_port,
           destination_port = dst_port, protocol = tp \<rparr>)"

definition ipv4_at :: "bytes \<Rightarrow> nat \<Rightarrow> (ip_addr, packet_error) result" where
  "ipv4_at p i = and_then (slice_at p i (i + 4)) (\<lambda>o4. Ok (V4 (from_be_bytes o4)))"

definition ipv6_at :: "bytes \<Rightarrow> nat \<Rightarrow> (ip_addr, packet_error) result" where
  "ipv6_at p i = and_then (slice_at p i (i + 16)) (\<lambda>o16. Ok (V6 (from_be_bytes o16)))"

definition parse_ipv4_flow_key :: "bytes \<Rightarrow> (flow_key, packet_error) result" where
  "parse_ipv4_flow_key p =
    and_then (ipv4_lengths p) (\<lambda>(header_len, total_len).
    and_then (rd16 p 6) (\<lambda>fragment.
    guard_err (fragment AND 0x3fff \<noteq> 0) NonInitialFragment
     (and_then (ipv4_at p 12) (\<lambda>src.
      and_then (ipv4_at p 16) (\<lambda>dst.
      and_then (rd8 p 9) (\<lambda>proto.
      and_then (slice_at p header_len total_len) (\<lambda>transport.
        build_flow_key src dst proto transport)))))))"

definition parse_ipv6_flow_key :: "bytes \<Rightarrow> (flow_key, packet_error) result" where
  "parse_ipv6_flow_key p =
    and_then (ipv6_length p) (\<lambda>total_len.
    and_then (ipv6_at p 8) (\<lambda>src.
    and_then (ipv6_at p 24) (\<lambda>dst.
    and_then (rd8 p 6) (\<lambda>next_header.
    and_then (ipv6_transport_offset 8 p total_len next_header 40) (\<lambda>(proto, transport_offset).
    and_then (slice_at p transport_offset total_len) (\<lambda>transport.
      build_flow_key src dst proto transport))))))"

definition parse_flow_key :: "bytes \<Rightarrow> (flow_key, packet_error) result" where
  "parse_flow_key p =
    and_then (ip_version p) (\<lambda>version.
      if version = 4 then parse_ipv4_flow_key p
      else if version = 6 then parse_ipv6_flow_key p
      else Err (UnsupportedIpVersion version))"

section \<open>UDP payload and TCP options\<close>

definition validate_udp_layout :: "bytes \<Rightarrow> nat \<Rightarrow> nat \<Rightarrow> (nat, packet_error) result" where
  "validate_udp_layout p transport_offset total_len =
    and_then (ok_or (slice_get p transport_offset (transport_offset + 8)) TruncatedTransportHeader)
     (\<lambda>header.
      and_then (rd16 header 4) (\<lambda>l.
        let udp_len = unat l in
        guard_err (udp_len < 8) InvalidIpLength
         (guard_err (transport_offset + udp_len \<noteq> total_len) InvalidIpLength
          (guard_err (length p < transport_offset + udp_len) InvalidIpLength (Ok udp_len)))))"

definition udp_payload_range :: "bytes \<Rightarrow> (nat \<times> nat, packet_error) result" where
  "udp_payload_range p =
    and_then (transport_metadata p) (\<lambda>(proto, transport_offset, total_len).
      guard_err (proto \<noteq> IP_PROTOCOL_UDP) (UnsupportedProtocol proto)
       (and_then (validate_udp_layout p transport_offset total_len) (\<lambda>udp_len.
          Ok (transport_offset + 8, transport_offset + udp_len))))"

definition udp_payload :: "bytes \<Rightarrow> (bytes, packet_error) result" where
  "udp_payload p = and_then (udp_payload_range p) (\<lambda>(a, b). slice_at p a b)"

definition parse_tcp_flags :: "bytes \<Rightarrow> (u8 option, packet_error) result" where
  "parse_tcp_flags p =
    and_then (transport_metadata p) (\<lambda>(proto, transport_offset, total_len).
      if proto \<noteq> IP_PROTOCOL_TCP then Ok None
      else
        and_then (ok_or (slice_get p transport_offset (transport_offset + 20))
                    TruncatedTransportHeader) (\<lambda>header.
        and_then (rd8 header 12) (\<lambda>b.
          let header_len = unat (drop_bit 4 b) * 4 in
          guard_err (header_len < 20 \<or> total_len < transport_offset + header_len)
            TruncatedTransportHeader
           (and_then (rd8 header 13) (\<lambda>flags. Ok (Some flags))))))"

text \<open>The loop over the TCP options of a SYN.\<close>

function clamp_options ::
  "bytes \<Rightarrow> u16 \<Rightarrow> nat \<Rightarrow> nat \<Rightarrow> bool \<Rightarrow> (bytes \<times> bool, packet_error) result" where
  "clamp_options p max_mss opt_offset opt_end modified =
    (if opt_offset < opt_end then
       and_then (rd8 p opt_offset) (\<lambda>kind.
         if kind = 0 then Ok (p, modified)
         else if kind = 1 then clamp_options p max_mss (opt_offset + 1) opt_end modified
         else if opt_end \<le> opt_offset + 1 then Ok (p, modified)
         else
           and_then (rd8 p (opt_offset + 1)) (\<lambda>l.
             let len = unat l in
             if len < 2 \<or> opt_end < opt_offset + len then Ok (p, modified)
             else
               and_then
                 (if kind = 2 \<and> len = 4 then
                    and_then (rd16 p (opt_offset + 2)) (\<lambda>current_mss.
                      if max_mss < current_mss
                      then and_then (put p (opt_offset + 2) (to_be_bytes 2 max_mss)) (\<lambda>q. Ok (q, True))
                      else Ok (p, modified))
                  else Ok (p, modified)) (\<lambda>(q, m).
                 clamp_options q max_mss (opt_offset + len) opt_end m)))
     else Ok (p, modified))"
  by pat_completeness auto
termination
  by (relation "measure (\<lambda>(p, max_mss, opt_offset, opt_end, modified). opt_end - opt_offset)")
    (auto simp: Let_def)

declare clamp_options.simps [simp del]

definition clamp_tcp_mss :: "bytes \<Rightarrow> u16 \<Rightarrow> (bytes \<times> bool, packet_error) result" where
  "clamp_tcp_mss p max_mss =
    and_then (transport_metadata p) (\<lambda>(proto, transport_offset, total_len).
      if proto \<noteq> IP_PROTOCOL_TCP then Ok (p, False)
      else
        and_then (ok_or (slice_get p transport_offset (transport_offset + 20))
                    TruncatedTransportHeader) (\<lambda>header.
        and_then (rd8 header 13) (\<lambda>flags.
          if flags AND 0x02 = 0 then Ok (p, False)
          else
            and_then (rd8 header 12) (\<lambda>b.
              let header_len = unat (drop_bit 4 b) * 4 in
              guard_err (header_len < 20 \<or> total_len < transport_offset + header_len)
                TruncatedTransportHeader
                (clamp_options p max_mss (transport_offset + 20) (transport_offset + header_len)
                   False)))))"

text \<open>\<open>Vec::resize(n, 0)\<close> and the conversions to \<open>u16\<close>, which fail above 65535.\<close>

definition resize :: "bytes \<Rightarrow> nat \<Rightarrow> bytes" where
  "resize p n = take n p @ replicate (n - length p) 0"

definition try_u16 :: "nat \<Rightarrow> (u16, packet_error) result" where
  "try_u16 n = guard_err (65535 < n) InvalidIpLength (Ok (word_of_nat n))"

definition ensure_udp_payload_len :: "bytes \<Rightarrow> nat \<Rightarrow> (bytes, packet_error) result" where
  "ensure_udp_payload_len p minimum =
    and_then (transport_metadata p) (\<lambda>(proto, transport_offset, total_len).
      guard_err (proto \<noteq> IP_PROTOCOL_UDP) (UnsupportedProtocol proto)
       (and_then (validate_udp_layout p transport_offset total_len) (\<lambda>udp_len.
        and_then (csub udp_len 8) (\<lambda>payload_len.
          if minimum \<le> payload_len then Ok p
          else
            let missing = minimum - payload_len in
            and_then (try_u16 (udp_len + missing)) (\<lambda>new_udp_len.
            and_then (put (resize p (total_len + missing)) (transport_offset + 4)
                        (to_be_bytes 2 new_udp_len)) (\<lambda>q.
            and_then (rd8 q 0) (\<lambda>b0.
              let version = drop_bit 4 b0 in
              if version = 4 then
                and_then (try_u16 (total_len + missing)) (\<lambda>new_total_len.
                  put q 2 (to_be_bytes 2 new_total_len))
              else if version = 6 then
                guard_err (total_len < 40) InvalidIpLength
                 (and_then (try_u16 (total_len - 40 + missing)) (\<lambda>new_payload_len.
                    put q 4 (to_be_bytes 2 new_payload_len)))
              else Err (UnsupportedIpVersion version))))))))"

section \<open>What the readers establish\<close>

lemma ip_version_Ok [res_simps]: "ip_version p = Ok v \<longleftrightarrow> p \<noteq> [] \<and> v = drop_bit 4 (p ! 0)"
  by (auto simp: ip_version_def res_simps buf_simps)

lemma ip_version_no_panic [no_panic]: "ip_version p \<noteq> Panic"
  by (simp add: ip_version_def res_simps)

lemma ipv4_lengths_Ok [res_simps]:
  "ipv4_lengths p = Ok (h, t) \<longleftrightarrow>
    20 \<le> length p \<and> h = unat (p ! 0 AND 0x0f) * 4 \<and> 20 \<le> h \<and> h \<le> length p \<and>
    t = unat (be16 (p ! 2) (p ! 3)) \<and> h \<le> t \<and> t \<le> length p"
  by (auto simp: ipv4_lengths_def res_simps Let_def not_less)

lemma ipv4_lengths_no_panic [no_panic]: "ipv4_lengths p \<noteq> Panic"
  by (auto simp: ipv4_lengths_def res_simps Let_def)

lemma ipv6_length_Ok [res_simps]:
  "ipv6_length p = Ok t \<longleftrightarrow> 40 \<le> length p \<and> t = 40 + unat (be16 (p ! 4) (p ! 5)) \<and> t \<le> length p"
  by (auto simp: ipv6_length_def res_simps Let_def not_less)

lemma ipv6_length_no_panic [no_panic]: "ipv6_length p \<noteq> Panic"
  by (auto simp: ipv6_length_def res_simps Let_def)

lemma skip_extension_Ok:
  assumes "skip_extension p total_len offset octets = Ok (n, o')"
  shows "offset \<le> o'" and "o' \<le> total_len" and "offset + 2 \<le> length p"
    and "n = p ! offset" and "o' = offset + octets (p ! (offset + 1))"
  using assms by (auto simp: skip_extension_def res_simps buf_simps Let_def)

lemma skip_extension_no_panic [no_panic]: "skip_extension p total_len offset octets \<noteq> Panic"
  by (auto simp: skip_extension_def res_simps buf_simps Let_def)

lemma ipv6_transport_offset_Ok:
  assumes "ipv6_transport_offset n p total_len next_header offset = Ok (proto, o')"
    and "offset \<le> total_len"
  shows "offset \<le> o' \<and> o' \<le> total_len"
  using assms
proof (induction n arbitrary: next_header offset)
  case (Suc n)
  have step: "offset \<le> o' \<and> o' \<le> total_len"
    if sk: "skip_extension p total_len offset octets = Ok (nh, o1)"
      and "ipv6_transport_offset n p total_len nh o1 = Ok (proto, o')" for octets nh o1
    using skip_extension_Ok(1,2) [OF sk] Suc.IH [OF that(2)] by simp
  show ?case
    using Suc.prems by (auto simp: res_simps split: if_splits dest: step)
qed simp

lemma ipv6_transport_offset_no_panic [no_panic]:
  "ipv6_transport_offset n p total_len next_header offset \<noteq> Panic"
  by (induction n arbitrary: next_header offset)
    (auto simp: res_simps skip_extension_no_panic split: prod.splits)

lemma ipv6_has_fragment_header_no_panic [no_panic]:
  "ipv6_has_fragment_header n p total_len next_header offset \<noteq> Panic"
  by (induction n arbitrary: next_header offset)
    (auto simp: res_simps skip_extension_no_panic split: prod.splits)

lemma ip_packet_is_fragmented_no_panic [no_panic]: "ip_packet_is_fragmented p \<noteq> Panic"
  by (auto simp: ip_packet_is_fragmented_def res_simps no_panic split: if_splits)

text \<open>The transport header starts inside the packet, and the packet is all there.\<close>

lemma transport_metadata_Ok:
  assumes "transport_metadata p = Ok (proto, o', t)"
  shows "20 \<le> o'" and "o' \<le> t" and "t \<le> length p" and "p \<noteq> []"
    and "drop_bit 4 (p ! 0) = 4 \<or> drop_bit 4 (p ! 0) = 6"
    and "drop_bit 4 (p ! 0) = 4 \<Longrightarrow> ipv4_lengths p = Ok (o', t) \<and> proto = p ! 9"
    and "drop_bit 4 (p ! 0) = 6 \<Longrightarrow> ipv6_length p = Ok t \<and> 40 \<le> o' \<and>
      ipv6_transport_offset 8 p t (p ! 6) 40 = Ok (proto, o')"
proof -
  have c: "p \<noteq> [] \<and> (drop_bit 4 (p ! 0) = 4 \<and> ipv4_lengths p = Ok (o', t) \<and> proto = p ! 9 \<or>
      drop_bit 4 (p ! 0) = 6 \<and> ipv6_length p = Ok t \<and>
      ipv6_transport_offset 8 p t (p ! 6) 40 = Ok (proto, o'))"
    using assms by (auto simp: transport_metadata_def and_then_eq_Ok ip_version_Ok rd8_eq_Ok split: if_splits)
  have six: "40 \<le> o' \<and> o' \<le> t" if "ipv6_length p = Ok t"
      "ipv6_transport_offset 8 p t (p ! 6) 40 = Ok (proto, o')"
    using ipv6_transport_offset_Ok [OF that(2)] that(1) by (simp add: ipv6_length_Ok)
  show "20 \<le> o'" "o' \<le> t" "t \<le> length p"
    using c six by (auto simp: ipv4_lengths_Ok ipv6_length_Ok)
  show "p \<noteq> []" and "drop_bit 4 (p ! 0) = 4 \<or> drop_bit 4 (p ! 0) = 6" using c by auto
  show "drop_bit 4 (p ! 0) = 4 \<Longrightarrow> ipv4_lengths p = Ok (o', t) \<and> proto = p ! 9"
    and "drop_bit 4 (p ! 0) = 6 \<Longrightarrow> ipv6_length p = Ok t \<and> 40 \<le> o' \<and>
      ipv6_transport_offset 8 p t (p ! 6) 40 = Ok (proto, o')"
    using c six by auto
qed

lemma transport_metadata_no_panic [no_panic]: "transport_metadata p \<noteq> Panic"
  by (auto simp: transport_metadata_def res_simps no_panic split: if_splits prod.splits)

lemma transport_ports_no_panic [no_panic]: "transport_ports proto transport \<noteq> Panic"
  by (auto simp: transport_ports_def res_simps buf_simps Let_def)

lemma build_flow_key_no_panic [no_panic]: "build_flow_key src dst proto transport \<noteq> Panic"
  by (auto simp: build_flow_key_def res_simps no_panic split: prod.splits)

lemma ipv4_at_in: "i + 4 \<le> length p \<Longrightarrow> ipv4_at p i = Ok (V4 (from_be_bytes (take 4 (drop i p))))"
  by (simp add: ipv4_at_def slice_at_in)

lemma ipv6_at_in: "i + 16 \<le> length p \<Longrightarrow> ipv6_at p i = Ok (V6 (from_be_bytes (take 16 (drop i p))))"
  by (simp add: ipv6_at_def slice_at_in)

lemma parse_flow_key_no_panic [no_panic]: "parse_flow_key p \<noteq> Panic"
proof -
  have "parse_ipv4_flow_key p \<noteq> Panic"
    by (auto simp: parse_ipv4_flow_key_def and_then_eq_Panic guard_err_eq_Panic ipv4_lengths_Ok
        rd8_eq_Panic rd16_eq_Panic slice_at_eq_Panic ipv4_at_in no_panic)
  moreover have "parse_ipv6_flow_key p \<noteq> Panic"
    by (auto simp: parse_ipv6_flow_key_def and_then_eq_Panic ipv6_length_Ok rd8_eq_Panic
        slice_at_eq_Panic ipv6_at_in no_panic dest: ipv6_transport_offset_Ok)
  ultimately show ?thesis by (auto simp: parse_flow_key_def res_simps no_panic)
qed

lemma validate_udp_layout_Ok:
  assumes "validate_udp_layout p o' t = Ok l"
  shows "8 \<le> l" and "o' + l = t" and "t \<le> length p" and "l = unat (be16 (p ! (o' + 4)) (p ! (o' + 5)))"
  using assms by (auto simp: validate_udp_layout_def res_simps buf_simps Let_def)

lemma validate_udp_layout_no_panic [no_panic]: "validate_udp_layout p o' t \<noteq> Panic"
  by (auto simp: validate_udp_layout_def res_simps buf_simps Let_def)

lemma udp_payload_range_OkE:
  assumes "udp_payload_range p = Ok (a, b)"
  obtains o' t where "transport_metadata p = Ok (IP_PROTOCOL_UDP, o', t)"
    and "validate_udp_layout p o' t = Ok (t - o')" and "a = o' + 8" and "b = t"
    and "a \<le> b" and "b \<le> length p"
proof -
  obtain o' t l where m: "transport_metadata p = Ok (IP_PROTOCOL_UDP, o', t)"
    and v: "validate_udp_layout p o' t = Ok l" and "a = o' + 8" "b = o' + l"
    using assms by (auto simp: udp_payload_range_def and_then_eq_Ok guard_err_eq_Ok)
  then show ?thesis using that [of o' t] validate_udp_layout_Ok [OF v] by auto
qed

lemma udp_payload_no_panic [no_panic]: "udp_payload p \<noteq> Panic"
proof -
  have "udp_payload_range p \<noteq> Panic"
    by (auto simp: udp_payload_range_def res_simps no_panic split: prod.splits)
  then show ?thesis
    by (auto simp: udp_payload_def and_then_eq_Panic slice_at_eq_Panic elim: udp_payload_range_OkE)
qed

lemma parse_tcp_flags_no_panic [no_panic]: "parse_tcp_flags p \<noteq> Panic"
  by (auto simp: parse_tcp_flags_def res_simps buf_simps Let_def no_panic split: if_splits prod.splits)

section \<open>Clamping the maximum segment size\<close>

text \<open>The segment sizes announced by a list of TCP options, read the way the clamp walks them.\<close>

function mss_options :: "bytes \<Rightarrow> nat \<Rightarrow> nat \<Rightarrow> u16 list" where
  "mss_options p i e =
    (if i < e then
       if p ! i = 0 then []
       else if p ! i = 1 then mss_options p (i + 1) e
       else if e \<le> i + 1 then []
       else if unat (p ! (i + 1)) < 2 \<or> e < i + unat (p ! (i + 1)) then []
       else (if p ! i = 2 \<and> unat (p ! (i + 1)) = 4 then [be16 (p ! (i + 2)) (p ! (i + 3))] else [])
            @ mss_options p (i + unat (p ! (i + 1))) e
     else [])"
  by pat_completeness auto
termination
  by (relation "measure (\<lambda>(p, i, e). e - i)") auto

declare mss_options.simps [simp del]

lemma mss_options_cong:
  assumes "\<And>k. i \<le> k \<Longrightarrow> k < e \<Longrightarrow> p ! k = q ! k"
  shows "mss_options p i e = mss_options q i e"
  using assms
proof (induction p i e rule: mss_options.induct)
  case (1 p i e)
  show ?case
  proof (cases "i < e \<and> p ! i \<noteq> 0")
    case True
    then have i: "q ! i = p ! i" and i1: "i + 1 < e \<Longrightarrow> q ! (i + 1) = p ! (i + 1)"
      using 1(3) [of i] 1(3) [of "i + 1"] by auto
    show ?thesis
    proof (cases "p ! i = 1")
      case one: True
      have "mss_options p (i + 1) e = mss_options q (i + 1) e"
        by (rule 1(1)) (use True one in \<open>auto intro!: 1(3)\<close>)
      then show ?thesis using True one i by (simp add: mss_options.simps [of p i] mss_options.simps [of q i])
    next
      case nop: False
      show ?thesis
      proof (cases "e \<le> i + 1 \<or> unat (p ! (i + 1)) < 2 \<or> e < i + unat (p ! (i + 1))")
        case stop: True
        then show ?thesis using True nop i i1
          by (auto simp: mss_options.simps [of p i] mss_options.simps [of q i])
      next
        case go: False
        have "mss_options p (i + unat (p ! (i + 1))) e = mss_options q (i + unat (p ! (i + 1))) e"
          by (rule 1(2)) (use True nop go in \<open>auto intro!: 1(3)\<close>)
        moreover have "unat (p ! (i + 1)) = 4 \<Longrightarrow> q ! (i + 2) = p ! (i + 2) \<and> q ! (i + 3) = p ! (i + 3)"
          using 1(3) [of "i + 2"] 1(3) [of "i + 3"] go by auto
        ultimately show ?thesis using True nop go i i1
          by (simp add: mss_options.simps [of p i] mss_options.simps [of q i])
      qed
    qed
  next
    case False
    then show ?thesis using 1(3) [of i]
      by (auto simp: mss_options.simps [of p i] mss_options.simps [of q i])
  qed
qed

definition clamp_option ::
  "bytes \<Rightarrow> u16 \<Rightarrow> nat \<Rightarrow> bool \<Rightarrow> (bytes \<times> bool, packet_error) result" where
  "clamp_option p max_mss i modified =
    (if p ! i = 2 \<and> unat (p ! (i + 1)) = 4 then
       and_then (rd16 p (i + 2)) (\<lambda>current_mss.
         if max_mss < current_mss
         then and_then (put p (i + 2) (to_be_bytes 2 max_mss)) (\<lambda>q. Ok (q, True))
         else Ok (p, modified))
     else Ok (p, modified))"

lemma clamp_option_spec:
  assumes "i + unat (p ! (i + 1)) \<le> length p"
  shows "\<exists>q m. clamp_option p max_mss i modified = Ok (q, m) \<and> length q = length p \<and>
    (\<forall>k. k < i + 2 \<or> i + unat (p ! (i + 1)) \<le> k \<longrightarrow> q ! k = p ! k) \<and>
    (p ! i = 2 \<and> unat (p ! (i + 1)) = 4 \<longrightarrow>
       be16 (q ! (i + 2)) (q ! (i + 3)) = min max_mss (be16 (p ! (i + 2)) (p ! (i + 3)))) \<and>
    (m \<longleftrightarrow> modified \<or> p ! i = 2 \<and> unat (p ! (i + 1)) = 4 \<and>
       max_mss < be16 (p ! (i + 2)) (p ! (i + 3))) \<and> (m \<or> q = p)"
proof (cases "p ! i = 2 \<and> unat (p ! (i + 1)) = 4 \<and> max_mss < be16 (p ! (i + 2)) (p ! (i + 3))")
  case True
  let ?q = "splice p (i + 2) (to_be_bytes 2 max_mss)"
  have "i + 4 \<le> length p" using assms True by simp
  then have "clamp_option p max_mss i modified = Ok (?q, True)" and "length ?q = length p"
    and "\<forall>k. k < i + 2 \<or> i + 4 \<le> k \<longrightarrow> ?q ! k = p ! k"
    and "?q ! (i + 2) = to_be_bytes 2 max_mss ! 0" and "?q ! (i + 3) = to_be_bytes 2 max_mss ! 1"
    using True by (simp_all add: clamp_option_def rd16_in put_in nth_splice length_splice
        numeral_3_eq_3 numeral_2_eq_2)
  then show ?thesis
    using True be16_to_be_bytes [of max_mss] by (intro exI [of _ ?q] exI [of _ True]) auto
next
  case False
  then have "clamp_option p max_mss i modified = Ok (p, modified)"
    using assms by (auto simp: clamp_option_def rd16_in numeral_3_eq_3 numeral_2_eq_2)
  then show ?thesis using False by (auto simp: min_def)
qed

text \<open>What the clamp owes: only the segment sizes change, each to the smaller of the two.\<close>

definition clamped :: "bytes \<Rightarrow> bytes \<Rightarrow> u16 \<Rightarrow> nat \<Rightarrow> nat \<Rightarrow> bool \<Rightarrow> bool \<Rightarrow> bool" where
  "clamped p q max_mss i e modified m \<longleftrightarrow> length q = length p \<and>
    (\<forall>k. k < i \<or> e \<le> k \<longrightarrow> q ! k = p ! k) \<and>
    mss_options q i e = map (min max_mss) (mss_options p i e) \<and>
    (m \<longleftrightarrow> modified \<or> (\<exists>v\<in>set (mss_options p i e). max_mss < v)) \<and> (m \<or> q = p)"

lemma clamped_stop: "mss_options p i e = [] \<Longrightarrow> clamped p p max_mss i e modified modified"
  by (simp add: clamped_def)

lemma mss_options_nop: "i < e \<Longrightarrow> p ! i = 1 \<Longrightarrow> mss_options p i e = mss_options p (i + 1) e"
  by (simp add: mss_options.simps [of p i])

lemma mss_options_opt:
  "i + 1 < e \<Longrightarrow> p ! i \<noteq> 0 \<Longrightarrow> p ! i \<noteq> 1 \<Longrightarrow> 2 \<le> unat (p ! (i + 1)) \<Longrightarrow> i + unat (p ! (i + 1)) \<le> e \<Longrightarrow>
    mss_options p i e =
      (if p ! i = 2 \<and> unat (p ! (i + 1)) = 4 then [be16 (p ! (i + 2)) (p ! (i + 3))] else [])
      @ mss_options p (i + unat (p ! (i + 1))) e"
  by (simp add: mss_options.simps [of p i])

lemma clamped_nop:
  assumes "i < e" and "p ! i = 1" and "clamped p q max_mss (i + 1) e modified m"
  shows "clamped p q max_mss i e modified m"
proof -
  have "q ! i = 1" using assms(2,3) by (simp add: clamped_def)
  then show ?thesis
    using assms mss_options_nop [OF assms(1), of p] mss_options_nop [OF assms(1), of q]
    unfolding clamped_def by auto
qed

lemma clamped_opt:
  assumes "i + 1 < e" "p ! i \<noteq> 0" "p ! i \<noteq> 1" "2 \<le> unat (p ! (i + 1))" "i + unat (p ! (i + 1)) \<le> e"
    and "e \<le> length p" and "clamp_option p max_mss i modified = Ok (p1, m1)"
    and "clamped p1 q max_mss (i + unat (p ! (i + 1))) e m1 m"
  shows "clamped p q max_mss i e modified m"
proof -
  let ?j = "i + unat (p ! (i + 1))" and ?mss = "p ! i = 2 \<and> unat (p ! (i + 1)) = 4"
  have p1: "length p1 = length p" "\<forall>k. k < i + 2 \<or> ?j \<le> k \<longrightarrow> p1 ! k = p ! k"
    "?mss \<Longrightarrow> be16 (p1 ! (i + 2)) (p1 ! (i + 3)) = min max_mss (be16 (p ! (i + 2)) (p ! (i + 3)))"
    "m1 \<longleftrightarrow> modified \<or> ?mss \<and> max_mss < be16 (p ! (i + 2)) (p ! (i + 3))" "m1 \<or> p1 = p"
    using clamp_option_spec [of i p max_mss modified] assms(5,6,7) by auto
  have c: "length q = length p1" "\<forall>k. k < ?j \<or> e \<le> k \<longrightarrow> q ! k = p1 ! k"
    "mss_options q ?j e = map (min max_mss) (mss_options p1 ?j e)"
    "m \<longleftrightarrow> m1 \<or> (\<exists>v\<in>set (mss_options p1 ?j e). max_mss < v)" "m \<or> q = p1"
    using assms(8) by (auto simp: clamped_def)
  have rest: "mss_options p1 ?j e = mss_options p ?j e"
    using p1(2) by (intro mss_options_cong) simp
  have head: "q ! i = p ! i" "q ! (i + 1) = p ! (i + 1)"
    using c(2) p1(2) assms(4) by auto
  have mss: "?mss \<Longrightarrow> be16 (q ! (i + 2)) (q ! (i + 3)) = min max_mss (be16 (p ! (i + 2)) (p ! (i + 3)))"
    using c(2) p1(3) by simp
  have "mss_options q i e = map (min max_mss) (mss_options p i e)"
    using mss_options_opt [of i e p] mss_options_opt [of i e q] assms(1-5) head mss c(3) rest by simp
  moreover have "m \<longleftrightarrow> modified \<or> (\<exists>v\<in>set (mss_options p i e). max_mss < v)"
    using mss_options_opt [of i e p] assms(1-5) p1(4) c(4) rest by auto
  moreover have "\<forall>k. k < i \<or> e \<le> k \<longrightarrow> q ! k = p ! k"
    using c(2) p1(2) assms(4,5) by auto
  ultimately show ?thesis using c(1,4,5) p1(1,4,5) unfolding clamped_def by auto
qed

lemma clamp_options_clamped:
  assumes "e \<le> length p"
  shows "\<exists>q m. clamp_options p max_mss i e modified = Ok (q, m) \<and> clamped p q max_mss i e modified m"
  using assms
proof (induction p max_mss i e modified rule: clamp_options.induct)
  case (1 p max_mss i e modified)
  show ?case
  proof (cases "i < e \<and> p ! i \<noteq> 0")
    case False
    then have "clamp_options p max_mss i e modified = Ok (p, modified)" "mss_options p i e = []"
      using 1(3) by (auto simp: clamp_options.simps [of p] mss_options.simps [of p i] rd8_in)
    then show ?thesis using clamped_stop by blast
  next
    case ne: True
    then have kind: "(rd8 p i :: (u8, packet_error) result) = Ok (p ! i)" using 1(3) by (simp add: rd8_in)
    show ?thesis
    proof (cases "p ! i = 1")
      case True
      then have "clamp_options p max_mss i e modified = clamp_options p max_mss (i + 1) e modified"
        using ne kind by (simp add: clamp_options.simps [of p _ i])
      then show ?thesis using 1(1) [OF _ kind] 1(3) ne True clamped_nop by auto
    next
      case nop: False
      show ?thesis
      proof (cases "e \<le> i + 1 \<or> unat (p ! (i + 1)) < 2 \<or> e < i + unat (p ! (i + 1))")
        case True
        then have "clamp_options p max_mss i e modified = Ok (p, modified)" "mss_options p i e = []"
          using ne nop kind 1(3)
          by (auto simp: clamp_options.simps [of p _ i] mss_options.simps [of p i] rd8_in)
        then show ?thesis using clamped_stop by blast
      next
        case go: False
        then have l: "(rd8 p (i + 1) :: (u8, packet_error) result) = Ok (p ! (i + 1))" using 1(3) by (simp add: rd8_in)
        obtain p1 m1 where mid: "clamp_option p max_mss i modified = Ok (p1, m1)"
          and len: "length p1 = length p"
          using clamp_option_spec [of i p max_mss modified] go 1(3) by auto
        let ?j = "i + unat (p ! (i + 1))"
        have "clamp_options p max_mss i e modified = clamp_options p1 max_mss ?j e m1"
          using ne nop go kind l mid
          by (simp add: clamp_options.simps [of p _ i] Let_def clamp_option_def)
        moreover have "\<exists>q m. clamp_options p1 max_mss ?j e m1 = Ok (q, m) \<and>
            clamped p1 q max_mss ?j e m1 m"
          using ne nop go l len 1(3) mid
          by (intro 1(2) [OF _ kind _ _ _ l refl _ _ refl]) (simp_all add: clamp_option_def)
        ultimately show ?thesis
          using clamped_opt [OF _ _ nop _ _ 1(3) mid] ne go by auto
      qed
    qed
  qed
qed

section \<open>Theorems\<close>

text \<open>
  No packet, however malformed, makes a reader of packets index out of range: the flow key
  parser, the fragment test, the transport metadata, the UDP payload and the TCP flags
  all return a value or an error.
\<close>

theorem packet_readers_total:
  "parse_flow_key p \<noteq> Panic \<and> ip_packet_is_fragmented p \<noteq> Panic \<and> transport_metadata p \<noteq> Panic \<and>
   udp_payload p \<noteq> Panic \<and> parse_tcp_flags p \<noteq> Panic"
  by (simp add: no_panic)

text \<open>
  Clamping the segment size of a SYN keeps the packet's length and every byte outside the
  TCP options, lowers each announced maximum segment size to at most the limit and leaves
  smaller ones alone, and reports a change exactly when one was above the limit.
\<close>

theorem clamp_tcp_mss_correct:
  assumes "transport_metadata p = Ok (IP_PROTOCOL_TCP, a, t)"
    and "a + 20 \<le> t" and "p ! (a + 13) AND 0x02 \<noteq> 0"
    and "n = unat (drop_bit 4 (p ! (a + 12))) * 4" and "20 \<le> n" and "a + n \<le> t"
  shows "\<exists>q m. clamp_tcp_mss p max_mss = Ok (q, m) \<and> length q = length p \<and>
    (\<forall>k. k < a + 20 \<or> a + n \<le> k \<longrightarrow> q ! k = p ! k) \<and>
    mss_options q (a + 20) (a + n) = map (min max_mss) (mss_options p (a + 20) (a + n)) \<and>
    (m \<longleftrightarrow> (\<exists>v\<in>set (mss_options p (a + 20) (a + n)). max_mss < v))"
proof -
  have t: "t \<le> length p" using transport_metadata_Ok(3) [OF assms(1)] .
  then have "clamp_tcp_mss p max_mss = clamp_options p max_mss (a + 20) (a + n) False"
    using assms by (simp add: clamp_tcp_mss_def slice_get_def rd8_in)
  moreover obtain q m where "clamp_options p max_mss (a + 20) (a + n) False = Ok (q, m)"
      and "clamped p q max_mss (a + 20) (a + n) False m"
    using clamp_options_clamped [of "a + n" p max_mss "a + 20" False] assms(6) t by auto
  ultimately show ?thesis unfolding clamped_def by auto
qed

definition sample_syn :: bytes where
  "sample_syn = [0x45, 0, 0, 44, 0, 0, 0, 0, 64, 6, 0, 0, 10, 0, 0, 1, 10, 0, 0, 2,
     0, 80, 0, 81, 0, 0, 0, 0, 0, 0, 0, 0, 0x60, 2, 0, 0, 0, 0, 0, 0, 2, 4, 5, 180]"

end
