(* ===== verification/Checksum.thy ===== *)
theory Checksum
  imports Packet
begin

text \<open>
  The Internet checksum (\<open>checksum_add\<close>, \<open>checksum_finish\<close>, \<open>internet_checksum\<close> of
  \<open>flow_plane/packet.rs\<close>) on 32-bit sums, and the one's complement arithmetic behind it:
  as long as the 32-bit sum does not overflow, the folded result is zero exactly when the
  sum is a positive multiple of 65535, and filling a zeroed checksum field with the result
  makes it so.
\<close>

section \<open>Model\<close>

fun checksum_add :: "u32 \<Rightarrow> bytes \<Rightarrow> u32" where
  "checksum_add acc (a # b # bs) = checksum_add (acc + ucast (be16 a b)) bs"
| "checksum_add acc [a] = acc + push_bit 8 (ucast a)"
| "checksum_add acc [] = acc"

text \<open>The loop ends because folding makes a sum above 65535 smaller.\<close>

lemma unat_high_half: "unat (drop_bit 16 acc) = unat acc div 65536" for acc :: u32
  by (simp add: unat_drop_bit_eq drop_bit_eq_div [where 'a = nat])

lemma high_half_0_iff: "drop_bit 16 acc = 0 \<longleftrightarrow> unat acc div 65536 = 0" for acc :: u32
  using unat_high_half [of acc] by (metis unat_eq_zero)

lemma fold_decreases:
  fixes acc :: u32
  assumes "drop_bit 16 acc \<noteq> 0"
  shows "unat ((acc AND 0xffff) + drop_bit 16 acc) < unat acc"
    and "unat ((acc AND 0xffff) + drop_bit 16 acc) = unat acc mod 65536 + unat acc div 65536"
proof -
  have m: "unat (acc AND 0xffff) = unat acc mod 65536"
  proof -
    have "acc AND 0xffff = take_bit 16 acc" by (simp add: take_bit_eq_mask mask_eq_exp_minus_1)
    then show ?thesis by (simp add: unsigned_take_bit_eq take_bit_eq_mod [where 'a = nat])
  qed
  note d = unat_high_half [of acc]
  have "unat acc div 65536 < 65536" using unat_u32_less [of acc] by (simp add: less_mult_imp_div_less)
  then have "unat acc mod 65536 + unat acc div 65536 < 4294967296"
    using mod_less_divisor [of 65536 "unat acc"] by linarith
  then show eq: "unat ((acc AND 0xffff) + drop_bit 16 acc) = unat acc mod 65536 + unat acc div 65536"
    using m d by (simp add: unat_plus_if_size word_size)
  have "unat acc div 65536 \<noteq> 0" using assms by (simp add: high_half_0_iff)
  moreover have "unat acc = 65536 * (unat acc div 65536) + unat acc mod 65536" by simp
  ultimately show "unat ((acc AND 0xffff) + drop_bit 16 acc) < unat acc"
    unfolding eq by linarith
qed

function checksum_fold :: "u32 \<Rightarrow> u32" where
  "checksum_fold acc =
    (if drop_bit 16 acc \<noteq> 0 then checksum_fold ((acc AND 0xffff) + drop_bit 16 acc) else acc)"
  by pat_completeness auto
termination
  by (relation "measure unat") (auto intro: fold_decreases(1))

declare checksum_fold.simps [simp del]

definition checksum_finish :: "u32 \<Rightarrow> u16" where
  "checksum_finish acc = NOT (ucast (checksum_fold acc))"

definition internet_checksum :: "bytes \<Rightarrow> u16" where
  "internet_checksum bs = checksum_finish (checksum_add 0 bs)"

definition encode_udp_zero_checksum :: "u8 \<Rightarrow> u16 \<Rightarrow> u16" where
  "encode_udp_zero_checksum proto checksum =
    (if proto = IP_PROTOCOL_UDP \<and> checksum = 0 then 0xffff else checksum)"

definition checksum_offset :: "u8 \<Rightarrow> (nat, packet_error) result" where
  "checksum_offset proto =
    (if proto = IP_PROTOCOL_TCP then Ok 16
     else if proto = IP_PROTOCOL_UDP then Ok 6
     else if proto = IP_PROTOCOL_ICMP \<or> proto = IP_PROTOCOL_ICMPV6 then Ok 2
     else Err (UnsupportedProtocol proto))"

section \<open>The sum as a number\<close>

fun sum16 :: "bytes \<Rightarrow> nat" where
  "sum16 (a # b # bs) = unat a * 256 + unat b + sum16 bs"
| "sum16 [a] = unat a * 256"
| "sum16 [] = 0"

lemma sum16_bound: "sum16 bs \<le> 65535 * ((length bs + 1) div 2)"
proof (induction bs rule: sum16.induct)
  case (1 a b bs)
  then show ?case using unat_u8_less [of a] unat_u8_less [of b] by simp
next
  case (2 a)
  then show ?case using unat_u8_less [of a] by simp
qed simp

lemma checksum_add_sum16:
  assumes "unat acc + sum16 bs < 4294967296"
  shows "unat (checksum_add acc bs) = unat acc + sum16 bs"
  using assms
proof (induction acc bs rule: checksum_add.induct)
  case (1 acc a b bs)
  have "unat (ucast (be16 a b) :: u32) = unat a * 256 + unat b"
    using unat_u16_less [of "be16 a b"] by (simp add: unat_ucast_fits unat_be16)
  then have "unat (acc + ucast (be16 a b)) = unat acc + (unat a * 256 + unat b)"
    using 1(2) by (simp add: unat_plus_if_size word_size)
  then show ?case using 1 by simp
next
  case (2 acc a)
  have "unat (push_bit 8 (ucast a) :: u32) = unat a * 256"
    using unat_u8_less [of a]
    by (simp add: unsigned_push_bit_eq unat_ucast_fits push_bit_eq_mult [where 'a = nat]
        take_bit_nat_eq_self_iff)
  then show ?case using 2 by (simp add: unat_plus_if_size word_size)
qed simp

section \<open>Folding\<close>

lemma fold_mod:
  "unat (checksum_fold acc) mod 65535 = unat acc mod 65535 \<and> unat (checksum_fold acc) < 65536 \<and>
   (checksum_fold acc = 0 \<longleftrightarrow> acc = 0)"
proof (induction acc rule: checksum_fold.induct)
  case (1 acc)
  show ?case
  proof (cases "drop_bit 16 acc = 0")
    case True
    then have "unat acc < 65536" by (simp add: high_half_0_iff div_eq_0_iff)
    then show ?thesis using True by (simp add: checksum_fold.simps [of acc])
  next
    case False
    let ?s = "(acc AND 0xffff) + drop_bit 16 acc"
    have eq: "unat ?s = unat acc mod 65536 + unat acc div 65536" by (rule fold_decreases(2) [OF False])
    have "unat acc = unat acc mod 65536 + unat acc div 65536 + 65535 * (unat acc div 65536)"
      by (simp add: ac_simps)
    then have "unat acc mod 65535 = unat ?s mod 65535" unfolding eq by (metis mod_mult_self2)
    moreover have "?s \<noteq> 0"
      using eq False unfolding high_half_0_iff by (metis add_is_0 unat_0)
    ultimately show ?thesis
      using 1 [OF False] False by (auto simp: checksum_fold.simps [of acc])
  qed
qed

lemma unat_not_u16: "unat (NOT w) = 65535 - unat w" for w :: u16
proof -
  have "unat (NOT w) + unat w = 65535"
  proof -
    have "NOT w = 0xffff - w" by (simp add: not_eq_complement)
    moreover have "unat (0xffff - w) = unat (0xffff :: u16) - unat w"
      using unat_u16_less [of w] by (intro unat_sub) (simp add: word_le_nat_alt)
    ultimately show ?thesis using unat_u16_less [of w] by simp
  qed
  then show ?thesis by simp
qed

lemma unat_checksum_finish: "unat (checksum_finish acc) = 65535 - unat (checksum_fold acc)"
proof -
  have "unat (ucast (checksum_fold acc) :: u16) = unat (checksum_fold acc)"
    using fold_mod [of acc] by (intro unat_ucast_fits) simp
  then show ?thesis by (simp add: checksum_finish_def unat_not_u16)
qed

lemma checksum_finish_eq_0: "checksum_finish acc = 0 \<longleftrightarrow> acc \<noteq> 0 \<and> unat acc mod 65535 = 0"
proof -
  have f: "unat (checksum_fold acc) < 65536" "unat (checksum_fold acc) mod 65535 = unat acc mod 65535"
    "checksum_fold acc = 0 \<longleftrightarrow> acc = 0" using fold_mod [of acc] by auto
  have "checksum_finish acc = 0 \<longleftrightarrow> unat (checksum_fold acc) = 65535"
    using f(1) unat_checksum_finish [of acc] unat_eq_zero [of "checksum_finish acc"] by auto
  also have "\<dots> \<longleftrightarrow> unat (checksum_fold acc) \<noteq> 0 \<and> unat (checksum_fold acc) mod 65535 = 0"
  proof
    assume a: "unat (checksum_fold acc) \<noteq> 0 \<and> unat (checksum_fold acc) mod 65535 = 0"
    then obtain k where "unat (checksum_fold acc) = 65535 * k" by (auto simp: mod_eq_0_iff_dvd dvd_def)
    then show "unat (checksum_fold acc) = 65535" using a f(1) by (cases k; cases "k - 1") auto
  qed simp
  finally show ?thesis using f by (simp add: unat_eq_zero)
qed

text \<open>The complement of the folded sum brings the total to a positive multiple of 65535.\<close>

lemma checksum_finish_balances:
  "(unat acc + unat (checksum_finish acc)) mod 65535 = 0"
  "unat acc + unat (checksum_finish acc) \<noteq> 0"
proof -
  have f: "unat (checksum_fold acc) < 65536" "unat (checksum_fold acc) mod 65535 = unat acc mod 65535"
    "checksum_fold acc = 0 \<longleftrightarrow> acc = 0" using fold_mod [of acc] by auto
  have "(unat acc + unat (checksum_finish acc)) mod 65535 =
      (unat (checksum_fold acc) + (65535 - unat (checksum_fold acc))) mod 65535"
    unfolding unat_checksum_finish by (metis f(2) mod_add_left_eq)
  then show "(unat acc + unat (checksum_finish acc)) mod 65535 = 0" using f(1) by simp
  show "unat acc + unat (checksum_finish acc) \<noteq> 0"
    using f(3) by (auto simp: unat_checksum_finish unat_eq_zero)
qed

lemma encode_balances:
  "(n + unat (encode_udp_zero_checksum proto c)) mod 65535 = (n + unat c) mod 65535"
  "n + unat c \<noteq> 0 \<Longrightarrow> n + unat (encode_udp_zero_checksum proto c) \<noteq> 0"
  by (auto simp: encode_udp_zero_checksum_def)

section \<open>Sums of buffers\<close>

lemma sum16_append: "even (length xs) \<Longrightarrow> sum16 (xs @ ys) = sum16 xs + sum16 ys"
  by (induction xs rule: sum16.induct) auto

text \<open>Filling in an aligned pair of zero octets adds its value.\<close>

lemma sum16_fill:
  fixes c :: u16
  assumes "even i" and "i + 2 \<le> length p" and "p ! i = 0" and "p ! (i + 1) = 0"
  shows "sum16 (splice p i (to_be_bytes 2 c)) = sum16 p + unat c"
proof -
  have len: "length (take i p) = i" using assms(2) by simp
  have "drop i p = p ! i # p ! (i + 1) # drop (i + 2) p"
    using assms(2) by (simp add: Cons_nth_drop_Suc)
  then have "p = take i p @ 0 # 0 # drop (i + 2) p"
    using assms(3,4) append_take_drop_id [of i p] by metis
  then have p: "sum16 p = sum16 (take i p) + sum16 (drop (i + 2) p)"
    using assms(1) len sum16_append [of "take i p" "0 # 0 # drop (i + 2) p"] by simp
  have "to_be_bytes 2 c = [to_be_bytes 2 c ! 0, to_be_bytes 2 c ! 1]"
    by (rule nth_equalityI) (auto simp: less_2_cases_iff)
  moreover have "unat (to_be_bytes 2 c ! 0) * 256 + unat (to_be_bytes 2 c ! 1) = unat c"
    using be16_to_be_bytes [of c] unat_be16 by metis
  ultimately have "sum16 (to_be_bytes 2 c @ drop (i + 2) p) = unat c + sum16 (drop (i + 2) p)"
    by (metis append_Cons append_Nil sum16.simps(1))
  then show ?thesis
    using p assms(1) len sum16_append [of "take i p"] by (simp add: splice_def)
qed

end
