(* ===== verification/Packet_Rewrite.thy ===== *)
theory Packet_Rewrite
  imports Checksum
begin

text \<open>
  Rewriting a packet to its translated flow, checking its checksums and preparing it for
  forwarding (\<open>rewrite_packet\<close>, \<open>validate_packet_checksums\<close>, \<open>prepare_forwarded_packet\<close> of
  \<open>flow_plane/packet.rs\<close>).
\<close>

section \<open>Model\<close>

text \<open>The 32-bit sums over pseudo header and transport segment, for IPv4 and IPv6.\<close>

definition transport_sum_ipv4 :: "bytes \<Rightarrow> nat \<Rightarrow> nat \<Rightarrow> u8 \<Rightarrow> (u32, packet_error) result" where
  "transport_sum_ipv4 p transport_offset total_len proto =
    and_then (slice_at p 12 20) (\<lambda>addresses.
    and_then (csub total_len transport_offset) (\<lambda>transport_len.
    and_then (slice_at p transport_offset total_len) (\<lambda>transport.
      Ok (checksum_add
            (checksum_add 0 addresses + ucast proto + word_of_nat transport_len) transport))))"

definition transport_sum_ipv6 :: "bytes \<Rightarrow> nat \<Rightarrow> nat \<Rightarrow> u8 \<Rightarrow> (u32, packet_error) result" where
  "transport_sum_ipv6 p transport_offset total_len proto =
    and_then (slice_at p 8 40) (\<lambda>addresses.
    and_then (csub total_len transport_offset) (\<lambda>transport_len.
    and_then (slice_at p transport_offset total_len) (\<lambda>transport.
      Ok (checksum_add
            (checksum_add
              (checksum_add (checksum_add 0 addresses) (to_be_bytes 4 (word_of_nat transport_len :: u32)))
              [0, 0, 0, proto]) transport))))"

definition zero_at :: "bytes \<Rightarrow> nat \<Rightarrow> bool" where
  "zero_at p i = (slice_get p i (i + 2) = Some [0, 0])"

definition validate_packet_checksums :: "bytes \<Rightarrow> (unit, packet_error) result" where
  "validate_packet_checksums p =
    and_then (transport_metadata p) (\<lambda>(proto, transport_offset, total_len).
    and_then (if proto = IP_PROTOCOL_UDP
              then and_then (validate_udp_layout p transport_offset total_len) (\<lambda>_. Ok ())
              else Ok ()) (\<lambda>_.
    and_then (rd8 p 0) (\<lambda>b0.
      let version = drop_bit 4 b0 in
      if version = 4 then
        and_then (slice_at p 0 transport_offset) (\<lambda>header.
        guard_err (internet_checksum header \<noteq> 0) InvalidIpChecksum
         (if proto = IP_PROTOCOL_UDP \<and> zero_at p (transport_offset + 6) then Ok ()
          else
            and_then
              (if proto = IP_PROTOCOL_ICMP
               then and_then (slice_at p transport_offset total_len) (\<lambda>transport.
                      Ok (internet_checksum transport = 0))
               else and_then (transport_sum_ipv4 p transport_offset total_len proto) (\<lambda>acc.
                      Ok (checksum_finish acc = 0)))
              (\<lambda>valid. guard_err (\<not> valid) InvalidTransportChecksum (Ok ()))))
      else if version = 6 then
        and_then (checksum_offset proto) (\<lambda>co.
        guard_err (proto = IP_PROTOCOL_UDP \<and> zero_at p (transport_offset + co))
          InvalidTransportChecksum
         (and_then (transport_sum_ipv6 p transport_offset total_len proto) (\<lambda>acc.
            guard_err (checksum_finish acc \<noteq> 0) InvalidTransportChecksum (Ok ()))))
      else Err (UnsupportedIpVersion version))))"

definition rewrite_transport_fields :: "bytes \<Rightarrow> flow_key \<Rightarrow> (bytes, packet_error) result" where
  "rewrite_transport_fields transport translated =
    (if is_icmp (protocol translated) then
       and_then (ok_or (slice_get transport 0 8) TruncatedTransportHeader) (\<lambda>_.
       and_then (put transport 0 (to_be_bytes 2 (destination_port translated))) (\<lambda>q.
         put q 4 (to_be_bytes 2 (source_port translated))))
     else
       and_then (ok_or (slice_get transport 0 4) TruncatedTransportHeader) (\<lambda>_.
       and_then (put transport 0 (to_be_bytes 2 (source_port translated))) (\<lambda>q.
         put q 2 (to_be_bytes 2 (destination_port translated)))))"

definition rewrite_transport ::
  "bytes \<Rightarrow> nat \<Rightarrow> nat \<Rightarrow> flow_key \<Rightarrow> (bytes, packet_error) result" where
  "rewrite_transport p a b translated =
    and_then (slice_at p a b) (\<lambda>transport.
    and_then (rewrite_transport_fields transport translated) (\<lambda>q. put p a q))"

definition write_transport_checksum_ipv4 ::
  "bytes \<Rightarrow> nat \<Rightarrow> nat \<Rightarrow> u8 \<Rightarrow> (bytes, packet_error) result" where
  "write_transport_checksum_ipv4 p transport_offset total_len proto =
    and_then (checksum_offset proto) (\<lambda>co.
    and_then (csub total_len transport_offset) (\<lambda>transport_len.
    and_then (put p (transport_offset + co) [0, 0]) (\<lambda>q.
      if proto = IP_PROTOCOL_ICMP then
        and_then (slice_at q transport_offset total_len) (\<lambda>transport.
          put q (transport_offset + co) (to_be_bytes 2 (internet_checksum transport)))
      else
        and_then (transport_sum_ipv4 q transport_offset total_len proto) (\<lambda>acc.
          put q (transport_offset + co)
            (to_be_bytes 2 (encode_udp_zero_checksum proto (checksum_finish acc)))))))"

definition write_transport_checksum_ipv6 ::
  "bytes \<Rightarrow> nat \<Rightarrow> nat \<Rightarrow> u8 \<Rightarrow> (bytes, packet_error) result" where
  "write_transport_checksum_ipv6 p transport_offset total_len proto =
    and_then (checksum_offset proto) (\<lambda>co.
    and_then (csub total_len transport_offset) (\<lambda>transport_len.
    and_then (put p (transport_offset + co) [0, 0]) (\<lambda>q.
    and_then (transport_sum_ipv6 q transport_offset total_len proto) (\<lambda>acc.
      put q (transport_offset + co)
        (to_be_bytes 2 (encode_udp_zero_checksum proto (checksum_finish acc)))))))"

definition write_header_checksum :: "bytes \<Rightarrow> nat \<Rightarrow> (bytes, packet_error) result" where
  "write_header_checksum p header_len =
    and_then (put p 10 [0, 0]) (\<lambda>q.
    and_then (slice_at q 0 header_len) (\<lambda>header.
      put q 10 (to_be_bytes 2 (internet_checksum header))))"

definition rewrite_ipv4_packet ::
  "bytes \<Rightarrow> u32 \<Rightarrow> u32 \<Rightarrow> flow_key \<Rightarrow> (bytes, packet_error) result" where
  "rewrite_ipv4_packet p src dst translated =
    and_then (rd8 p 0) (\<lambda>b0.
    let header_len = unat (b0 AND 0x0f) * 4 in
    and_then (rd16 p 2) (\<lambda>w.
    let total_len = unat w in
    and_then (put p 12 (to_be_bytes 4 src)) (\<lambda>p1.
    and_then (put p1 16 (to_be_bytes 4 dst)) (\<lambda>p2.
    and_then (rewrite_transport p2 header_len total_len translated) (\<lambda>p3.
    and_then (write_header_checksum p3 header_len) (\<lambda>p4.
    and_then (rd8 p4 9) (\<lambda>proto.
      if proto = IP_PROTOCOL_UDP \<and> zero_at p4 (header_len + 6) then Ok p4
      else write_transport_checksum_ipv4 p4 header_len total_len proto)))))))"

definition rewrite_ipv6_packet ::
  "bytes \<Rightarrow> 128 word \<Rightarrow> 128 word \<Rightarrow> flow_key \<Rightarrow> (bytes, packet_error) result" where
  "rewrite_ipv6_packet p src dst translated =
    and_then (rd16 p 4) (\<lambda>w.
    let total_len = 40 + unat w in
    and_then (rd8 p 6) (\<lambda>next_header.
    and_then (ipv6_transport_offset 8 p total_len next_header 40) (\<lambda>(proto, transport_offset).
    and_then (put p 8 (to_be_bytes 16 src)) (\<lambda>p1.
    and_then (put p1 24 (to_be_bytes 16 dst)) (\<lambda>p2.
    and_then (rewrite_transport p2 transport_offset total_len translated) (\<lambda>p3.
      write_transport_checksum_ipv6 p3 transport_offset total_len proto))))))"

definition rewrite_packet :: "bytes \<Rightarrow> flow_key \<Rightarrow> (bytes, packet_error) result" where
  "rewrite_packet p translated =
    and_then (parse_flow_key p) (\<lambda>original.
    guard_err (protocol original \<noteq> protocol translated) InvalidTranslation
     (case (source original, source translated, destination original, destination translated) of
        (V4 _, V4 src, V4 _, V4 dst) \<Rightarrow> rewrite_ipv4_packet p src dst translated
      | (V6 _, V6 src, V6 _, V6 dst) \<Rightarrow> rewrite_ipv6_packet p src dst translated
      | _ \<Rightarrow> Err InvalidTranslation))"

definition prepare_forwarded_packet :: "bytes \<Rightarrow> (bytes, packet_error) result" where
  "prepare_forwarded_packet p =
    and_then (ip_packet_is_fragmented p) (\<lambda>fragmented.
    guard_err fragmented NonInitialFragment
     (and_then (validate_packet_checksums p) (\<lambda>_.
      and_then (ip_version p) (\<lambda>version.
        if version = 4 then
          and_then (rd8 p 0) (\<lambda>b0.
          let header_len = unat (b0 AND 0x0f) * 4 in
          guard_err (header_len < 20 \<or> length p < header_len) TruncatedIpHeader
           (and_then (rd8 p 8) (\<lambda>ttl.
            guard_err (ttl \<le> 1) HopLimitExceeded
             (and_then (put p 8 [ttl - 1]) (\<lambda>q. write_header_checksum q header_len))))
          )
        else if version = 6 then
          guard_err (length p < 40) TruncatedIpHeader
           (and_then (rd8 p 7) (\<lambda>hops.
            guard_err (hops \<le> 1) HopLimitExceeded (put p 7 [hops - 1])))
        else Err (UnsupportedIpVersion version)))))"

section \<open>Filling in a checksum\<close>

lemma finish_filled:
  assumes small: "unat acc + sum16 bs + 65535 < 4294967296"
    and field: "even i" "i + 2 \<le> length bs" "bs ! i = 0" "bs ! (i + 1) = 0"
    and c: "c = encode_udp_zero_checksum proto (checksum_finish (checksum_add acc bs))"
  shows "checksum_finish (checksum_add acc (splice bs i (to_be_bytes 2 c))) = 0"
proof -
  let ?s = "checksum_add acc bs" and ?f = "splice bs i (to_be_bytes 2 c)"
  have s: "unat ?s = unat acc + sum16 bs" using small by (intro checksum_add_sum16) simp
  have fill: "sum16 ?f = sum16 bs + unat c" by (rule sum16_fill [OF field])
  have "unat (checksum_add acc ?f) = unat acc + sum16 ?f"
    using small fill unat_u16_less [of c] by (intro checksum_add_sum16) simp
  then have u: "unat (checksum_add acc ?f) = unat ?s + unat c" using s fill by simp
  have "(unat ?s + unat c) mod 65535 = 0" and "unat ?s + unat c \<noteq> 0"
    using checksum_finish_balances [of ?s] 
      encode_balances [where n = "unat ?s" and proto = proto and c = "checksum_finish ?s"]
    unfolding c by simp_all
  then show ?thesis using u unat_eq_zero [of "checksum_add acc ?f"] by (auto simp: checksum_finish_eq_0)
qed

lemma encode_icmp [simp]: "encode_udp_zero_checksum 1 c = c"
  by (simp add: encode_udp_zero_checksum_def)

lemma encode_udp_nonzero: "encode_udp_zero_checksum IP_PROTOCOL_UDP c \<noteq> 0"
  by (simp add: encode_udp_zero_checksum_def)

lemma sum16_small: "length bs \<le> 65600 \<Longrightarrow> sum16 bs \<le> 2149548000"
  using sum16_bound [of bs] by (rule order_trans) simp

lemma internet_checksum_filled:
  assumes "length bs \<le> 65600" "even i" "i + 2 \<le> length bs" "bs ! i = 0" "bs ! (i + 1) = 0"
  shows "internet_checksum (splice bs i (to_be_bytes 2 (internet_checksum bs))) = 0"
  using finish_filled [OF _ assms(2-5), of 0 "internet_checksum bs" 1] sum16_small [OF assms(1)]
  by (simp add: internet_checksum_def)

text \<open>Writing inside a slice writes inside the buffer.\<close>

lemma slice_splice_within:
  assumes "a \<le> i" "i + length bs \<le> b" "b \<le> length p"
  shows "take (b - a) (drop a (splice p i bs)) = splice (take (b - a) (drop a p)) (i - a) bs"
  using assms by (simp add: drop_splice_within take_splice_within)

lemma splice_splice_same:
  assumes "i + length bs \<le> length p" and "length cs = length bs"
  shows "splice (splice p i bs) i cs = splice p i cs"
  by (rule nth_equalityI) (use assms in \<open>auto simp: length_splice nth_splice\<close>)

lemma splice_slice:
  assumes "a + n \<le> length p" and "length s = n"
  shows "i + length bs \<le> n \<Longrightarrow> splice p a (splice s i bs) = splice (splice p a s) (a + i) bs"
  by (rule nth_equalityI) (use assms in \<open>auto simp: length_splice nth_splice\<close>)

lemma splice_own_slice: "a + n \<le> length p \<Longrightarrow> splice p a (take n (drop a p)) = p"
  by (rule nth_equalityI) (auto simp: length_splice nth_splice)

section \<open>The header checksum\<close>

lemma write_header_checksum_run:
  assumes "20 \<le> h" "h \<le> length p" "h \<le> 65535"
  obtains q where "write_header_checksum p h = Ok q" and "length q = length p"
    and "\<And>k. k \<noteq> 10 \<Longrightarrow> k \<noteq> 11 \<Longrightarrow> q ! k = p ! k" and "internet_checksum (take h q) = 0"
proof -
  let ?z = "splice p 10 [0, 0]"
  let ?c = "to_be_bytes 2 (internet_checksum (take h ?z))"
  let ?q = "splice ?z 10 ?c"
  have len: "length ?z = length p" "length ?q = length p" using assms by (simp_all add: length_splice)
  have run: "write_header_checksum p h = Ok ?q"
    using assms len(1) by (simp add: write_header_checksum_def put_in slice_at_in)
  have frame: "?q ! k = p ! k" if "k \<noteq> 10" "k \<noteq> 11" for k
  proof -
    have "k < 10 \<or> 12 \<le> k" using that by linarith
    then show ?thesis using assms len(1) by (auto simp: nth_splice)
  qed
  have z: "?z ! 10 = 0" "?z ! 11 = 0" using assms by (simp_all add: nth_splice)
  have "take h ?q = splice (take h ?z) 10 ?c"
    using assms len(1) by (intro take_splice_within) simp_all
  moreover have "internet_checksum (splice (take h ?z) 10 ?c) = 0"
    using assms len(1) z by (intro internet_checksum_filled) simp_all
  ultimately have "internet_checksum (take h ?q) = 0" by simp
  then show ?thesis using that run len(2) frame by blast
qed

section \<open>The transport checksum\<close>

text \<open>The sum before the transport segment: the pseudo header.\<close>

definition pseudo_ipv4 :: "bytes \<Rightarrow> nat \<Rightarrow> u8 \<Rightarrow> u32" where
  "pseudo_ipv4 p n proto = checksum_add 0 (take 8 (drop 12 p)) + ucast proto + word_of_nat n"

definition pseudo_ipv6 :: "bytes \<Rightarrow> nat \<Rightarrow> u8 \<Rightarrow> u32" where
  "pseudo_ipv6 p n proto =
    checksum_add (checksum_add (checksum_add 0 (take 32 (drop 8 p)))
      (to_be_bytes 4 (word_of_nat n :: u32))) [0, 0, 0, proto]"

lemma transport_sum_ipv4_in:
  assumes "20 \<le> a" "a \<le> b" "b \<le> length p"
  shows "transport_sum_ipv4 p a b proto =
    Ok (checksum_add (pseudo_ipv4 p (b - a) proto) (take (b - a) (drop a p)))"
  using assms by (simp add: transport_sum_ipv4_def pseudo_ipv4_def slice_at_in csub_in)

lemma transport_sum_ipv6_in:
  assumes "40 \<le> a" "a \<le> b" "b \<le> length p"
  shows "transport_sum_ipv6 p a b proto =
    Ok (checksum_add (pseudo_ipv6 p (b - a) proto) (take (b - a) (drop a p)))"
  using assms by (simp add: transport_sum_ipv6_def pseudo_ipv6_def slice_at_in csub_in)

lemma unat_add_le: "unat (v + w) \<le> unat v + unat w" for v w :: u32
  by (simp add: unat_plus_if_size)

lemma unat_checksum_add_le: "unat (checksum_add acc bs) \<le> unat acc + sum16 bs"
proof (cases "unat acc + sum16 bs < 4294967296")
  case True
  then show ?thesis by (simp add: checksum_add_sum16)
next
  case False
  then show ?thesis using unat_u32_less [of "checksum_add acc bs"] by linarith
qed

lemma pseudo_ipv4_small:
  assumes "n \<le> 65600"
  shows "unat (pseudo_ipv4 p n proto) \<le> 1000000"
proof -
  have "sum16 (take 8 (drop 12 p)) \<le> 65535 * 4"
    by (rule order_trans [OF sum16_bound]) simp
  then have "unat (checksum_add 0 (take 8 (drop 12 p))) \<le> 262140"
    using unat_checksum_add_le [of 0 "take 8 (drop 12 p)"] by simp
  moreover have "unat (ucast proto :: u32) \<le> 255"
    using unat_u8_less [of proto] by (simp add: unat_ucast_fits)
  moreover have "unat (word_of_nat n :: u32) \<le> 65600"
  proof -
    have "unat (word_of_nat n :: u32) \<le> n" by (simp add: unsigned_of_nat)
    then show ?thesis using assms by linarith
  qed
  ultimately show ?thesis
    using unat_add_le [of "checksum_add 0 (take 8 (drop 12 p)) + ucast proto" "word_of_nat n"]
      unat_add_le [of "checksum_add 0 (take 8 (drop 12 p))" "ucast proto"]
    unfolding pseudo_ipv4_def by linarith
qed

lemma pseudo_ipv6_small: "unat (pseudo_ipv6 p n proto) \<le> 2000000"
proof -
  let ?a = "checksum_add 0 (take 32 (drop 8 p))" and ?l = "to_be_bytes 4 (word_of_nat n :: u32)"
  have "sum16 (take 32 (drop 8 p)) \<le> 65535 * 16" and "sum16 ?l \<le> 65535 * 2"
    and "sum16 [0, 0, 0, proto] \<le> 65535 * 2"
    by (rule order_trans [OF sum16_bound], simp)+
  then show ?thesis
    using unat_checksum_add_le [of 0 "take 32 (drop 8 p)"] unat_checksum_add_le [of ?a ?l]
      unat_checksum_add_le [of "checksum_add ?a ?l" "[0, 0, 0, proto]"]
    unfolding pseudo_ipv6_def by (simp del: sum16.simps)
qed

lemma pseudo_cong:
  assumes "length q = length p" and "\<And>k. 12 \<le> k \<Longrightarrow> k < 20 \<Longrightarrow> q ! k = p ! k"
  shows "pseudo_ipv4 q n proto = pseudo_ipv4 p n proto"
proof -
  have "take 8 (drop 12 q) = take 8 (drop 12 p)"
    by (rule nth_equalityI) (use assms in auto)
  then show ?thesis by (simp add: pseudo_ipv4_def)
qed

lemma pseudo6_cong:
  assumes "length q = length p" and "\<And>k. 8 \<le> k \<Longrightarrow> k < 40 \<Longrightarrow> q ! k = p ! k"
  shows "pseudo_ipv6 q n proto = pseudo_ipv6 p n proto"
proof -
  have "take 32 (drop 8 q) = take 32 (drop 8 p)"
    by (rule nth_equalityI) (use assms in auto)
  then show ?thesis by (simp add: pseudo_ipv6_def)
qed

text \<open>Zeroing the field and then filling it makes the whole segment sum to zero.\<close>

lemma filled_segment:
  assumes "even co" "a + co + 2 \<le> b" "b \<le> length p" "b - a \<le> 65600" "unat acc \<le> 2000000"
    and z: "z = splice p (a + co) [0, 0]"
    and c: "c = encode_udp_zero_checksum proto (checksum_finish (checksum_add acc (take (b - a) (drop a z))))"
    and q: "q = splice z (a + co) (to_be_bytes 2 c)"
  shows "length q = length p" and "k \<noteq> a + co \<Longrightarrow> k \<noteq> a + co + 1 \<Longrightarrow> q ! k = p ! k"
    and "checksum_finish (checksum_add acc (take (b - a) (drop a q))) = 0"
    and "be16 (q ! (a + co)) (q ! (a + co + 1)) = c"
proof -
  have lz: "length z = length p" using assms by (simp add: length_splice)
  then show "length q = length p" using assms by (simp add: length_splice)
  show "k \<noteq> a + co \<Longrightarrow> k \<noteq> a + co + 1 \<Longrightarrow> q ! k = p ! k"
    using assms(2,3) lz by (auto simp: q z nth_splice)
  have zero: "z ! (a + co) = 0" "z ! (a + co + 1) = 0"
    using assms(2,3) by (simp_all add: z nth_splice)
  let ?s = "take (b - a) (drop a z)"
  have "take (b - a) (drop a q) = splice ?s co (to_be_bytes 2 c)"
    using slice_splice_within [of a "a + co" "to_be_bytes 2 c" b z] assms(2,3) lz by (simp add: q)
  moreover have "checksum_finish (checksum_add acc (splice ?s co (to_be_bytes 2 c))) = 0"
    using assms(1-5) lz zero sum16_small [of ?s]
    by (intro finish_filled [OF _ _ _ _ _ c]) (simp_all add: add.assoc)
  ultimately show "checksum_finish (checksum_add acc (take (b - a) (drop a q))) = 0" by simp
  show "be16 (q ! (a + co)) (q ! (a + co + 1)) = c"
    using assms(2,3) lz be16_to_be_bytes [of c] by (simp add: q nth_splice)
qed

definition transport_valid_ipv4 :: "bytes \<Rightarrow> nat \<Rightarrow> nat \<Rightarrow> u8 \<Rightarrow> bool" where
  "transport_valid_ipv4 p a b proto \<longleftrightarrow>
    (if proto = IP_PROTOCOL_ICMP then internet_checksum (take (b - a) (drop a p)) = 0
     else checksum_finish (checksum_add (pseudo_ipv4 p (b - a) proto) (take (b - a) (drop a p))) = 0)"

definition transport_valid_ipv6 :: "bytes \<Rightarrow> nat \<Rightarrow> nat \<Rightarrow> u8 \<Rightarrow> bool" where
  "transport_valid_ipv6 p a b proto \<longleftrightarrow>
    checksum_finish (checksum_add (pseudo_ipv6 p (b - a) proto) (take (b - a) (drop a p))) = 0"

lemma checksum_offset_even: "checksum_offset proto = Ok co \<Longrightarrow> even co"
  by (auto simp: checksum_offset_def split: if_splits)

lemma checksum_offset_no_panic [no_panic]: "checksum_offset proto \<noteq> Panic"
  by (simp add: checksum_offset_def)

lemma write_transport_checksum_ipv4_run:
  assumes co: "checksum_offset proto = Ok co" and b: "20 \<le> a" "a + co + 2 \<le> b" "b \<le> length p" "b \<le> 65600"
  obtains q where "write_transport_checksum_ipv4 p a b proto = Ok q" and "length q = length p"
    and "\<And>k. k \<noteq> a + co \<Longrightarrow> k \<noteq> a + co + 1 \<Longrightarrow> q ! k = p ! k" and "transport_valid_ipv4 q a b proto"
proof -
  let ?z = "splice p (a + co) [0, 0]"
  let ?acc = "if proto = IP_PROTOCOL_ICMP then 0 else pseudo_ipv4 ?z (b - a) proto"
  define c where "c = encode_udp_zero_checksum proto
    (checksum_finish (checksum_add ?acc (take (b - a) (drop a ?z))))"
  define q where "q = splice ?z (a + co) (to_be_bytes 2 c)"
  have acc: "unat ?acc \<le> 2000000"
  proof -
    have "unat (pseudo_ipv4 ?z (b - a) proto) \<le> 1000000" using b by (intro pseudo_ipv4_small) simp
    then show ?thesis by simp
  qed
  have b': "b - a \<le> 65600" using b by simp
  note f = filled_segment [OF checksum_offset_even [OF co] b(2,3) b' acc refl c_def q_def]
  have lz: "length ?z = length p" using b by (simp add: length_splice)
  have "write_transport_checksum_ipv4 p a b proto = Ok q"
    using co b lz unfolding write_transport_checksum_ipv4_def q_def c_def
    by (simp add: csub_in put_in slice_at_in transport_sum_ipv4_in internet_checksum_def)
  moreover have "pseudo_ipv4 q (b - a) proto = pseudo_ipv4 ?z (b - a) proto"
    using f(1) lz b by (intro pseudo_cong) (auto simp: q_def nth_splice)
  then have "transport_valid_ipv4 q a b proto"
    using f(3) by (auto simp: transport_valid_ipv4_def internet_checksum_def split: if_splits)
  ultimately show ?thesis using that f(1,2) by blast
qed

lemma write_transport_checksum_ipv6_run:
  assumes co: "checksum_offset proto = Ok co" and b: "40 \<le> a" "a + co + 2 \<le> b" "b \<le> length p" "b \<le> 65600"
  obtains q where "write_transport_checksum_ipv6 p a b proto = Ok q" and "length q = length p"
    and "\<And>k. k \<noteq> a + co \<Longrightarrow> k \<noteq> a + co + 1 \<Longrightarrow> q ! k = p ! k" and "transport_valid_ipv6 q a b proto"
    and "proto = IP_PROTOCOL_UDP \<Longrightarrow> be16 (q ! (a + co)) (q ! (a + co + 1)) \<noteq> 0"
proof -
  let ?z = "splice p (a + co) [0, 0]"
  let ?acc = "pseudo_ipv6 ?z (b - a) proto"
  define c where "c = encode_udp_zero_checksum proto
    (checksum_finish (checksum_add ?acc (take (b - a) (drop a ?z))))"
  define q where "q = splice ?z (a + co) (to_be_bytes 2 c)"
  have b': "b - a \<le> 65600" using b by simp
  note f = filled_segment [OF checksum_offset_even [OF co] b(2,3) b' pseudo_ipv6_small refl c_def q_def]
  have lz: "length ?z = length p" using b by (simp add: length_splice)
  have run: "write_transport_checksum_ipv6 p a b proto = Ok q"
    using co b lz unfolding write_transport_checksum_ipv6_def q_def c_def
    by (simp add: csub_in put_in transport_sum_ipv6_in)
  have "pseudo_ipv6 q (b - a) proto = ?acc"
    using f(1) lz b by (intro pseudo6_cong) (auto simp: q_def nth_splice)
  then have valid: "transport_valid_ipv6 q a b proto" using f(3) by (simp add: transport_valid_ipv6_def)
  have "be16 (q ! (a + co)) (q ! (a + co + 1)) \<noteq> 0" if "proto = IP_PROTOCOL_UDP"
    using f(4) that encode_udp_nonzero unfolding c_def by metis
  then show ?thesis using that run f(1,2) valid by blast
qed

section \<open>Reading a changed packet\<close>

text \<open>The readers look only at the fixed fields and at the extension headers.\<close>

lemma option_len_ge: "2 \<le> option_len u" and ah_len_ge: "2 \<le> ah_len u"
  by (simp_all add: option_len_def ah_len_def)

lemma skip_extension_agree:
  assumes sk: "skip_extension p t off octets = Ok r" and "t \<le> t'" "t \<le> length q" and ge: "\<And>u. 2 \<le> octets u"
    and "q ! off = p ! off" "q ! (off + 1) = p ! (off + 1)"
  shows "skip_extension q t' off octets = Ok r"
proof -
  obtain nh o1 where r: "r = (nh, o1)" by (cases r)
  note o1 = skip_extension_Ok [OF sk [unfolded r]]
  have "off + 2 \<le> length q" using o1(2,5) ge [of "p ! (off + 1)"] assms(3) by linarith
  then show ?thesis
    using assms(2,5,6) o1 by (simp add: r skip_extension_def slice_get_def rd8_in Let_def guard_err_def)
qed

lemma ipv6_transport_offset_agree:
  assumes "ipv6_transport_offset n p t nh off = Ok (proto, o')" and "t \<le> t'" "t \<le> length q"
    and "\<And>k. off \<le> k \<Longrightarrow> k < o' \<Longrightarrow> q ! k = p ! k"
  shows "ipv6_transport_offset n q t' nh off = Ok (proto, o')"
  using assms
proof (induction n arbitrary: nh off)
  case (Suc n)
  have step: "skip_extension q t' off octets = Ok (nh', o1) \<and> ipv6_transport_offset n q t' nh' o1 = Ok (proto, o')"
    if sk: "skip_extension p t off octets = Ok (nh', o1)" and ge: "\<And>u. 2 \<le> octets u"
      and rest: "ipv6_transport_offset n p t nh' o1 = Ok (proto, o')" for octets nh' o1
  proof -
    have o1: "off + 2 \<le> o1" using skip_extension_Ok(5) [OF sk] ge by simp
    moreover have "o1 \<le> o'" using ipv6_transport_offset_Ok [OF rest] skip_extension_Ok(2) [OF sk] by simp
    ultimately show ?thesis
      using skip_extension_agree [OF sk Suc.prems(2,3) ge] Suc.IH [OF rest Suc.prems(2,3)] Suc.prems(4) by auto
  qed
  show ?case
    using Suc.prems(1) step [OF _ option_len_ge] step [OF _ ah_len_ge]
    by (auto simp: res_simps split: if_splits)
qed simp

lemma transport_metadata_agree:
  assumes m: "transport_metadata p = Ok (proto, o', t)" and len: "length q = length p"
    and fixed: "\<And>k. k < 7 \<Longrightarrow> q ! k = p ! k" and proto: "drop_bit 4 (p ! 0) = 4 \<Longrightarrow> q ! 9 = p ! 9"
    and ext: "\<And>k. 40 \<le> k \<Longrightarrow> k < o' \<Longrightarrow> q ! k = p ! k"
  shows "transport_metadata q = Ok (proto, o', t)"
proof -
  note mp = transport_metadata_Ok [OF m]
  have 0: "q ! 0 = p ! 0" "q ! 2 = p ! 2" "q ! 3 = p ! 3" "q ! 4 = p ! 4" "q ! 5 = p ! 5" "q ! 6 = p ! 6"
    by (simp_all add: fixed)
  have ne: "q \<noteq> []" "p \<noteq> []" using mp(4) len by auto
  then have v: "ip_version q = Ok (drop_bit 4 (p ! 0))" using 0 by (simp add: ip_version_Ok)
  from mp(5) show ?thesis
  proof
    assume four: "drop_bit 4 (p ! 0) = 4"
    have p4: "ipv4_lengths p = Ok (o', t)" "proto = p ! 9" using mp(6) [OF four] by auto
    then have "ipv4_lengths q = Ok (o', t)" unfolding ipv4_lengths_Ok len 0 by simp
    moreover have "(rd8 q 9 :: (u8, packet_error) result) = Ok proto"
      using mp(1,2,3) p4(2) proto [OF four] len by (simp add: rd8_eq_Ok)
    ultimately show ?thesis using v four by (simp add: transport_metadata_def)
  next
    assume six: "drop_bit 4 (p ! 0) = 6"
    have p6: "ipv6_length p = Ok t" "ipv6_transport_offset 8 p t (p ! 6) 40 = Ok (proto, o')"
      using mp(7) [OF six] by auto
    then have "ipv6_length q = Ok t" unfolding ipv6_length_Ok len 0 by simp
    moreover have "ipv6_transport_offset 8 q t (p ! 6) 40 = Ok (proto, o')"
      by (rule ipv6_transport_offset_agree [OF p6(2) order_refl _ ext]) (use mp(3) len in simp)
    moreover have "(rd8 q 6 :: (u8, packet_error) result) = Ok (p ! 6)"
      using mp(1,2,3) len 0 by (simp add: rd8_eq_Ok)
    ultimately show ?thesis using v six by (simp add: transport_metadata_def)
  qed
qed

section \<open>Ports\<close>

text \<open>Where the two port-like fields of a protocol are, and what else its header must satisfy.\<close>

definition sport_at :: "transport_protocol \<Rightarrow> nat" where
  "sport_at tp = (if is_icmp tp then 4 else 0)"

definition dport_at :: "transport_protocol \<Rightarrow> nat" where
  "dport_at tp = (if is_icmp tp then 0 else 2)"

fun proto_number :: "transport_protocol \<Rightarrow> u8" where
  "proto_number Tcp = IP_PROTOCOL_TCP"
| "proto_number Udp = IP_PROTOCOL_UDP"
| "proto_number Icmp = IP_PROTOCOL_ICMP"
| "proto_number Icmpv6 = IP_PROTOCOL_ICMPV6"

fun csum_at :: "transport_protocol \<Rightarrow> nat" where
  "csum_at Tcp = 16" | "csum_at Udp = 6" | "csum_at Icmp = 2" | "csum_at Icmpv6 = 2"

fun header_ok :: "transport_protocol \<Rightarrow> bytes \<Rightarrow> bool" where
  "header_ok Tcp s \<longleftrightarrow> 20 \<le> length s \<and> 20 \<le> unat (drop_bit 4 (s ! 12)) * 4 \<and>
    unat (drop_bit 4 (s ! 12)) * 4 \<le> length s"
| "header_ok Udp s \<longleftrightarrow> 8 \<le> length s \<and> unat (be16 (s ! 4) (s ! 5)) = length s"
| "header_ok Icmp s \<longleftrightarrow> 8 \<le> length s \<and> (s ! 0 = 0 \<or> s ! 0 = 8) \<and> s ! 1 = 0"
| "header_ok Icmpv6 s \<longleftrightarrow> 8 \<le> length s \<and> (s ! 0 = 128 \<or> s ! 0 = 129) \<and> s ! 1 = 0"

lemma checksum_offset_proto [simp]: "checksum_offset (proto_number tp) = Ok (csum_at tp)"
  by (cases tp) (simp_all add: checksum_offset_def)

lemma transport_ports_Ok:
  "transport_ports proto s = Ok (sp, dp, tp) \<longleftrightarrow>
    proto = proto_number tp \<and> header_ok tp s \<and>
    sp = be16 (s ! sport_at tp) (s ! (sport_at tp + 1)) \<and>
    dp = be16 (s ! dport_at tp) (s ! (dport_at tp + 1))"
proof (cases tp)
  case Tcp
  then show ?thesis
    by (auto simp: transport_ports_def res_simps buf_simps Let_def sport_at_def dport_at_def
        split: if_splits)
next
  case Udp
  then show ?thesis
    by (auto simp: transport_ports_def res_simps buf_simps Let_def sport_at_def dport_at_def
        split: if_splits)
next
  case Icmp
  then show ?thesis
    by (auto simp: transport_ports_def res_simps buf_simps Let_def sport_at_def dport_at_def
        split: if_splits)
next
  case Icmpv6
  then show ?thesis
    by (auto simp: transport_ports_def res_simps buf_simps Let_def sport_at_def dport_at_def
        split: if_splits)
qed

lemma header_ok_fits: "header_ok tp s \<Longrightarrow> csum_at tp + 2 \<le> length s \<and> 8 \<le> length s"
  by (cases tp) auto

definition ports_written :: "bytes \<Rightarrow> bytes \<Rightarrow> nat \<Rightarrow> flow_key \<Rightarrow> bool" where
  "ports_written p q a tr \<longleftrightarrow> (let s = a + sport_at (protocol tr); d = a + dport_at (protocol tr) in
    (\<forall>k. (k < s \<or> s + 2 \<le> k) \<and> (k < d \<or> d + 2 \<le> k) \<longrightarrow> q ! k = p ! k) \<and>
    be16 (q ! s) (q ! (s + 1)) = source_port tr \<and> be16 (q ! d) (q ! (d + 1)) = destination_port tr)"

lemma rewrite_transport_run:
  assumes b: "a + 8 \<le> b" "b \<le> length p"
  obtains q where "rewrite_transport p a b tr = Ok q" and "length q = length p"
    and "ports_written p q a tr"
proof -
  let ?s = "take (b - a) (drop a p)" and ?sa = "sport_at (protocol tr)" and ?da = "dport_at (protocol tr)"
  let ?S = "to_be_bytes 2 (source_port tr)" and ?D = "to_be_bytes 2 (destination_port tr)"
  have l: "length ?s = b - a" using b by simp
  define s' where "s' = (if is_icmp (protocol tr) then splice (splice ?s 0 ?D) 4 ?S
    else splice (splice ?s 0 ?S) 2 ?D)"
  define q where "q = splice p a s'"
  have ls: "length s' = b - a" using b by (simp add: s'_def length_splice)
  have nth: "s' ! k = (if ?sa \<le> k \<and> k < ?sa + 2 then ?S ! (k - ?sa)
      else if ?da \<le> k \<and> k < ?da + 2 then ?D ! (k - ?da) else ?s ! k)" for k
    using b by (auto simp: s'_def sport_at_def dport_at_def nth_splice length_splice)
  have "rewrite_transport_fields ?s tr = Ok s'"
    using b by (auto simp: rewrite_transport_fields_def s'_def slice_get_def put_def length_splice)
  then have run: "rewrite_transport p a b tr = Ok q"
    using b ls by (simp add: rewrite_transport_def slice_at_in put_in q_def)
  have lq: "length q = length p" using b ls by (simp add: q_def length_splice)
  have sd: "?sa + 2 \<le> 8" "?da + 2 \<le> 8" by (simp_all add: sport_at_def dport_at_def)
  have qn: "q ! k = (if a \<le> k \<and> k < b then s' ! (k - a) else p ! k)" for k
    using b ls by (simp add: q_def nth_splice)
  have "q ! k = p ! k" if "k < a + ?sa \<or> a + ?sa + 2 \<le> k" "k < a + ?da \<or> a + ?da + 2 \<le> k" for k
  proof (cases "a \<le> k \<and> k < b")
    case True
    then have "s' ! (k - a) = ?s ! (k - a)" using that by (auto simp: nth)
    moreover have "k - a < b - a" using True by auto
    then have "?s ! (k - a) = p ! k" using True b by simp
    ultimately show ?thesis using True by (simp add: qn)
  qed (auto simp: qn)
  moreover have "be16 (q ! (a + ?sa)) (q ! (a + ?sa + 1)) = source_port tr"
    using b sd be16_to_be_bytes [of "source_port tr"] by (simp add: qn nth)
  moreover have "be16 (q ! (a + ?da)) (q ! (a + ?da + 1)) = destination_port tr"
    using b be16_to_be_bytes [of "destination_port tr"]
    by (cases "is_icmp (protocol tr)") (simp_all add: qn nth sport_at_def dport_at_def)
  ultimately have "ports_written p q a tr" unfolding ports_written_def Let_def by simp
  then show ?thesis by (rule that [OF run lq])
qed

section \<open>Validation\<close>

lemma zero_at_iff: "zero_at p i \<longleftrightarrow> i + 2 \<le> length p \<and> p ! i = 0 \<and> p ! (i + 1) = 0"
proof (cases "i + 2 \<le> length p")
  case True
  then have "take 2 (drop i p) = [p ! i, p ! (i + 1)]"
    by (intro nth_equalityI) (auto simp: less_2_cases_iff)
  then show ?thesis using True by (simp add: zero_at_def slice_get_def)
qed (simp add: zero_at_def slice_get_def)

lemma validate_Ok_ipv4:
  assumes m: "transport_metadata p = Ok (proto, a, b)" and v: "drop_bit 4 (p ! 0) = 4"
  shows "validate_packet_checksums p = Ok () \<longleftrightarrow>
    (proto = IP_PROTOCOL_UDP \<longrightarrow> is_ok (validate_udp_layout p a b)) \<and> internet_checksum (take a p) = 0 \<and>
    (proto = IP_PROTOCOL_UDP \<and> zero_at p (a + 6) \<or> transport_valid_ipv4 p a b proto)"
proof -
  have b: "20 \<le> a" "a \<le> b" "b \<le> length p" "0 < length p" using transport_metadata_Ok(1-4) [OF m] by auto
  show ?thesis
    using b unfolding validate_packet_checksums_def
    by (simp add: m v Let_def and_then_eq_Ok rd8_in slice_at_in transport_sum_ipv4_in guard_err_eq_Ok
        is_ok_iff transport_valid_ipv4_def)
qed

lemma validate_Ok_ipv6:
  assumes m: "transport_metadata p = Ok (proto, a, b)" and v: "drop_bit 4 (p ! 0) = 6"
  shows "validate_packet_checksums p = Ok () \<longleftrightarrow>
    (proto = IP_PROTOCOL_UDP \<longrightarrow> is_ok (validate_udp_layout p a b) \<and> \<not> zero_at p (a + 6)) \<and>
    (\<exists>co. checksum_offset proto = Ok co) \<and> transport_valid_ipv6 p a b proto"
proof -
  have b: "40 \<le> a" "a \<le> b" "b \<le> length p" "0 < length p"
    using transport_metadata_Ok(2-4,7) [OF m] v by auto
  have udp: "checksum_offset IP_PROTOCOL_UDP = Ok 6" by (simp add: checksum_offset_def)
  show ?thesis
    using b udp unfolding validate_packet_checksums_def
    by (auto simp: m v Let_def and_then_eq_Ok rd8_in transport_sum_ipv6_in guard_err_eq_Ok
        is_ok_iff transport_valid_ipv6_def split: if_splits)
qed

section \<open>Rewriting\<close>

lemma parse_flow_key_meta:
  assumes "parse_flow_key p = Ok f"
  obtains proto a b where "transport_metadata p = Ok (proto, a, b)"
proof -
  have "(\<exists>h t. ipv4_lengths p = Ok (h, t)) \<and> ip_version p = Ok 4 \<or>
    (\<exists>t proto a. ipv6_length p = Ok t \<and> ipv6_transport_offset 8 p t (p ! 6) 40 = Ok (proto, a)) \<and>
      ip_version p = Ok 6"
    using assms
    by (auto simp: parse_flow_key_def parse_ipv4_flow_key_def parse_ipv6_flow_key_def and_then_eq_Ok
        guard_err_eq_Ok rd8_eq_Ok split: if_splits)
  then show ?thesis
  proof (elim disjE conjE exE)
    fix h t assume h: "ipv4_lengths p = Ok (h, t)" and v: "ip_version p = Ok 4"
    have "9 < length p" using h by (simp add: ipv4_lengths_Ok)
    then show ?thesis using that [of "p ! 9" h t] h v by (simp add: transport_metadata_def rd8_in)
  next
    fix t proto a assume t: "ipv6_length p = Ok t" and v: "ip_version p = Ok 6"
      and o': "ipv6_transport_offset 8 p t (p ! 6) 40 = Ok (proto, a)"
    have "6 < length p" using t by (simp add: ipv6_length_Ok)
    then show ?thesis using that [of proto a t] t v o' by (simp add: transport_metadata_def rd8_in)
  qed
qed

lemma parse_flow_key_ipv4:
  assumes m: "transport_metadata p = Ok (proto, a, b)" and v: "drop_bit 4 (p ! 0) = 4"
  shows "parse_flow_key p = Ok f \<longleftrightarrow> be16 (p ! 6) (p ! 7) AND 0x3fff = 0 \<and>
    source f = V4 (from_be_bytes (take 4 (drop 12 p))) \<and>
    destination f = V4 (from_be_bytes (take 4 (drop 16 p))) \<and>
    transport_ports proto (take (b - a) (drop a p)) = Ok (source_port f, destination_port f, protocol f)"
proof -
  note mp = transport_metadata_Ok [OF m]
  have h: "ipv4_lengths p = Ok (a, b)" "proto = p ! 9" using mp(6) [OF v] by auto
  have l: "20 \<le> length p" using h by (simp add: ipv4_lengths_Ok)
  have ver: "ip_version p = Ok 4" using mp(4) v by (simp add: ip_version_Ok)
  have "parse_flow_key p = guard_err (be16 (p ! 6) (p ! 7) AND 0x3fff \<noteq> 0) NonInitialFragment
    (build_flow_key (V4 (from_be_bytes (take 4 (drop 12 p)))) (V4 (from_be_bytes (take 4 (drop 16 p))))
      proto (take (b - a) (drop a p)))"
    using l h mp(2,3) ver
    by (simp add: parse_flow_key_def parse_ipv4_flow_key_def ipv4_at_in rd16_in rd8_in slice_at_in)
  then show ?thesis
    by (auto simp: guard_err_eq_Ok build_flow_key_def and_then_eq_Ok)
qed

lemma parse_flow_key_ipv6:
  assumes m: "transport_metadata p = Ok (proto, a, b)" and v: "drop_bit 4 (p ! 0) = 6"
  shows "parse_flow_key p = Ok f \<longleftrightarrow>
    source f = V6 (from_be_bytes (take 16 (drop 8 p))) \<and>
    destination f = V6 (from_be_bytes (take 16 (drop 24 p))) \<and>
    transport_ports proto (take (b - a) (drop a p)) = Ok (source_port f, destination_port f, protocol f)"
proof -
  note mp = transport_metadata_Ok [OF m]
  have h: "ipv6_length p = Ok b" "ipv6_transport_offset 8 p b (p ! 6) 40 = Ok (proto, a)"
    using mp(7) [OF v] by auto
  have l: "40 \<le> length p" using h by (simp add: ipv6_length_Ok)
  have ver: "ip_version p = Ok 6" using mp(4) v by (simp add: ip_version_Ok)
  have "parse_flow_key p =
    build_flow_key (V6 (from_be_bytes (take 16 (drop 8 p)))) (V6 (from_be_bytes (take 16 (drop 24 p))))
      proto (take (b - a) (drop a p))"
    using l h mp(2,3) ver
    by (simp add: parse_flow_key_def parse_ipv6_flow_key_def ipv6_at_in rd8_in slice_at_in)
  then show ?thesis
    by (auto simp: build_flow_key_def and_then_eq_Ok)
qed

text \<open>
  The bytes of a translated packet outside the header checksum and addresses, between \<open>lo\<close>
  and \<open>hi\<close>, and outside the ports and checksum of the transport header are those of the
  original; the ports are the translated ones.
\<close>

definition translated_bytes :: "bytes \<Rightarrow> bytes \<Rightarrow> nat \<Rightarrow> flow_key \<Rightarrow> bool" where
  "translated_bytes p q a tr \<longleftrightarrow> (let s = a + sport_at (protocol tr); d = a + dport_at (protocol tr);
      c = a + csum_at (protocol tr) in
    (\<forall>k\<ge>a. (k < s \<or> s + 2 \<le> k) \<and> (k < d \<or> d + 2 \<le> k) \<and> (k < c \<or> c + 2 \<le> k) \<longrightarrow> q ! k = p ! k) \<and>
    be16 (q ! s) (q ! (s + 1)) = source_port tr \<and> be16 (q ! d) (q ! (d + 1)) = destination_port tr)"

text \<open>A translated ICMP flow must still name an echo request or reply.\<close>

definition echo_kind :: "flow_key \<Rightarrow> bool" where
  "echo_kind f = (case protocol f of
     Icmp \<Rightarrow> destination_port f = 0 \<or> destination_port f = 0x0800
   | Icmpv6 \<Rightarrow> destination_port f = 0x8000 \<or> destination_port f = 0x8100
   | _ \<Rightarrow> True)"

lemma be16_eq_iff: "be16 x y = be16 u w \<longleftrightarrow> x = u \<and> y = w"
  by (metis list.inject to_be_bytes_be16)

lemma be16_consts: "0 = be16 0 0" "0x0800 = be16 8 0" "0x8000 = be16 128 0" "0x8100 = be16 129 0"
  by (simp_all add: be16_def from_be_bytes_def be_val_def)

lemma csum_clear:
  "csum_at tp \<noteq> sport_at tp \<and> csum_at tp \<noteq> sport_at tp + 1 \<and> csum_at tp + 1 \<noteq> sport_at tp \<and>
   csum_at tp \<noteq> dport_at tp \<and> csum_at tp \<noteq> dport_at tp + 1 \<and> csum_at tp + 1 \<noteq> dport_at tp"
  by (cases tp) (simp_all add: sport_at_def dport_at_def)

lemma translated_ports:
  assumes h: "header_ok (protocol tr) (take (b - a) (drop a p))" and "b \<le> length p" "length q = length p"
    and t: "translated_bytes p q a tr" and e: "echo_kind tr"
  shows "transport_ports (proto_number (protocol tr)) (take (b - a) (drop a q)) =
    Ok (source_port tr, destination_port tr, protocol tr)"
proof -
  let ?tp = "protocol tr" and ?s = "take (b - a) (drop a p)" and ?u = "take (b - a) (drop a q)"
  have len: "length ?u = length ?s" "8 \<le> length ?s" "csum_at ?tp + 2 \<le> length ?s"
    using assms(2,3) header_ok_fits [OF h] by auto
  have un: "?u ! k = q ! (a + k)" "?s ! k = p ! (a + k)" if "k < length ?s" for k
    using that assms(2,3) by auto
  have t': "\<And>k. a \<le> k \<Longrightarrow> k < a + sport_at ?tp \<or> a + sport_at ?tp + 2 \<le> k \<Longrightarrow>
      k < a + dport_at ?tp \<or> a + dport_at ?tp + 2 \<le> k \<Longrightarrow>
      k < a + csum_at ?tp \<or> a + csum_at ?tp + 2 \<le> k \<Longrightarrow> q ! k = p ! k"
    and ports: "be16 (q ! (a + sport_at ?tp)) (q ! (a + sport_at ?tp + 1)) = source_port tr"
      "be16 (q ! (a + dport_at ?tp)) (q ! (a + dport_at ?tp + 1)) = destination_port tr"
    using t unfolding translated_bytes_def Let_def by auto
  have "sport_at ?tp + 2 \<le> 8" "dport_at ?tp + 2 \<le> 8" by (simp_all add: sport_at_def dport_at_def)
  then have p: "be16 (?u ! sport_at ?tp) (?u ! (sport_at ?tp + 1)) = source_port tr"
      "be16 (?u ! dport_at ?tp) (?u ! (dport_at ?tp + 1)) = destination_port tr"
    using ports un(1) len(2) by (simp_all del: nth_take nth_drop add: add.assoc)
  have "header_ok ?tp ?u"
  proof (cases ?tp)
    case Tcp
    then have "?u ! 12 = ?s ! 12"
      using len un [of 12] t' [of "a + 12"] by (simp del: nth_take nth_drop add: sport_at_def dport_at_def)
    then show ?thesis using h len Tcp by (simp del: nth_take nth_drop length_take length_drop)
  next
    case Udp
    then have "?u ! 4 = ?s ! 4" "?u ! 5 = ?s ! 5"
      using len un [of 4] un [of 5] t' [of "a + 4"] t' [of "a + 5"]
      by (simp_all del: nth_take nth_drop add: sport_at_def dport_at_def)
    then show ?thesis using h len Udp by (simp del: nth_take nth_drop length_take length_drop)
  next
    case Icmp
    then show ?thesis using p(2) e len unfolding echo_kind_def be16_consts
      by (auto simp: dport_at_def be16_eq_iff simp del: nth_take nth_drop length_take length_drop)
  next
    case Icmpv6
    then show ?thesis using p(2) e len unfolding echo_kind_def be16_consts
      by (auto simp: dport_at_def be16_eq_iff simp del: nth_take nth_drop length_take length_drop)
  qed
  then show ?thesis using p by (simp add: transport_ports_Ok del: nth_take nth_drop)
qed

lemma udp_layout_translated:
  assumes h: "header_ok (protocol tr) (take (b - a) (drop a p))" "a \<le> b" "b \<le> length p" "length q = length p"
    and t: "translated_bytes p q a tr" and udp: "proto_number (protocol tr) = IP_PROTOCOL_UDP"
  shows "is_ok (validate_udp_layout q a b)"
proof -
  have tp: "protocol tr = Udp" using udp by (cases "protocol tr") simp_all
  have "q ! (a + 4) = p ! (a + 4)" "q ! (a + 5) = p ! (a + 5)"
    using t tp unfolding translated_bytes_def Let_def by (simp_all add: sport_at_def dport_at_def)
  then have "unat (be16 (q ! (a + 4)) (q ! (a + 5))) = b - a" and "8 \<le> b - a"
    using h tp by auto
  then show ?thesis using h(2,3,4)
    by (simp add: validate_udp_layout_def slice_get_def rd16_in Let_def guard_err_def)
qed

text \<open>
  A packet whose ports are written and whose transport checksum is filled in afterwards; the
  header may change as well.
\<close>

lemma translated_bytesI:
  assumes w: "ports_written p2 p3 a tr" and p2: "\<And>k. a \<le> k \<Longrightarrow> p2 ! k = p ! k"
    and q: "\<And>k. a \<le> k \<Longrightarrow> k \<noteq> a + csum_at (protocol tr) \<Longrightarrow> k \<noteq> a + csum_at (protocol tr) + 1 \<Longrightarrow> q ! k = p3 ! k"
  shows "translated_bytes p q a tr"
proof -
  let ?s = "a + sport_at (protocol tr)" and ?d = "a + dport_at (protocol tr)"
  have w': "\<And>k. k < ?s \<or> ?s + 2 \<le> k \<Longrightarrow> k < ?d \<or> ?d + 2 \<le> k \<Longrightarrow> p3 ! k = p2 ! k"
    and ports: "be16 (p3 ! ?s) (p3 ! (?s + 1)) = source_port tr"
      "be16 (p3 ! ?d) (p3 ! (?d + 1)) = destination_port tr"
    using w unfolding ports_written_def Let_def by auto
  have "q ! ?s = p3 ! ?s" "q ! (?s + 1) = p3 ! (?s + 1)" "q ! ?d = p3 ! ?d" "q ! (?d + 1) = p3 ! (?d + 1)"
    using csum_clear [of "protocol tr"] by (auto intro!: q)
  then have "be16 (q ! ?s) (q ! (?s + 1)) = source_port tr"
    "be16 (q ! ?d) (q ! (?d + 1)) = destination_port tr" using ports by simp_all
  moreover have "q ! k = p ! k" if "a \<le> k" "k < ?s \<or> ?s + 2 \<le> k" "k < ?d \<or> ?d + 2 \<le> k"
      "k < a + csum_at (protocol tr) \<or> a + csum_at (protocol tr) + 2 \<le> k" for k
  proof -
    have "q ! k = p3 ! k" using that(1,4) by (intro q) auto
    then show ?thesis using w' [OF that(2,3)] p2 [OF that(1)] by simp
  qed
  ultimately show ?thesis unfolding translated_bytes_def Let_def by simp
qed

lemma ports_written_low:
  assumes "ports_written p q a tr" and "k < a"
  shows "q ! k = p ! k"
  using assms unfolding ports_written_def Let_def by simp

text \<open>The transport checksum of an IPv4 packet is filled in, or an absent UDP checksum is kept.\<close>

lemma ipv4_transport_checksum_run:
  assumes "proto = proto_number tp" "20 \<le> a" "a + csum_at tp + 2 \<le> b" "b \<le> length p" "b \<le> 65600"
  obtains q where "(if proto = IP_PROTOCOL_UDP \<and> zero_at p (a + 6) then Ok p
      else write_transport_checksum_ipv4 p a b proto) = Ok q" and "length q = length p"
    and "\<And>k. k \<noteq> a + csum_at tp \<Longrightarrow> k \<noteq> a + csum_at tp + 1 \<Longrightarrow> q ! k = p ! k"
    and "proto = IP_PROTOCOL_UDP \<and> zero_at q (a + 6) \<or> transport_valid_ipv4 q a b proto"
proof (cases "proto = IP_PROTOCOL_UDP \<and> zero_at p (a + 6)")
  case True
  then show ?thesis by (intro that [of p]) simp_all
next
  case False
  have co: "checksum_offset proto = Ok (csum_at tp)" using assms(1) by simp
  obtain q where "write_transport_checksum_ipv4 p a b proto = Ok q" and "length q = length p"
    and "\<And>k. k \<noteq> a + csum_at tp \<Longrightarrow> k \<noteq> a + csum_at tp + 1 \<Longrightarrow> q ! k = p ! k"
    and "transport_valid_ipv4 q a b proto"
    by (rule write_transport_checksum_ipv4_run [OF co assms(2-5)]) (rule that)
  then show ?thesis using False by (intro that [of q]) auto
qed

lemma rewrite_ipv4_run:
  assumes f: "parse_flow_key p = Ok f" and m: "transport_metadata p = Ok (proto, a, b)"
    and v: "drop_bit 4 (p ! 0) = 4" and tp: "protocol tr = protocol f"
  obtains q where "rewrite_ipv4_packet p src dst tr = Ok q" and "length q = length p"
    and "\<And>k. k < 10 \<or> 20 \<le> k \<and> k < a \<Longrightarrow> q ! k = p ! k"
    and "take 4 (drop 12 q) = to_be_bytes 4 src" and "take 4 (drop 16 q) = to_be_bytes 4 dst"
    and "translated_bytes p q a tr" and "internet_checksum (take a q) = 0"
    and "proto = IP_PROTOCOL_UDP \<and> zero_at q (a + 6) \<or> transport_valid_ipv4 q a b proto"
proof -
  note mp = transport_metadata_Ok [OF m]
  have h: "a = unat (p ! 0 AND 0x0f) * 4" "b = unat (be16 (p ! 2) (p ! 3))" "20 \<le> length p" "proto = p ! 9"
    using mp(6) [OF v] by (auto simp: ipv4_lengths_Ok)
  have pn: "proto = proto_number (protocol tr)" and hd: "header_ok (protocol tr) (take (b - a) (drop a p))"
    using f tp unfolding parse_flow_key_ipv4 [OF m v] transport_ports_Ok by auto
  have len: "a + 8 \<le> b" "a + csum_at (protocol tr) + 2 \<le> b" "b \<le> 65535" "a \<le> b" "20 \<le> a" "b \<le> length p"
    using header_ok_fits [OF hd] mp(1-3) h(2) unat_u16_less [of "be16 (p ! 2) (p ! 3)"] by auto
  let ?p1 = "splice p 12 (to_be_bytes 4 src)"
  let ?p2 = "splice ?p1 16 (to_be_bytes 4 dst)"
  have l2: "length ?p1 = length p" "length ?p2 = length p" using h(3) by (simp_all add: length_splice)
  have n2: "?p2 ! k = p ! k" if "k < 12 \<or> 20 \<le> k" for k using that h(3) l2 by (auto simp: nth_splice)
  obtain p3 where r3: "rewrite_transport ?p2 a b tr = Ok p3" and l3: "length p3 = length ?p2"
    and w3: "ports_written ?p2 p3 a tr"
    by (rule rewrite_transport_run [of a b ?p2 tr]) (use len l2 in simp_all)
  obtain p4 where r4: "write_header_checksum p3 a = Ok p4" and l4: "length p4 = length p3"
    and n4: "\<And>k. k \<noteq> 10 \<Longrightarrow> k \<noteq> 11 \<Longrightarrow> p4 ! k = p3 ! k" and c4: "internet_checksum (take a p4) = 0"
    by (rule write_header_checksum_run [of a p3]) (use len l2 l3 in simp_all)
  obtain q where rq: "(if proto = IP_PROTOCOL_UDP \<and> zero_at p4 (a + 6) then Ok p4
      else write_transport_checksum_ipv4 p4 a b proto) = Ok q" and lq: "length q = length p4"
    and nq: "\<And>k. k \<noteq> a + csum_at (protocol tr) \<Longrightarrow> k \<noteq> a + csum_at (protocol tr) + 1 \<Longrightarrow> q ! k = p4 ! k"
    and vq: "proto = IP_PROTOCOL_UDP \<and> zero_at q (a + 6) \<or> transport_valid_ipv4 q a b proto"
    by (rule ipv4_transport_checksum_run [OF pn, of a b p4]) (use len l2 l3 l4 in simp_all)
  have low: "q ! k = ?p2 ! k" if "k < a" "k \<noteq> 10" "k \<noteq> 11" for k
    using nq [of k] n4 [of k] ports_written_low [OF w3] that by simp
  have lq': "length q = length p" using lq l4 l3 l2 by simp
  have addr: "take 4 (drop 12 q) = to_be_bytes 4 src" "take 4 (drop 16 q) = to_be_bytes 4 dst"
    by (rule nth_equalityI; use h(3) l2 lq' len(5) in \<open>simp add: low nth_splice\<close>)+
  have "p4 ! 9 = proto" "p \<noteq> []"
    using n4 [of 9] ports_written_low [OF w3, of 9] n2 [of 9] len(5) h(3,4) by auto
  then have run: "rewrite_ipv4_packet p src dst tr = Ok q"
    using h(3) l2 l3 l4 r3 r4 rq unfolding rewrite_ipv4_packet_def
    by (simp add: rd8_in rd16_in put_in h(1,2) [symmetric])
  have keep: "q ! k = p ! k" if "k < 10 \<or> 20 \<le> k \<and> k < a" for k
    using that low [of k] n2 [of k] len(5) by auto
  have tb: "translated_bytes p q a tr"
    by (rule translated_bytesI [OF w3]) (use len(5) in \<open>simp_all add: n2 nq n4\<close>)
  have "take a q = take a p4" by (rule nth_equalityI) (use lq in \<open>simp_all add: nq\<close>)
  then have ck: "internet_checksum (take a q) = 0" using c4 by simp
  from run lq' keep addr tb ck vq show ?thesis by (rule that)
qed

lemma rewrite_ipv6_run:
  assumes f: "parse_flow_key p = Ok f" and m: "transport_metadata p = Ok (proto, a, b)"
    and v: "drop_bit 4 (p ! 0) = 6" and tp: "protocol tr = protocol f"
  obtains q where "rewrite_ipv6_packet p src dst tr = Ok q" and "length q = length p"
    and "\<And>k. k < 8 \<or> 40 \<le> k \<and> k < a \<Longrightarrow> q ! k = p ! k"
    and "take 16 (drop 8 q) = to_be_bytes 16 src" and "take 16 (drop 24 q) = to_be_bytes 16 dst"
    and "translated_bytes p q a tr" and "transport_valid_ipv6 q a b proto"
    and "proto = IP_PROTOCOL_UDP \<Longrightarrow> \<not> zero_at q (a + 6)"
proof -
  note mp = transport_metadata_Ok [OF m]
  have h: "ipv6_transport_offset 8 p b (p ! 6) 40 = Ok (proto, a)" "b = 40 + unat (be16 (p ! 4) (p ! 5))"
    "40 \<le> length p" "40 \<le> a"
    using mp(7) [OF v] by (auto simp: ipv6_length_Ok)
  have pn: "proto = proto_number (protocol tr)" and hd: "header_ok (protocol tr) (take (b - a) (drop a p))"
    using f tp unfolding parse_flow_key_ipv6 [OF m v] transport_ports_Ok by auto
  then have co: "checksum_offset proto = Ok (csum_at (protocol tr))" by simp
  have len: "a + 8 \<le> b" "a + csum_at (protocol tr) + 2 \<le> b" "b \<le> 65600" "a \<le> b" "b \<le> length p"
    using header_ok_fits [OF hd] mp(2,3) h(2) unat_u16_less [of "be16 (p ! 4) (p ! 5)"] by auto
  let ?p1 = "splice p 8 (to_be_bytes 16 src)"
  let ?p2 = "splice ?p1 24 (to_be_bytes 16 dst)"
  have l2: "length ?p1 = length p" "length ?p2 = length p" using h(3) by (simp_all add: length_splice)
  have n2: "?p2 ! k = p ! k" if "k < 8 \<or> 40 \<le> k" for k using that h(3) l2 by (auto simp: nth_splice)
  obtain p3 where r3: "rewrite_transport ?p2 a b tr = Ok p3" and l3: "length p3 = length ?p2"
    and w3: "ports_written ?p2 p3 a tr"
    by (rule rewrite_transport_run [of a b ?p2 tr]) (use len l2 in simp_all)
  obtain q where rq: "write_transport_checksum_ipv6 p3 a b proto = Ok q" and lq: "length q = length p3"
    and nq: "\<And>k. k \<noteq> a + csum_at (protocol tr) \<Longrightarrow> k \<noteq> a + csum_at (protocol tr) + 1 \<Longrightarrow> q ! k = p3 ! k"
    and vq: "transport_valid_ipv6 q a b proto"
    and zq: "proto = IP_PROTOCOL_UDP \<Longrightarrow>
      be16 (q ! (a + csum_at (protocol tr))) (q ! (a + csum_at (protocol tr) + 1)) \<noteq> 0"
    by (rule write_transport_checksum_ipv6_run [OF co h(4), of b p3]) (use len l2 l3 in simp_all)
  have low: "q ! k = ?p2 ! k" if "k < a" for k
    using nq [of k] ports_written_low [OF w3] that by simp
  have lq': "length q = length p" using lq l3 l2 by simp
  have addr: "take 16 (drop 8 q) = to_be_bytes 16 src" "take 16 (drop 24 q) = to_be_bytes 16 dst"
    by (rule nth_equalityI; use h(3,4) l2 lq' in \<open>simp add: low nth_splice\<close>)+
  have run: "rewrite_ipv6_packet p src dst tr = Ok q"
    using h(1,3) l2 l3 r3 rq unfolding rewrite_ipv6_packet_def
    by (simp add: rd8_in rd16_in put_in h(2) [symmetric])
  have keep: "q ! k = p ! k" if "k < 8 \<or> 40 \<le> k \<and> k < a" for k
    using that low [of k] n2 [of k] h(4) by auto
  have tb: "translated_bytes p q a tr"
    by (rule translated_bytesI [OF w3]) (use h(4) in \<open>simp_all add: n2 nq\<close>)
  have z: "\<not> zero_at q (a + 6)" if udp: "proto = IP_PROTOCOL_UDP"
  proof -
    have "csum_at (protocol tr) = 6" using pn udp by (cases "protocol tr") simp_all
    then show ?thesis using zq [OF udp] be16_consts(1) by (auto simp: zero_at_iff add.assoc)
  qed
  from run lq' keep addr tb vq z show ?thesis by (rule that)
qed

section \<open>Properties\<close>

definition same_family :: "ip_addr \<Rightarrow> ip_addr \<Rightarrow> bool" where
  "same_family x y = (case (x, y) of (V4 _, V4 _) \<Rightarrow> True | (V6 _, V6 _) \<Rightarrow> True | _ \<Rightarrow> False)"

definition translatable :: "flow_key \<Rightarrow> flow_key \<Rightarrow> bool" where
  "translatable f tr \<longleftrightarrow> protocol f = protocol tr \<and> same_family (source f) (source tr) \<and>
    same_family (destination f) (destination tr)"

lemma from_to_be_bytes_u32: "from_be_bytes (to_be_bytes 4 w) = w" for w :: u32
  using unat_u32_less [of w] by (intro from_to_be_bytes) simp

lemma from_to_be_bytes_u128: "from_be_bytes (to_be_bytes 16 w) = w" for w :: "128 word"
  using unsigned_less [of w, where 'a = nat] by (intro from_to_be_bytes) simp

definition rewritten :: "bytes \<Rightarrow> flow_key \<Rightarrow> bytes \<Rightarrow> bool" where
  "rewritten p tr q \<longleftrightarrow> length q = length p \<and> validate_packet_checksums q = Ok () \<and>
    (echo_kind tr \<longrightarrow> parse_flow_key q = Ok tr) \<and> (protocol tr = Udp \<longrightarrow> udp_payload q = udp_payload p)"

lemma translated_payload:
  assumes m: "transport_metadata p = Ok (proto, a, b)" and mq: "transport_metadata q = Ok (proto, a, b)"
    and l: "length q = length p" and tb: "translated_bytes p q a tr" and udp: "protocol tr = Udp"
  shows "udp_payload q = udp_payload p"
proof -
  have k: "q ! k = p ! k" if "a \<le> k" "k = a + 4 \<or> k = a + 5 \<or> a + 8 \<le> k" for k
    using tb that udp unfolding translated_bytes_def Let_def by (auto simp: sport_at_def dport_at_def)
  have "rd16 (take 8 (drop a q)) 4 = (rd16 (take 8 (drop a p)) 4 :: (u16, packet_error) result)" if "a + 8 \<le> length p"
    using that l k [of "a + 4"] k [of "a + 5"] by (simp add: rd16_in)
  then have "validate_udp_layout q a b = validate_udp_layout p a b"
    using l by (simp add: validate_udp_layout_def slice_get_def)
  then have r: "udp_payload_range q = udp_payload_range p" by (simp add: udp_payload_range_def m mq)
  have "slice_at q i j = (slice_at p i j :: (bytes, packet_error) result)" if "udp_payload_range p = Ok (i, j)" for i j
  proof -
    have ij: "i = a + 8" "i \<le> j" "j \<le> length p" using that m by (auto elim!: udp_payload_range_OkE)
    then have "take (j - i) (drop i q) = take (j - i) (drop i p)"
      using l k by (intro nth_equalityI) auto
    then show ?thesis using ij l by (simp add: slice_at_in)
  qed
  then show ?thesis unfolding udp_payload_def r
    by (cases "udp_payload_range p") (auto split: prod.split)
qed

lemma rewrite_packet_ipv4:
  assumes f: "parse_flow_key p = Ok f" and v: "drop_bit 4 (p ! 0) = 4" and tr: "translatable f tr"
  shows "\<exists>q. rewrite_packet p tr = Ok q \<and> rewritten p tr q"
proof -
  obtain proto a b where m: "transport_metadata p = Ok (proto, a, b)" by (rule parse_flow_key_meta [OF f])
  note mp = transport_metadata_Ok [OF m] and pf = f [unfolded parse_flow_key_ipv4 [OF m v]]
  obtain src dst where sd: "source tr = V4 src" "destination tr = V4 dst"
    using tr pf unfolding translatable_def same_family_def by (auto split: ip_addr.splits)
  have tp: "protocol tr = protocol f" using tr by (simp add: translatable_def)
  have pn: "proto = proto_number (protocol tr)" and hd: "header_ok (protocol tr) (take (b - a) (drop a p))"
    using pf tp unfolding transport_ports_Ok by auto
  obtain q where r: "rewrite_ipv4_packet p src dst tr = Ok q" and l: "length q = length p"
    and k: "\<And>k. k < 10 \<or> 20 \<le> k \<and> k < a \<Longrightarrow> q ! k = p ! k"
    and addr: "take 4 (drop 12 q) = to_be_bytes 4 src" "take 4 (drop 16 q) = to_be_bytes 4 dst"
    and tb: "translated_bytes p q a tr" and hc: "internet_checksum (take a q) = 0"
    and tv: "proto = IP_PROTOCOL_UDP \<and> zero_at q (a + 6) \<or> transport_valid_ipv4 q a b proto"
    by (rule rewrite_ipv4_run [OF f m v tp]) (rule that)
  have run: "rewrite_packet p tr = Ok q"
    using f pf r sd tp by (simp add: rewrite_packet_def)
  have mq: "transport_metadata q = Ok (proto, a, b)"
    by (rule transport_metadata_agree [OF m l]) (simp_all add: k)
  have vq: "drop_bit 4 (q ! 0) = 4" using v k [of 0] by simp
  have valid: "validate_packet_checksums q = Ok ()"
    unfolding validate_Ok_ipv4 [OF mq vq]
    using hc tv udp_layout_translated [OF hd mp(2,3) l tb, folded pn] by blast
  have "parse_flow_key q = Ok tr" if e: "echo_kind tr"
    unfolding parse_flow_key_ipv4 [OF mq vq]
    using pf k [of 6] k [of 7] addr sd translated_ports [OF hd mp(3) l tb e] pn
    by (simp add: from_to_be_bytes_u32)
  then show ?thesis
    using run l valid translated_payload [OF m mq l tb] unfolding rewritten_def by blast
qed

lemma rewrite_packet_ipv6:
  assumes f: "parse_flow_key p = Ok f" and v: "drop_bit 4 (p ! 0) = 6" and tr: "translatable f tr"
  shows "\<exists>q. rewrite_packet p tr = Ok q \<and> rewritten p tr q"
proof -
  obtain proto a b where m: "transport_metadata p = Ok (proto, a, b)" by (rule parse_flow_key_meta [OF f])
  note mp = transport_metadata_Ok [OF m] and pf = f [unfolded parse_flow_key_ipv6 [OF m v]]
  obtain src dst where sd: "source tr = V6 src" "destination tr = V6 dst"
    using tr pf unfolding translatable_def same_family_def by (auto split: ip_addr.splits)
  have tp: "protocol tr = protocol f" using tr by (simp add: translatable_def)
  have pn: "proto = proto_number (protocol tr)" and hd: "header_ok (protocol tr) (take (b - a) (drop a p))"
    using pf tp unfolding transport_ports_Ok by auto
  obtain q where r: "rewrite_ipv6_packet p src dst tr = Ok q" and l: "length q = length p"
    and k: "\<And>k. k < 8 \<or> 40 \<le> k \<and> k < a \<Longrightarrow> q ! k = p ! k"
    and addr: "take 16 (drop 8 q) = to_be_bytes 16 src" "take 16 (drop 24 q) = to_be_bytes 16 dst"
    and tb: "translated_bytes p q a tr" and tv: "transport_valid_ipv6 q a b proto"
    and z: "proto = IP_PROTOCOL_UDP \<Longrightarrow> \<not> zero_at q (a + 6)"
    by (rule rewrite_ipv6_run [OF f m v tp]) (rule that)
  have run: "rewrite_packet p tr = Ok q"
    using f pf r sd tp by (simp add: rewrite_packet_def)
  have mq: "transport_metadata q = Ok (proto, a, b)"
    by (rule transport_metadata_agree [OF m l]) (simp_all add: k v)
  have vq: "drop_bit 4 (q ! 0) = 6" using v k [of 0] by simp
  have "checksum_offset proto = Ok (csum_at (protocol tr))" using pn by simp
  then have valid: "validate_packet_checksums q = Ok ()"
    unfolding validate_Ok_ipv6 [OF mq vq]
    using tv z udp_layout_translated [OF hd mp(2,3) l tb, folded pn] by blast
  have "parse_flow_key q = Ok tr" if e: "echo_kind tr"
    unfolding parse_flow_key_ipv6 [OF mq vq]
    using pf addr sd translated_ports [OF hd mp(3) l tb e] pn
    by (simp add: from_to_be_bytes_u128)
  then show ?thesis
    using run l valid translated_payload [OF m mq l tb] unfolding rewritten_def by blast
qed

lemma parse_flow_key_version:
  assumes "parse_flow_key p = Ok f"
  shows "drop_bit 4 (p ! 0) = 4 \<or> drop_bit 4 (p ! 0) = 6"
  using parse_flow_key_meta [OF assms] transport_metadata_Ok(5) by metis

lemma rewrite_packet_run:
  "parse_flow_key p = Ok f \<Longrightarrow> translatable f tr \<Longrightarrow> \<exists>q. rewrite_packet p tr = Ok q \<and> rewritten p tr q"
  using parse_flow_key_version rewrite_packet_ipv4 rewrite_packet_ipv6 by blast

lemma rewrite_packet_refused:
  "parse_flow_key p = Ok f \<Longrightarrow> \<not> translatable f tr \<Longrightarrow> rewrite_packet p tr = Err InvalidTranslation"
  by (auto simp: rewrite_packet_def translatable_def same_family_def guard_err_def split: ip_addr.splits)

section \<open>Forwarding\<close>

definition hop_limit :: "bytes \<Rightarrow> u8" where
  "hop_limit p = (if drop_bit 4 (p ! 0) = 4 then p ! 8 else p ! 7)"

lemma slice_cong:
  assumes "length q = length p" and "\<And>k. a \<le> k \<Longrightarrow> k < a + n \<Longrightarrow> q ! k = p ! k"
  shows "take n (drop a q) = take n (drop a p)"
  by (rule nth_equalityI) (use assms in auto)

lemma ok_eqI: "(\<And>x. r = Ok x \<longleftrightarrow> s = Ok x) \<Longrightarrow> ok r = ok s"
  by (cases r; cases s) auto

lemma validate_udp_layout_cong:
  assumes "length q = length p" and "\<And>k. a \<le> k \<Longrightarrow> q ! k = p ! k"
  shows "validate_udp_layout q a b = validate_udp_layout p a b"
proof -
  have "take 8 (drop a q) = take 8 (drop a p)" by (rule slice_cong) (use assms in auto)
  then show ?thesis using assms(1) by (simp add: validate_udp_layout_def slice_get_def)
qed

lemma validate_meta:
  assumes "validate_packet_checksums p = Ok ()"
  obtains proto a b where "transport_metadata p = Ok (proto, a, b)"
  using assms by (auto simp: validate_packet_checksums_def and_then_eq_Ok)

text \<open>Changing the time to live and the header checksum of an IPv4 packet.\<close>

lemma forwarded_ipv4:
  assumes val: "validate_packet_checksums p = Ok ()" and m: "transport_metadata p = Ok (proto, a, b)"
    and v: "drop_bit 4 (p ! 0) = 4" and l: "length q = length p"
    and keep: "\<And>k. k \<noteq> 8 \<Longrightarrow> k \<noteq> 10 \<Longrightarrow> k \<noteq> 11 \<Longrightarrow> q ! k = p ! k"
    and hc: "internet_checksum (take a q) = 0"
  shows "validate_packet_checksums q = Ok ()" and "ok (parse_flow_key q) = ok (parse_flow_key p)"
proof -
  note mp = transport_metadata_Ok [OF m]
  have mq: "transport_metadata q = Ok (proto, a, b)"
    by (rule transport_metadata_agree [OF m l]) (simp_all add: keep)
  have vq: "drop_bit 4 (q ! 0) = 4" using v keep [of 0] by simp
  have hi: "q ! k = p ! k" if "12 \<le> k" for k using keep [of k] that by simp
  have seg: "take n (drop k q) = take n (drop k p)" if "12 \<le> k" for k n
    by (rule slice_cong [OF l]) (use that hi in auto)
  have lay: "validate_udp_layout q a b = validate_udp_layout p a b"
    by (rule validate_udp_layout_cong [OF l]) (use mp(1) hi in auto)
  have z: "zero_at q (a + 6) = zero_at p (a + 6)" using mp(1) hi l by (simp add: zero_at_iff)
  have tv: "transport_valid_ipv4 q a b proto = transport_valid_ipv4 p a b proto"
    using mp(1) by (simp add: transport_valid_ipv4_def pseudo_ipv4_def seg)
  show "validate_packet_checksums q = Ok ()"
    using val hc unfolding validate_Ok_ipv4 [OF m v] validate_Ok_ipv4 [OF mq vq] lay z tv by blast
  show "ok (parse_flow_key q) = ok (parse_flow_key p)"
    by (rule ok_eqI) (use mp(1) in
      \<open>simp add: parse_flow_key_ipv4 [OF m v] parse_flow_key_ipv4 [OF mq vq] seg keep\<close>)
qed

lemma forwarded_ipv6:
  assumes val: "validate_packet_checksums p = Ok ()" and m: "transport_metadata p = Ok (proto, a, b)"
    and v: "drop_bit 4 (p ! 0) = 6" and l: "length q = length p"
    and keep: "\<And>k. k \<noteq> 7 \<Longrightarrow> q ! k = p ! k"
  shows "validate_packet_checksums q = Ok ()" and "ok (parse_flow_key q) = ok (parse_flow_key p)"
proof -
  note mp = transport_metadata_Ok [OF m]
  have mq: "transport_metadata q = Ok (proto, a, b)"
    by (rule transport_metadata_agree [OF m l]) (simp_all add: keep)
  have vq: "drop_bit 4 (q ! 0) = 6" using v keep [of 0] by simp
  have hi: "q ! k = p ! k" if "8 \<le> k" for k using keep [of k] that by simp
  have seg: "take n (drop k q) = take n (drop k p)" if "8 \<le> k" for k n
    by (rule slice_cong [OF l]) (use that hi in auto)
  have lay: "validate_udp_layout q a b = validate_udp_layout p a b"
    by (rule validate_udp_layout_cong [OF l]) (use mp(1) hi in auto)
  have z: "zero_at q (a + 6) = zero_at p (a + 6)" using mp(1) hi l by (simp add: zero_at_iff)
  have tv: "transport_valid_ipv6 q a b proto = transport_valid_ipv6 p a b proto"
    using mp(1) by (simp add: transport_valid_ipv6_def pseudo_ipv6_def seg)
  show "validate_packet_checksums q = Ok ()"
    using val unfolding validate_Ok_ipv6 [OF m v] validate_Ok_ipv6 [OF mq vq] lay z tv by blast
  show "ok (parse_flow_key q) = ok (parse_flow_key p)"
    by (rule ok_eqI) (use mp(1) in
      \<open>simp add: parse_flow_key_ipv6 [OF m v] parse_flow_key_ipv6 [OF mq vq] seg\<close>)
qed

lemma prepare_ipv4_run:
  assumes val: "validate_packet_checksums p = Ok ()" and v: "drop_bit 4 (p ! 0) = 4" and ttl: "1 < p ! 8"
  obtains q where "(let h = unat (p ! 0 AND 0x0f) * 4 in
      and_then (put p 8 [p ! 8 - 1]) (\<lambda>q. write_header_checksum q h)) = (Ok q :: (bytes, packet_error) result)"
    and "length q = length p" and "hop_limit q = hop_limit p - 1"
    and "validate_packet_checksums q = Ok ()" and "ok (parse_flow_key q) = ok (parse_flow_key p)"
proof -
  obtain proto a b where m: "transport_metadata p = Ok (proto, a, b)" by (rule validate_meta [OF val])
  note mp = transport_metadata_Ok [OF m]
  have h: "a = unat (p ! 0 AND 0x0f) * 4" "20 \<le> a" "a \<le> length p" "a \<le> 65535"
    using mp(6) [OF v] unat_u16_less [of "be16 (p ! 2) (p ! 3)"] by (auto simp: ipv4_lengths_Ok)
  let ?p = "splice p 8 [p ! 8 - 1]"
  have l: "length ?p = length p" using h by (simp add: length_splice)
  obtain q where r: "write_header_checksum ?p a = Ok q" and lq: "length q = length ?p"
    and n: "\<And>k. k \<noteq> 10 \<Longrightarrow> k \<noteq> 11 \<Longrightarrow> q ! k = ?p ! k" and c: "internet_checksum (take a q) = 0"
    by (rule write_header_checksum_run [of a ?p]) (use h l in simp_all)
  have keep: "q ! k = p ! k" if "k \<noteq> 8" "k \<noteq> 10" "k \<noteq> 11" for k
    using that h n [of k] by (auto simp: nth_splice)
  have lq': "length q = length p" using lq l by simp
  have run: "(let h = unat (p ! 0 AND 0x0f) * 4 in
      and_then (put p 8 [p ! 8 - 1]) (\<lambda>q. write_header_checksum q h)) = Ok q"
    using h r by (simp add: put_in Let_def)
  have "q ! 8 = p ! 8 - 1" using n [of 8] h by (simp add: nth_splice)
  then have hop: "hop_limit q = hop_limit p - 1" using keep [of 0] v by (simp add: hop_limit_def)
  from run lq' hop forwarded_ipv4 [OF val m v lq' keep c] show ?thesis by (rule that)
qed

lemma prepare_ipv6_run:
  assumes val: "validate_packet_checksums p = Ok ()" and v: "drop_bit 4 (p ! 0) = 6" and ttl: "1 < p ! 7"
  obtains q where "put p 7 [p ! 7 - 1] = (Ok q :: (bytes, packet_error) result)"
    and "length q = length p" and "hop_limit q = hop_limit p - 1"
    and "validate_packet_checksums q = Ok ()" and "ok (parse_flow_key q) = ok (parse_flow_key p)"
proof -
  obtain proto a b where m: "transport_metadata p = Ok (proto, a, b)" by (rule validate_meta [OF val])
  let ?q = "splice p 7 [p ! 7 - 1]"
  have l: "8 \<le> length p" using transport_metadata_Ok(1-3) [OF m] by simp
  then have lq: "length ?q = length p" and run: "put p 7 [p ! 7 - 1] = Ok ?q"
    by (simp_all add: length_splice put_in)
  have keep: "?q ! k = p ! k" if "k \<noteq> 7" for k using that l by (auto simp: nth_splice)
  have hop: "hop_limit ?q = hop_limit p - 1" using keep [of 0] v l by (simp add: hop_limit_def nth_splice)
  from run lq hop forwarded_ipv6 [OF val m v lq keep] show ?thesis by (rule that)
qed

lemma validate_no_panic [no_panic]: "validate_packet_checksums p \<noteq> Panic"
proof -
  have "validate_packet_checksums p \<noteq> Panic" if m: "transport_metadata p = Ok (proto, a, b)" for proto a b
  proof -
    have b: "20 \<le> a" "a \<le> b" "b \<le> length p" "0 < length p" using transport_metadata_Ok(1-4) [OF m] by auto
    have "40 \<le> a" if "drop_bit 4 (p ! 0) = 6" using transport_metadata_Ok(7) [OF m that] by simp
    then show ?thesis
      using b unfolding validate_packet_checksums_def
      by (auto simp: m Let_def and_then_eq_Panic rd8_in slice_at_in transport_sum_ipv4_in
          transport_sum_ipv6_in guard_err_eq_Panic no_panic split: if_splits)
  qed
  then show ?thesis
    unfolding validate_packet_checksums_def by (cases "transport_metadata p") (auto simp: no_panic)
qed

lemma prepare_forwarded_valid:
  assumes val: "validate_packet_checksums p = Ok ()"
  shows "prepare_forwarded_packet p =
    and_then (ip_packet_is_fragmented p) (\<lambda>fragmented.
      guard_err fragmented NonInitialFragment (guard_err (hop_limit p \<le> 1) HopLimitExceeded
        (if drop_bit 4 (p ! 0) = 4
         then let h = unat (p ! 0 AND 0x0f) * 4 in and_then (put p 8 [p ! 8 - 1]) (\<lambda>q. write_header_checksum q h)
         else put p 7 [p ! 7 - 1])))"
proof -
  obtain proto a b where m: "transport_metadata p = Ok (proto, a, b)" by (rule validate_meta [OF val])
  note mp = transport_metadata_Ok [OF m]
  have l: "20 \<le> length p" "p \<noteq> []" using mp by auto
  then have "ip_version p = Ok (drop_bit 4 (p ! 0))" by (simp add: ip_version_Ok)
  then show ?thesis
    using mp(5,6,7) l val unfolding prepare_forwarded_packet_def
    by (auto simp: rd8_in ipv4_lengths_Ok ipv6_length_Ok hop_limit_def Let_def)
qed

section \<open>Handing packets on\<close>

lemma prepare_forwarded_Ok:
  assumes "prepare_forwarded_packet p = Ok q"
  shows "ip_packet_is_fragmented p = Ok False \<and> validate_packet_checksums p = Ok () \<and>
    1 < hop_limit p \<and> hop_limit q = hop_limit p - 1 \<and> length q = length p \<and>
    ok (parse_flow_key q) = ok (parse_flow_key p) \<and> validate_packet_checksums q = Ok ()"
proof -
  have val: "validate_packet_checksums p = Ok ()"
    using assms unfolding prepare_forwarded_packet_def by (auto simp: and_then_eq_Ok guard_err_eq_Ok)
  have frag: "ip_packet_is_fragmented p = Ok False" and hop: "1 < hop_limit p"
    and step: "(if drop_bit 4 (p ! 0) = 4
         then let h = unat (p ! 0 AND 0x0f) * 4 in and_then (put p 8 [p ! 8 - 1]) (\<lambda>q. write_header_checksum q h)
         else put p 7 [p ! 7 - 1]) = Ok q"
    using assms unfolding prepare_forwarded_valid [OF val] by (auto simp: and_then_eq_Ok guard_err_eq_Ok not_le)
  obtain proto a b where m: "transport_metadata p = Ok (proto, a, b)" by (rule validate_meta [OF val])
  have "hop_limit q = hop_limit p - 1 \<and> length q = length p \<and> ok (parse_flow_key q) = ok (parse_flow_key p) \<and>
    validate_packet_checksums q = Ok ()"
  proof (cases "drop_bit 4 (p ! 0) = 4")
    case True
    have "1 < p ! 8" using hop True by (simp add: hop_limit_def)
    then show ?thesis using step True by (elim prepare_ipv4_run [OF val True]) simp
  next
    case False
    then have six: "drop_bit 4 (p ! 0) = 6" using transport_metadata_Ok(5) [OF m] by blast
    have "1 < p ! 7" using hop False by (simp add: hop_limit_def)
    then show ?thesis using step False by (elim prepare_ipv6_run [OF val six]) simp
  qed
  then show ?thesis using frag val hop by blast
qed

lemma prepare_keeps_flow: "prepare_forwarded_packet p = Ok q \<Longrightarrow> ok (parse_flow_key p) = ok (parse_flow_key q)"
  using prepare_forwarded_Ok by metis

lemma prepare_no_panic [no_panic]: "prepare_forwarded_packet p \<noteq> Panic"
proof (cases "validate_packet_checksums p")
  case (Ok u)
  then have val: "validate_packet_checksums p = Ok ()" by simp
  obtain proto a b where m: "transport_metadata p = Ok (proto, a, b)" by (rule validate_meta [OF val])
  have "(if drop_bit 4 (p ! 0) = 4
         then let h = unat (p ! 0 AND 0x0f) * 4 in and_then (put p 8 [p ! 8 - 1]) (\<lambda>q. write_header_checksum q h)
         else put p 7 [p ! 7 - 1]) \<noteq> (Panic :: (bytes, packet_error) result)" if hop: "1 < hop_limit p"
  proof (cases "drop_bit 4 (p ! 0) = 4")
    case True
    have "1 < p ! 8" using hop True by (simp add: hop_limit_def)
    then show ?thesis using True by (elim prepare_ipv4_run [OF val True]) simp
  next
    case False
    then have six: "drop_bit 4 (p ! 0) = 6" using transport_metadata_Ok(5) [OF m] by blast
    have "1 < p ! 7" using hop False by (simp add: hop_limit_def)
    then show ?thesis using False by (elim prepare_ipv6_run [OF val six]) simp
  qed
  then show ?thesis
    unfolding prepare_forwarded_valid [OF val]
    by (auto simp: and_then_eq_Panic guard_err_eq_Panic ip_packet_is_fragmented_no_panic not_le)
next
  case (Err e)
  then show ?thesis unfolding prepare_forwarded_packet_def
    by (auto simp: and_then_eq_Panic guard_err_eq_Panic ip_packet_is_fragmented_no_panic)
next
  case Panic
  then show ?thesis using validate_no_panic [of p] by simp
qed

lemma rewrite_packet_OkD:
  assumes "rewrite_packet p tr = Ok q"
  obtains f where "parse_flow_key p = Ok f" and "translatable f tr" and "rewritten p tr q"
proof -
  obtain f where f: "parse_flow_key p = Ok f" using assms by (auto simp: rewrite_packet_def and_then_eq_Ok)
  then have tr: "translatable f tr" using rewrite_packet_refused [OF f, of tr] assms by auto
  then show ?thesis using that [OF f tr] rewrite_packet_run [OF f tr] assms by auto
qed

lemma rewrite_packet_no_panic [no_panic]: "rewrite_packet p tr \<noteq> Panic"
proof (cases "parse_flow_key p")
  case (Ok f)
  then show ?thesis using rewrite_packet_run [OF Ok, of tr] rewrite_packet_refused [OF Ok, of tr]
    by (cases "translatable f tr") auto
qed (simp_all add: rewrite_packet_def no_panic parse_flow_key_no_panic [of p, THEN notE])

text \<open>A flow key that was read from a packet names an echo message if it is ICMP.\<close>

lemma parse_flow_key_echo:
  assumes f: "parse_flow_key p = Ok f"
  shows "echo_kind f"
proof -
  obtain proto a b where m: "transport_metadata p = Ok (proto, a, b)" by (rule parse_flow_key_meta [OF f])
  have "transport_ports proto (take (b - a) (drop a p)) = Ok (source_port f, destination_port f, protocol f)"
    using parse_flow_key_version [OF f] f parse_flow_key_ipv4 [OF m] parse_flow_key_ipv6 [OF m] by blast
  then have h: "header_ok (protocol f) (take (b - a) (drop a p))"
    and d: "destination_port f = be16 (take (b - a) (drop a p) ! dport_at (protocol f))
      (take (b - a) (drop a p) ! (dport_at (protocol f) + 1))"
    unfolding transport_ports_Ok by auto
  show ?thesis
    using h d unfolding echo_kind_def be16_consts
    by (cases "protocol f") (auto simp: dport_at_def simp del: nth_take nth_drop length_take length_drop)
qed

text \<open>The flow key depends on the headers only.\<close>

lemma parse_flow_key_agree:
  assumes f: "parse_flow_key p = Ok f" and m: "transport_metadata p = Ok (proto, a, b)"
    and l: "length q = length p" and k: "\<And>k. k < a + 8 \<Longrightarrow> q ! k = p ! k"
    and tcp: "protocol f = Tcp \<Longrightarrow> q ! (a + 12) = p ! (a + 12)"
  shows "parse_flow_key q = Ok f"
proof -
  note mp = transport_metadata_Ok [OF m]
  have mq: "transport_metadata q = Ok (proto, a, b)"
    by (rule transport_metadata_agree [OF m l]) (use mp(1) in \<open>simp_all add: k\<close>)
  let ?s = "take (b - a) (drop a p)" and ?u = "take (b - a) (drop a q)"
  have un: "?u ! i = ?s ! i" if "q ! (a + i) = p ! (a + i)" "i < length ?s" for i using that mp(3) l by auto
  have len: "length ?u = length ?s" using l by simp
  have ports: "transport_ports proto ?u = Ok (source_port f, destination_port f, protocol f)"
    if t: "transport_ports proto ?s = Ok (source_port f, destination_port f, protocol f)"
  proof -
    have h: "header_ok (protocol f) ?s" using t unfolding transport_ports_Ok by auto
    have i: "?u ! i = ?s ! i" if "i < 8" for i
      using un [of i] k [of "a + i"] header_ok_fits [OF h] that by linarith
    have "protocol f = Tcp \<Longrightarrow> ?u ! 12 = ?s ! 12" using un [of 12] h tcp by simp
    then have "header_ok (protocol f) ?u"
      using h i [of 0] i [of 1] i [of 4] i [of 5] len
      by (cases "protocol f") (simp_all del: nth_take nth_drop length_take length_drop)
    moreover have "sport_at (protocol f) + 1 < 8" "dport_at (protocol f) + 1 < 8"
      by (simp_all add: sport_at_def dport_at_def)
    then have "?u ! sport_at (protocol f) = ?s ! sport_at (protocol f)"
      "?u ! (sport_at (protocol f) + 1) = ?s ! (sport_at (protocol f) + 1)"
      "?u ! dport_at (protocol f) = ?s ! dport_at (protocol f)"
      "?u ! (dport_at (protocol f) + 1) = ?s ! (dport_at (protocol f) + 1)"
      by (intro i; linarith)+
    ultimately show ?thesis using t unfolding transport_ports_Ok by simp
  qed
  have seg: "take n (drop i q) = take n (drop i p)" if "i + n \<le> a + 8" for i n
    by (rule slice_cong [OF l]) (use k that in auto)
  have 0: "q ! 0 = p ! 0" "q ! 6 = p ! 6" "q ! 7 = p ! 7" using k by simp_all
  show ?thesis
  proof (cases "drop_bit 4 (p ! 0) = 4")
    case True
    then have vq: "drop_bit 4 (q ! 0) = 4" using 0 by simp
    show ?thesis using f ports mp(1)
      unfolding parse_flow_key_ipv4 [OF m True] parse_flow_key_ipv4 [OF mq vq] by (simp add: 0 seg)
  next
    case False
    then have v: "drop_bit 4 (p ! 0) = 6" using mp(5) by blast
    then have vq: "drop_bit 4 (q ! 0) = 6" and a: "40 \<le> a" using 0 mp(7) by simp_all
    show ?thesis using f ports a
      unfolding parse_flow_key_ipv6 [OF m v] parse_flow_key_ipv6 [OF mq vq] by (simp add: seg)
  qed
qed

lemma clamp_tcp_mss_total:
  assumes m: "transport_metadata p = Ok (proto, a, b)"
  shows "(\<exists>e. clamp_tcp_mss p mss = Err e) \<or>
    (\<exists>q c. clamp_tcp_mss p mss = Ok (q, c) \<and> length q = length p \<and> (\<forall>k<a + 20. q ! k = p ! k))"
proof (cases "proto = IP_PROTOCOL_TCP \<and> a + 20 \<le> length p")
  case True
  let ?n = "unat (drop_bit 4 (p ! (a + 12))) * 4"
  have eq: "clamp_tcp_mss p mss = (if p ! (a + 13) AND 0x02 = 0 then Ok (p, False)
      else guard_err (?n < 20 \<or> b < a + ?n) TruncatedTransportHeader
        (clamp_options p mss (a + 20) (a + ?n) False))"
    using conjunct1 [OF True] conjunct2 [OF True] m
    by (simp add: clamp_tcp_mss_def slice_get_def rd8_in Let_def)
  show ?thesis
  proof (cases "?n < 20 \<or> b < a + ?n")
    case False
    then obtain q c where "clamp_options p mss (a + 20) (a + ?n) False = Ok (q, c)"
      and "clamped p q mss (a + 20) (a + ?n) False c"
      using clamp_options_clamped [of "a + ?n" p mss "a + 20" False] transport_metadata_Ok(3) [OF m] by auto
    then show ?thesis using False unfolding eq clamped_def guard_err_def
      by (cases "p ! (a + 13) AND 0x02 = 0") auto
  qed (auto simp: eq guard_err_def)
next
  case False
  then show ?thesis using m by (auto simp: clamp_tcp_mss_def slice_get_def)
qed

lemma clamp_tcp_mss_flow:
  assumes f: "parse_flow_key p = Ok f" and c: "clamp_tcp_mss p mss = Ok (q, c)"
  shows "length q = length p" and "parse_flow_key q = Ok f"
proof -
  obtain proto a b where m: "transport_metadata p = Ok (proto, a, b)" by (rule parse_flow_key_meta [OF f])
  have l: "length q = length p" and k: "\<forall>k<a + 20. q ! k = p ! k"
    using clamp_tcp_mss_total [OF m, of mss] c by auto
  show "length q = length p" by (rule l)
  show "parse_flow_key q = Ok f" by (rule parse_flow_key_agree [OF f m l]) (use k in simp_all)
qed

lemma clamp_tcp_mss_no_panic:
  assumes "parse_flow_key p = Ok f"
  shows "clamp_tcp_mss p mss \<noteq> Panic"
  using parse_flow_key_meta [OF assms] clamp_tcp_mss_total by (metis result.distinct(3,5))

section \<open>Theorems\<close>

text \<open>
  C12: A packet that has a flow key, rewritten to a translated key of the same protocol and
  address family (for ICMP still an echo message), keeps its length and its UDP payload, is read
  back as exactly the translated key, and passes the checksum validation of the forwarding path.
\<close>

theorem rewrite_packet_roundtrip:
  assumes "parse_flow_key p = Ok f" and "translatable f tr" and "echo_kind tr"
  shows "\<exists>q. rewrite_packet p tr = Ok q \<and> length q = length p \<and> parse_flow_key q = Ok tr \<and>
    validate_packet_checksums q = Ok () \<and> (protocol tr = Udp \<longrightarrow> udp_payload q = udp_payload p)"
  using rewrite_packet_run [OF assms(1,2)] assms(3) by (auto simp: rewritten_def)

definition sample_udp :: bytes where
  "sample_udp = [69, 0, 0, 28, 0, 0, 0, 0, 64, 17, 102, 207, 10, 0, 0, 1, 10, 0, 0, 2, 48, 57, 0, 53, 0, 8, 0, 0]"

definition sample_udp_flow :: flow_key where
  "sample_udp_flow = \<lparr> source = V4 0x0a000001, destination = V4 0x0a000002, source_port = 12345,
     destination_port = 53, protocol = Udp \<rparr>"

definition sample_translated :: flow_key where
  "sample_translated = \<lparr> source = V4 0xc0a80001, destination = V4 0x0a000002, source_port = 40000,
     destination_port = 53, protocol = Udp \<rparr>"

theorem rewrite_packet_roundtrip_witness:
  "\<exists>q. rewrite_packet sample_udp sample_translated = Ok q \<and> length q = 28 \<and>
    parse_flow_key q = Ok sample_translated \<and> validate_packet_checksums q = Ok () \<and> udp_payload q = Ok []"
proof -
  have "parse_flow_key sample_udp = Ok sample_udp_flow" by code_simp
  moreover have "translatable sample_udp_flow sample_translated" and "echo_kind sample_translated"
    by code_simp+
  moreover have "length sample_udp = 28" and "udp_payload sample_udp = Ok []"
    and "protocol sample_translated = Udp" by code_simp+
  ultimately show ?thesis using rewrite_packet_roundtrip by metis
qed

text \<open>
  C33: Rewriting never indexes out of range, whatever the bytes.  It succeeds exactly
  on a packet whose flow key can be read and has the protocol and address families of the
  translated key; otherwise it reports the parse error or an invalid translation.
\<close>

theorem rewrite_packet_outcomes:
  "rewrite_packet p tr \<noteq> Panic \<and>
   (is_ok (rewrite_packet p tr) \<longleftrightarrow> (\<exists>f. parse_flow_key p = Ok f \<and> translatable f tr)) \<and>
   (rewrite_packet p tr = Err e \<longleftrightarrow> parse_flow_key p = Err e \<or>
     e = InvalidTranslation \<and> (\<exists>f. parse_flow_key p = Ok f \<and> \<not> translatable f tr))"
proof (cases "parse_flow_key p")
  case (Ok f)
  then show ?thesis using rewrite_packet_run [OF Ok, of tr] rewrite_packet_refused [OF Ok, of tr]
    by (cases "translatable f tr") (auto simp: is_ok_iff)
next
  case Panic
  then show ?thesis using parse_flow_key_no_panic [of p] by simp
qed (simp add: rewrite_packet_def)

text \<open>
  C34: A packet prepared for forwarding is not a fragment and had valid checksums and a hop limit
  above one; its hop limit is one less afterwards, its length and flow key are the same, and
  its checksums are valid again.
\<close>

theorem prepare_forwarded_correct:
  assumes "prepare_forwarded_packet p = Ok q"
  shows "ip_packet_is_fragmented p = Ok False \<and> validate_packet_checksums p = Ok () \<and>
    1 < hop_limit p \<and> hop_limit q = hop_limit p - 1 \<and> length q = length p \<and>
    ok (parse_flow_key q) = ok (parse_flow_key p) \<and> validate_packet_checksums q = Ok ()"
  using prepare_forwarded_Ok [OF assms] .

theorem prepare_forwarded_correct_witness:
  "prepare_forwarded_packet sample_udp = Ok [69, 0, 0, 28, 0, 0, 0, 0, 63, 17, 103, 207, 10, 0, 0, 1, 10, 0, 0, 2, 48, 57, 0, 53, 0, 8, 0, 0] \<and>
   validate_packet_checksums [69, 0, 0, 28, 0, 0, 0, 0, 63, 17, 103, 207, 10, 0, 0, 1, 10, 0, 0, 2, 48, 57, 0, 53, 0, 8, 0, 0] = Ok ()"
proof -
  have "prepare_forwarded_packet sample_udp = Ok [69, 0, 0, 28, 0, 0, 0, 0, 63, 17, 103, 207, 10, 0, 0, 1, 10, 0, 0, 2, 48, 57, 0, 53, 0, 8, 0, 0]" by code_simp
  then show ?thesis using prepare_forwarded_correct by blast
qed

end
