(* ===== verification/Dns_Message.thy ===== *)
theory Dns_Message
  imports Flow
begin

text \<open>
  Reading DNS messages, matching responses to queries, limiting the EDNS payload size and
  matching domain rules (the functions of \<open>flow_plane/dns.rs\<close>).  The loops of the source run
  a fixed number of rounds (128 per name, the record counts of the header); the round
  counter is the first argument of their models.  Text is a list of characters.
\<close>

section \<open>Model\<close>

definition DNS_PAYLOAD_MAX :: nat where "DNS_PAYLOAD_MAX = 1232"

record dns_question =
  qname :: string
  qtype :: u16
  qclass :: u16

datatype dns_route = Local dns_question | Remote dns_question | LocalFallback

datatype dns_transaction_key =
    Question socket_addr u16 string u16 u16
  | Opaque socket_addr "u16 option" u64

datatype dns_error =
    Truncated
  | NonStandardOpcode
  | QuestionCount
  | MalformedName
  | CapacityExhausted
  | NatPortExhausted
  | InvalidPortRange
  | ResponseMismatch
  | NotQuery

subsection \<open>Names\<close>

definition is_ascii_alphanumeric :: "u8 \<Rightarrow> bool" where
  "is_ascii_alphanumeric b = (48 \<le> b \<and> b \<le> 57 \<or> 65 \<le> b \<and> b \<le> 90 \<or> 97 \<le> b \<and> b \<le> 122)"

definition to_ascii_lowercase :: "u8 \<Rightarrow> u8" where
  "to_ascii_lowercase b = (if 65 \<le> b \<and> b \<le> 90 then b + 32 else b)"

text \<open>ASCII octets as text.\<close>

definition ascii_text :: "bytes \<Rightarrow> string" where
  "ascii_text = map (\<lambda>b. char_of (unat b))"

definition normalize_label :: "bytes \<Rightarrow> (string, dns_error) result" where
  "normalize_label label =
    (if label = [] \<or> hd label = 45 \<or> last label = 45 \<or>
        \<not> list_all (\<lambda>b. is_ascii_alphanumeric b \<or> b = 45) label
     then Err MalformedName
     else Ok (ascii_text (map to_ascii_lowercase label)))"

text \<open>\<open>labels.join(".")\<close>.\<close>

fun join_dot :: "string list \<Rightarrow> string" where
  "join_dot [] = []"
| "join_dot [l] = l"
| "join_dot (l # ls) = l @ CHR ''.'' # join_dot ls"

definition name_pointer :: "u8 \<Rightarrow> u8 \<Rightarrow> nat" where
  "name_pointer hi lo = unat (hi AND 0x3f) * 256 + unat lo"

fun parse_name_loop ::
  "nat \<Rightarrow> bytes \<Rightarrow> string list \<Rightarrow> nat option \<Rightarrow> nat list \<Rightarrow> nat \<Rightarrow> (string \<times> nat, dns_error) result" where
  "parse_name_loop 0 payload labels next_offset seen offset = Err MalformedName"
| "parse_name_loop (Suc n) payload labels next_offset seen offset =
    guard_err (offset \<in> set seen) MalformedName
     (and_then (ok_or (byte_get payload offset) Truncated) (\<lambda>len.
        if len AND 0xc0 = 0xc0 then
          and_then (ok_or (byte_get payload (offset + 1)) Truncated) (\<lambda>next_byte.
          let pointer = name_pointer len next_byte in
          guard_err (length payload \<le> pointer) MalformedName
           (parse_name_loop n payload labels
              (case next_offset of None \<Rightarrow> Some (offset + 2) | Some e \<Rightarrow> Some e)
              (offset # seen) pointer))
        else if len AND 0xc0 \<noteq> 0 then Err MalformedName
        else if len = 0 then
          guard_err (labels = []) MalformedName
           (Ok (join_dot labels, case next_offset of None \<Rightarrow> offset + 1 | Some e \<Rightarrow> e))
        else
          guard_err (63 < unat len) MalformedName
           (and_then (ok_or (slice_get payload (offset + 1) (offset + 1 + unat len)) Truncated) (\<lambda>label.
            and_then (normalize_label label) (\<lambda>text.
              parse_name_loop n payload (labels @ [text]) next_offset (offset # seen)
                (offset + 1 + unat len))))))"

definition parse_name :: "bytes \<Rightarrow> nat \<Rightarrow> (string \<times> nat, dns_error) result" where
  "parse_name payload offset = parse_name_loop 128 payload [] None [] offset"

definition validate_name_pointer :: "bytes \<Rightarrow> nat \<Rightarrow> nat \<Rightarrow> (unit, dns_error) result" where
  "validate_name_pointer payload offset owner_start =
    and_then (ok_or (byte_get payload (offset + 1)) Truncated) (\<lambda>next_byte.
    and_then (rd8 payload offset) (\<lambda>first.
      let pointer = name_pointer first next_byte in
      guard_err (owner_start \<le> pointer) MalformedName
       (and_then (parse_name payload pointer) (\<lambda>_. Ok ()))))"

fun skip_name_loop :: "nat \<Rightarrow> bytes \<Rightarrow> nat \<Rightarrow> nat \<Rightarrow> (nat, dns_error) result" where
  "skip_name_loop 0 payload start offset = Err MalformedName"
| "skip_name_loop (Suc n) payload start offset =
    and_then (ok_or (byte_get payload offset) Truncated) (\<lambda>len.
      if len AND 0xc0 = 0xc0 then
        and_then (validate_name_pointer payload offset start) (\<lambda>_. Ok (offset + 2))
      else if len AND 0xc0 \<noteq> 0 then Err MalformedName
      else if len = 0 then Ok (offset + 1)
      else
        guard_err (length payload < offset + 1 + unat len) Truncated
          (skip_name_loop n payload start (offset + 1 + unat len)))"

definition skip_name :: "bytes \<Rightarrow> nat \<Rightarrow> (nat, dns_error) result" where
  "skip_name payload offset = skip_name_loop 128 payload offset offset"

subsection \<open>Messages\<close>

definition skip_resource_record :: "bytes \<Rightarrow> nat \<Rightarrow> (nat, dns_error) result" where
  "skip_resource_record payload offset =
    and_then (skip_name payload offset) (\<lambda>offset.
    and_then (ok_or (slice_get payload offset (offset + 10)) Truncated) (\<lambda>rr.
    and_then (rd16 rr 8) (\<lambda>rdlength.
      guard_err (length payload < offset + 10 + unat rdlength) Truncated
        (Ok (offset + 10 + unat rdlength)))))"

fun skip_resource_records :: "nat \<Rightarrow> bytes \<Rightarrow> nat \<Rightarrow> (nat, dns_error) result" where
  "skip_resource_records 0 payload offset = Ok offset"
| "skip_resource_records (Suc n) payload offset =
    and_then (skip_resource_record payload offset) (skip_resource_records n payload)"

text \<open>\<open>u16::saturating_add\<close>.\<close>

definition saturating_add :: "u16 \<Rightarrow> u16 \<Rightarrow> u16" where
  "saturating_add a b = (if 65535 < unat a + unat b then 0xffff else a + b)"

definition dns_header :: "bytes \<Rightarrow> (bytes, dns_error) result" where
  "dns_header payload = ok_or (slice_get payload 0 12) Truncated"

definition parse_question_fields :: "bytes \<Rightarrow> (dns_question, dns_error) result" where
  "parse_question_fields payload =
    and_then (dns_header payload) (\<lambda>header.
    and_then (rd16 header 4) (\<lambda>qdcount.
    guard_err (qdcount \<noteq> 1) QuestionCount
     (and_then (parse_name payload 12) (\<lambda>(name, offset).
      and_then (ok_or (slice_get payload offset (offset + 4)) Truncated) (\<lambda>fields.
      and_then (rd16 fields 0) (\<lambda>t.
      and_then (rd16 fields 2) (\<lambda>c.
        Ok \<lparr> qname = name, qtype = t, qclass = c \<rparr>)))))))"

definition parse_question :: "bytes \<Rightarrow> (dns_question, dns_error) result" where
  "parse_question payload =
    and_then (dns_header payload) (\<lambda>header.
    and_then (rd16 header 2) (\<lambda>flags.
    guard_err (flags AND 0x8000 \<noteq> 0) NotQuery
     (guard_err (flags AND 0x7800 \<noteq> 0) NonStandardOpcode
       (parse_question_fields payload))))"

definition validate_message :: "bytes \<Rightarrow> bool \<Rightarrow> (dns_question, dns_error) result" where
  "validate_message payload response =
    and_then (dns_header payload) (\<lambda>header.
    and_then (rd16 header 2) (\<lambda>flags.
    guard_err ((flags AND 0x8000 \<noteq> 0) \<noteq> response) (if response then ResponseMismatch else NotQuery)
     (guard_err (flags AND 0x7800 \<noteq> 0) NonStandardOpcode
      (and_then (parse_question_fields payload) (\<lambda>question.
       and_then (rd16 header 6) (\<lambda>ancount.
       and_then (rd16 header 8) (\<lambda>nscount.
       and_then (rd16 header 10) (\<lambda>arcount.
       and_then (skip_name payload 12) (\<lambda>name_end.
       and_then (skip_resource_records
                   (unat (saturating_add (saturating_add ancount nscount) arcount))
                   payload (name_end + 4)) (\<lambda>offset.
         guard_err (offset \<noteq> length payload) Truncated (Ok question)))))))))))"

definition validate_query :: "bytes \<Rightarrow> (dns_question, dns_error) result" where
  "validate_query payload = validate_message payload False"

definition dns_id :: "bytes \<Rightarrow> u16 option" where
  "dns_id payload = (case slice_get payload 0 2 of None \<Rightarrow> None | Some header \<Rightarrow> Some (be16 (header ! 0) (header ! 1)))"

definition fnv1a :: "bytes \<Rightarrow> u64" where
  "fnv1a bs = foldl (\<lambda>hash b. (hash XOR ucast b) * 0x100000001b3) 0xcbf29ce484222325 bs"

definition transaction_key :: "socket_addr \<Rightarrow> bytes \<Rightarrow> (dns_transaction_key, 'e) result" where
  "transaction_key client payload =
    (case validate_query payload of
       Ok q \<Rightarrow> and_then (expect (dns_id payload)) (\<lambda>i. Ok (Question client i (qname q) (qtype q) (qclass q)))
     | Err _ \<Rightarrow> Ok (Opaque client (dns_id payload) (fnv1a payload))
     | Panic \<Rightarrow> Panic)"

definition response_matches_query :: "bytes \<Rightarrow> bytes \<Rightarrow> (unit, dns_error) result" where
  "response_matches_query query response =
    and_then (ok_or (dns_id query) Truncated) (\<lambda>query_id.
    and_then (ok_or (dns_id response) Truncated) (\<lambda>response_id.
    guard_err (response_id \<noteq> query_id) ResponseMismatch
     (and_then (dns_header response) (\<lambda>header.
      and_then (rd16 header 2) (\<lambda>flags.
      guard_err (flags AND 0x8000 = 0 \<or> flags AND 0x7800 \<noteq> 0) ResponseMismatch
       (and_then (map_err (\<lambda>_. ResponseMismatch) (parse_question query)) (\<lambda>query_question.
        and_then (map_err (\<lambda>_. ResponseMismatch) (validate_message response True)) (\<lambda>response_question.
          guard_err (response_question \<noteq> query_question) ResponseMismatch (Ok ())))))))))"

subsection \<open>The EDNS payload size\<close>

fun skip_questions :: "nat \<Rightarrow> bytes \<Rightarrow> nat \<Rightarrow> (nat, dns_error) result" where
  "skip_questions 0 payload offset = Ok offset"
| "skip_questions (Suc n) payload offset =
    and_then (skip_name payload offset) (\<lambda>offset.
    guard_err (length payload < offset + 4) Truncated (skip_questions n payload (offset + 4)))"

text \<open>
  The additional records.  The payload is rewritten in place, and the caller keeps its copy
  when an error follows, so the bytes are a result of their own.
\<close>

fun clamp_additional ::
  "nat \<Rightarrow> bytes \<Rightarrow> nat \<Rightarrow> bool \<Rightarrow> bytes \<times> (nat \<times> bool, dns_error) result" where
  "clamp_additional 0 payload offset clamped = (payload, Ok (offset, clamped))"
| "clamp_additional (Suc n) payload offset clamped =
    (case skip_name payload offset of
       Err e \<Rightarrow> (payload, Err e)
     | Panic \<Rightarrow> (payload, Panic)
     | Ok i \<Rightarrow>
        (case slice_get payload i (i + 10) of
           None \<Rightarrow> (payload, Err Truncated)
         | Some rr \<Rightarrow>
            let rr_type = be16 (rr ! 0) (rr ! 1); advertised = be16 (rr ! 2) (rr ! 3);
                rdlength = be16 (rr ! 8) (rr ! 9);
                over = rr_type = 41 \<and> word_of_nat DNS_PAYLOAD_MAX < advertised;
                payload = (if over then splice payload (i + 2) (to_be_bytes 2 (word_of_nat DNS_PAYLOAD_MAX :: u16))
                           else payload);
                offset = i + 10 + unat rdlength
            in if length payload < offset then (payload, Err Truncated)
               else clamp_additional n payload offset (clamped \<or> over)))"

definition clamp_edns_udp_payload :: "bytes \<Rightarrow> bytes \<times> (bool, dns_error) result" where
  "clamp_edns_udp_payload payload =
    (case and_then (dns_header payload) (\<lambda>header.
          and_then (rd16 header 4) (\<lambda>qdcount.
          and_then (rd16 header 6) (\<lambda>ancount.
          and_then (rd16 header 8) (\<lambda>nscount.
          and_then (rd16 header 10) (\<lambda>arcount.
          and_then (skip_questions (unat qdcount) payload 12) (\<lambda>offset.
          and_then (skip_resource_records (unat (saturating_add ancount nscount)) payload offset) (\<lambda>offset.
            Ok (unat arcount, offset)))))))) of
       Err e \<Rightarrow> (payload, Err e)
     | Panic \<Rightarrow> (payload, Panic)
     | Ok (arcount, offset) \<Rightarrow>
        (let (q, r) = clamp_additional arcount payload offset False
         in (q, and_then r (\<lambda>(offset, clamped).
                  guard_err (offset \<noteq> length q) Truncated (Ok clamped)))))"

subsection \<open>Domain rules\<close>

text \<open>The texts after each dot of a name, in the order of \<open>match_indices\<close>.\<close>

fun dot_suffixes :: "string \<Rightarrow> string list" where
  "dot_suffixes [] = []"
| "dot_suffixes (c # cs) = (if c = CHR ''.'' then cs # dot_suffixes cs else dot_suffixes cs)"

definition rules_match :: "string list \<Rightarrow> string \<Rightarrow> bool" where
  "rules_match suffixes name \<longleftrightarrow>
    name \<in> set suffixes \<or> list_ex (\<lambda>s. s \<in> set suffixes) (dot_suffixes name)"

text \<open>\<open>str::strip_suffix\<close>.\<close>

definition strip_suffix :: "string \<Rightarrow> string \<Rightarrow> string option" where
  "strip_suffix rule name =
    (if length rule \<le> length name \<and> drop (length name - length rule) name = rule
     then Some (take (length name - length rule) name) else None)"

definition domain_matches :: "string \<Rightarrow> string \<Rightarrow> bool" where
  "domain_matches rule name \<longleftrightarrow> name = rule \<or>
    (case strip_suffix rule name of None \<Rightarrow> False
     | Some prefix \<Rightarrow> prefix \<noteq> [] \<and> last prefix = CHR ''.'')"

definition classify_query :: "bytes \<Rightarrow> string list \<Rightarrow> (dns_route, 'e) result" where
  "classify_query payload remote_domains =
    (case validate_query payload of
       Ok q \<Rightarrow> Ok (if rules_match remote_domains (qname q) then Remote q else Local q)
     | Err _ \<Rightarrow> Ok LocalFallback
     | Panic \<Rightarrow> Panic)"

section \<open>No reader panics\<close>

lemma normalize_label_no_panic [no_panic]: "normalize_label l \<noteq> Panic"
  by (simp add: normalize_label_def)

lemma parse_name_loop_no_panic [no_panic]:
  "parse_name_loop n payload labels next_offset seen offset \<noteq> Panic"
  by (induction n arbitrary: labels next_offset seen offset)
    (simp_all add: Let_def and_then_eq_Panic guard_err_eq_Panic normalize_label_no_panic)

lemma parse_name_no_panic [no_panic]: "parse_name payload offset \<noteq> Panic"
  by (simp add: parse_name_def no_panic)

lemma validate_name_pointer_no_panic:
  "offset < length payload \<Longrightarrow> validate_name_pointer payload offset start \<noteq> Panic"
  by (auto simp: validate_name_pointer_def rd8_in Let_def and_then_eq_Panic guard_err_eq_Panic
      parse_name_no_panic)

lemma skip_name_loop_no_panic [no_panic]: "skip_name_loop n payload start offset \<noteq> Panic"
  by (induction n arbitrary: offset)
    (auto simp: res_simps buf_simps validate_name_pointer_no_panic)

lemma skip_name_no_panic [no_panic]: "skip_name payload offset \<noteq> Panic"
  by (simp add: skip_name_def no_panic)

lemma dns_header_Ok [res_simps]: "dns_header p = Ok h \<longleftrightarrow> 12 \<le> length p \<and> h = take 12 p"
  by (auto simp: dns_header_def res_simps buf_simps)

lemma dns_header_no_panic [no_panic]: "dns_header p \<noteq> Panic"
  by (simp add: dns_header_def)

lemma skip_resource_record_no_panic [no_panic]: "skip_resource_record p i \<noteq> Panic"
  by (auto simp: skip_resource_record_def res_simps buf_simps no_panic)

lemma skip_resource_records_no_panic [no_panic]: "skip_resource_records n p i \<noteq> Panic"
  by (induction n arbitrary: i) (auto simp: res_simps no_panic)

lemma skip_questions_no_panic [no_panic]: "skip_questions n p i \<noteq> Panic"
  by (induction n arbitrary: i) (auto simp: res_simps no_panic)

lemma parse_question_fields_no_panic [no_panic]: "parse_question_fields p \<noteq> Panic"
  by (auto simp: parse_question_fields_def and_then_eq_Panic guard_err_eq_Panic rd16_eq_Panic
      dns_header_Ok ok_or_eq_Ok slice_get_eq_Some no_panic)

lemma parse_question_no_panic [no_panic]: "parse_question p \<noteq> Panic"
  by (auto simp: parse_question_def and_then_eq_Panic guard_err_eq_Panic rd16_eq_Panic
      dns_header_Ok no_panic)

lemma validate_message_no_panic [no_panic]: "validate_message p response \<noteq> Panic"
  by (auto simp: validate_message_def and_then_eq_Panic guard_err_eq_Panic rd16_eq_Panic
      dns_header_Ok no_panic)

lemma validate_message_Ok_len: "validate_message p response = Ok q \<Longrightarrow> 12 \<le> length p"
  by (auto simp: validate_message_def and_then_eq_Ok dns_header_Ok)

lemma dns_id_Some: "2 \<le> length p \<Longrightarrow> dns_id p = Some (be16 (p ! 0) (p ! 1))"
  by (simp add: dns_id_def slice_get_def)

lemma transaction_key_no_panic [no_panic]: "transaction_key client p \<noteq> Panic"
proof (cases "validate_query p")
  case (Ok q)
  then have "12 \<le> length p" using validate_message_Ok_len by (simp add: validate_query_def)
  then show ?thesis using Ok by (simp add: transaction_key_def dns_id_Some)
next
  case Panic
  then show ?thesis using validate_message_no_panic by (simp add: validate_query_def)
qed (simp add: transaction_key_def)

lemma response_matches_query_no_panic [no_panic]: "response_matches_query q r \<noteq> Panic"
  by (auto simp: response_matches_query_def and_then_eq_Panic guard_err_eq_Panic rd16_eq_Panic
      dns_header_Ok map_err_eq_Panic no_panic)

lemma classify_query_no_panic [no_panic]: "classify_query p rules \<noteq> Panic"
  using validate_message_no_panic [of p False]
  by (auto simp: classify_query_def validate_query_def split: result.splits)

lemma clamp_additional_no_panic [no_panic]: "snd (clamp_additional n p i c) \<noteq> Panic"
  using skip_name_no_panic
  by (induction n arbitrary: p i c) (auto simp: Let_def split: result.splits option.splits)

lemma clamp_edns_no_panic [no_panic]: "snd (clamp_edns_udp_payload p) \<noteq> Panic"
proof -
  have "and_then (dns_header p) (\<lambda>header.
          and_then (rd16 header 4) (\<lambda>qdcount.
          and_then (rd16 header 6) (\<lambda>ancount.
          and_then (rd16 header 8) (\<lambda>nscount.
          and_then (rd16 header 10) (\<lambda>arcount.
          and_then (skip_questions (unat qdcount) p 12) (\<lambda>offset.
          and_then (skip_resource_records (unat (saturating_add ancount nscount)) p offset) (\<lambda>offset.
            Ok (unat arcount, offset)))))))) \<noteq> Panic"
    by (auto simp: and_then_eq_Panic rd16_eq_Panic dns_header_Ok no_panic)
  then show ?thesis using clamp_additional_no_panic
    unfolding clamp_edns_udp_payload_def
    by (auto simp: and_then_eq_Panic guard_err_eq_Panic split: result.splits prod.splits) (metis snd_conv)+
qed

section \<open>Domain rules\<close>

lemma dot_suffixes_iff: "s \<in> set (dot_suffixes name) \<longleftrightarrow> (\<exists>pre. name = pre @ CHR ''.'' # s)"
proof (induction name)
  case (Cons c cs)
  have "(\<exists>pre. c # cs = pre @ CHR ''.'' # s) \<longleftrightarrow>
      c = CHR ''.'' \<and> s = cs \<or> (\<exists>pre. cs = pre @ CHR ''.'' # s)"
    by (metis append_Cons append_Nil list.exhaust list.inject)
  then show ?case using Cons by auto
qed simp

lemma domain_matches_iff: "domain_matches rule name \<longleftrightarrow> name = rule \<or> (\<exists>pre. name = pre @ CHR ''.'' # rule)"
proof -
  have "(\<exists>p. strip_suffix rule name = Some p \<and> p \<noteq> [] \<and> last p = CHR ''.'') \<longleftrightarrow>
      (\<exists>pre. name = pre @ CHR ''.'' # rule)" (is "?L = ?R")
  proof
    assume ?L
    then obtain p where p: "strip_suffix rule name = Some p" "p \<noteq> []" "last p = CHR ''.''" by blast
    then have "name = p @ rule" unfolding strip_suffix_def by (metis append_take_drop_id option.distinct(1) option.inject)
    then show ?R using p(2,3) by (intro exI [of _ "butlast p"]) (metis append_Cons append_Nil append_assoc append_butlast_last_id)
  next
    assume ?R
    then obtain pre where "name = pre @ CHR ''.'' # rule" by blast
    then have "strip_suffix rule name = Some (pre @ [CHR ''.''])" by (simp add: strip_suffix_def)
    then show ?L by simp
  qed
  then show ?thesis unfolding domain_matches_def by (auto split: option.split)
qed

section \<open>Names: encoding and decoding\<close>

text \<open>The uncompressed wire form of a name.\<close>

definition valid_label :: "bytes \<Rightarrow> bool" where
  "valid_label l \<longleftrightarrow> length l \<le> 63 \<and> l \<noteq> [] \<and> hd l \<noteq> 45 \<and> last l \<noteq> 45 \<and>
    list_all (\<lambda>b. is_ascii_alphanumeric b \<or> b = 45) l"

definition encode_label :: "bytes \<Rightarrow> bytes" where
  "encode_label l = word_of_nat (length l) # l"

definition encode_name :: "bytes list \<Rightarrow> bytes" where
  "encode_name ls = concat (map encode_label ls) @ [0]"

definition name_text :: "bytes list \<Rightarrow> string" where
  "name_text ls = join_dot (map (\<lambda>l. ascii_text (map to_ascii_lowercase l)) ls)"

lemma short_length_byte:
  assumes "n \<le> 63"
  shows "(word_of_nat n :: u8) AND 0xc0 = 0" and "unat (word_of_nat n :: u8) = n"
proof -
  have "\<forall>k<64. (word_of_nat k :: u8) AND 0xc0 = 0" by code_simp
  then show "(word_of_nat n :: u8) AND 0xc0 = 0" using assms by simp
  show "unat (word_of_nat n :: u8) = n" using assms by simp
qed

lemma valid_label_normalize:
  "valid_label l \<Longrightarrow> normalize_label l = Ok (ascii_text (map to_ascii_lowercase l))"
  by (simp add: valid_label_def normalize_label_def)

lemma parse_name_loop_encoded:
  assumes "list_all valid_label ls" and "length ls < n" and "\<forall>i\<in>set seen. i < length pre"
    and "acc \<noteq> [] \<or> ls \<noteq> []"
  shows "parse_name_loop n (pre @ encode_name ls @ post) acc None seen (length pre) =
    Ok (join_dot (acc @ map (\<lambda>l. ascii_text (map to_ascii_lowercase l)) ls),
        length pre + length (encode_name ls))"
  using assms
proof (induction ls arbitrary: n pre acc seen)
  case Nil
  then obtain m where n: "n = Suc m" by (cases n) auto
  have "length pre \<notin> set seen" using Nil(3) by auto
  then show ?case using Nil(4) by (simp add: n encode_name_def byte_get_def nth_append)
next
  case (Cons l ls)
  then obtain m where n: "n = Suc m" by (cases n) auto
  let ?w = "word_of_nat (length l) :: u8" and ?pre = "pre @ encode_label l"
  let ?p = "pre @ encode_name (l # ls) @ post"
  have l: "valid_label l" "length l \<le> 63" "l \<noteq> []" using Cons.prems(1) by (auto simp: valid_label_def)
  note w = short_length_byte [OF l(2)]
  have w0: "?w \<noteq> 0" using w(2) l(3) by (metis length_0_conv unat_0)
  have p: "?p = ?pre @ encode_name ls @ post" and p': "?p = pre @ ?w # l @ encode_name ls @ post"
    by (simp_all add: encode_name_def encode_label_def)
  have len: "length ?pre = length pre + 1 + length l" by (simp add: encode_label_def)
  have "byte_get ?p (length pre) = Some ?w" unfolding p' by (simp add: byte_get_def)
  moreover have "slice_get ?p (length pre + 1) (length pre + 1 + length l) = Some l"
    unfolding p' by (simp add: slice_get_def)
  moreover have "length pre \<notin> set seen" using Cons.prems(3) by auto
  ultimately have "parse_name_loop n ?p acc None seen (length pre) =
      parse_name_loop m ?p (acc @ [ascii_text (map to_ascii_lowercase l)]) None (length pre # seen) (length ?pre)"
    using w w0 l(2) valid_label_normalize [OF l(1)] by (simp add: n encode_label_def)
  also have "\<dots> = Ok (join_dot ((acc @ [ascii_text (map to_ascii_lowercase l)]) @
      map (\<lambda>l. ascii_text (map to_ascii_lowercase l)) ls), length ?pre + length (encode_name ls))"
    unfolding p using Cons.prems n len by (intro Cons.IH) auto
  finally show ?case by (simp add: encode_name_def encode_label_def)
qed

section \<open>The EDNS clamp\<close>

text \<open>Every byte that differs belongs to a size above the limit that became the limit.\<close>

definition sizes_clamped :: "bytes \<Rightarrow> bytes \<Rightarrow> bool" where
  "sizes_clamped p q \<longleftrightarrow> length q = length p \<and>
    (\<forall>k. q ! k \<noteq> p ! k \<longrightarrow> (\<exists>i. (k = i \<or> k = i + 1) \<and> i + 2 \<le> length p \<and>
       DNS_PAYLOAD_MAX < unat (be16 (p ! i) (p ! (i + 1))) \<and>
       unat (be16 (q ! i) (q ! (i + 1))) = DNS_PAYLOAD_MAX))"

lemma skip_name_loop_Ok:
  "skip_name_loop n p start i = Ok j \<Longrightarrow> i < j \<and> j \<le> length p"
proof (induction n arbitrary: i)
  case (Suc n)
  show ?case
    using Suc.prems Suc.IH
    by (auto simp: res_simps buf_simps validate_name_pointer_def Let_def split: if_splits) fastforce+
qed simp

lemma skip_name_Ok: "skip_name p i = Ok j \<Longrightarrow> i < j \<and> j \<le> length p"
  unfolding skip_name_def by (rule skip_name_loop_Ok)

lemma unat_max_size: "unat (word_of_nat DNS_PAYLOAD_MAX :: u16) = DNS_PAYLOAD_MAX"
  by (simp add: DNS_PAYLOAD_MAX_def)

lemma sizes_clamped_refl [simp]: "sizes_clamped p p"
  by (simp add: sizes_clamped_def)

lemma sizes_clamped_step:
  assumes i: "i + 10 \<le> length p" and big: "DNS_PAYLOAD_MAX < unat (be16 (p ! (i + 2)) (p ! (i + 3)))"
    and p1: "p1 = splice p (i + 2) (to_be_bytes 2 (word_of_nat DNS_PAYLOAD_MAX :: u16))"
    and q: "sizes_clamped p1 q" and low: "\<And>k. k < i + 10 \<Longrightarrow> q ! k = p1 ! k"
  shows "sizes_clamped p q" and "q \<noteq> p"
proof -
  let ?w = "word_of_nat DNS_PAYLOAD_MAX :: u16"
  have n1: "p1 ! k = p ! k" if "k \<noteq> i + 2" "k \<noteq> i + 3" for k
    using that i by (auto simp: p1 nth_splice)
  have "p1 ! (i + 2) = to_be_bytes 2 ?w ! 0" "p1 ! (i + 3) = to_be_bytes 2 ?w ! 1"
    using i by (simp_all add: p1 nth_splice)
  then have "be16 (p1 ! (i + 2)) (p1 ! (i + 3)) = ?w" by (simp only: be16_to_be_bytes)
  then have size: "unat (be16 (q ! (i + 2)) (q ! (i + 3))) = DNS_PAYLOAD_MAX"
    using low [of "i + 2"] low [of "i + 3"] unat_max_size by simp
  then show "q \<noteq> p" using big by auto
  have len: "length p1 = length p" "length q = length p"
    using i q by (auto simp: p1 length_splice sizes_clamped_def)
  have "\<exists>j. (k = j \<or> k = j + 1) \<and> j + 2 \<le> length p \<and> DNS_PAYLOAD_MAX < unat (be16 (p ! j) (p ! (j + 1))) \<and>
      unat (be16 (q ! j) (q ! (j + 1))) = DNS_PAYLOAD_MAX" if d: "q ! k \<noteq> p ! k" for k
  proof (cases "k < i + 10")
    case True
    then have "k = i + 2 \<or> k = i + 3" using d low n1 by metis
    then show ?thesis using i big size by (intro exI [of _ "i + 2"]) (auto simp: numeral_eq_Suc)
  next
    case False
    then have "q ! k \<noteq> p1 ! k" using d n1 [of k] by auto
    then obtain j where j: "k = j \<or> k = j + 1" "j + 2 \<le> length p"
      "DNS_PAYLOAD_MAX < unat (be16 (p1 ! j) (p1 ! (j + 1)))"
      "unat (be16 (q ! j) (q ! (j + 1))) = DNS_PAYLOAD_MAX"
      using q len unfolding sizes_clamped_def by metis
    then show ?thesis using False n1 [of j] n1 [of "j + 1"] by (intro exI [of _ j]) auto
  qed
  then show "sizes_clamped p q" using len unfolding sizes_clamped_def by blast
qed

lemma clamp_additional_spec:
  assumes "clamp_additional n p i c = (q, r)"
  shows "sizes_clamped p q \<and> (\<forall>k<i. q ! k = p ! k) \<and> (\<forall>j c'. r = Ok (j, c') \<longrightarrow> (c' \<longleftrightarrow> c \<or> q \<noteq> p))"
  using assms
proof (induction n arbitrary: p i c)
  case (Suc n)
  show ?case
  proof (cases "\<exists>j. skip_name p i = Ok j \<and> j + 10 \<le> length p")
    case False
    then have "q = p \<and> (\<forall>x. r \<noteq> Ok x)"
      using Suc.prems by (auto simp: slice_get_def split: result.splits if_splits)
    then show ?thesis by simp
  next
    case True
    then obtain j where j: "skip_name p i = Ok j" "j + 10 \<le> length p" by blast
    have ij: "i < j" using skip_name_Ok [OF j(1)] by simp
    let ?rr = "take 10 (drop j p)"
    define over where "over \<longleftrightarrow> be16 (p ! j) (p ! (j + 1)) = 41 \<and>
      word_of_nat DNS_PAYLOAD_MAX < be16 (p ! (j + 2)) (p ! (j + 3))"
    define p1 where "p1 = (if over then splice p (j + 2) (to_be_bytes 2 (word_of_nat DNS_PAYLOAD_MAX :: u16)) else p)"
    define e where "e = j + 10 + unat (be16 (p ! (j + 8)) (p ! (j + 9)))"
    have eq: "clamp_additional (Suc n) p i c =
        (if length p1 < e then (p1, Err Truncated) else clamp_additional n p1 e (c \<or> over))"
      using j by (simp add: slice_get_def Let_def over_def p1_def e_def)
    have rest: "sizes_clamped p1 q \<and> (\<forall>k<e. q ! k = p1 ! k) \<and>
        (\<forall>j c'. r = Ok (j, c') \<longrightarrow> (c' \<longleftrightarrow> (c \<or> over) \<or> q \<noteq> p1))"
      using Suc.prems Suc.IH [of p1 e "c \<or> over"] unfolding eq by (auto split: if_splits)
    show ?thesis
    proof (cases over)
      case True
      have big: "DNS_PAYLOAD_MAX < unat (be16 (p ! (j + 2)) (p ! (j + 3)))"
        using True unat_max_size unfolding over_def by (simp add: word_less_nat_alt)
      have low: "q ! k = p1 ! k" if "k < j + 10" for k using rest that by (simp add: e_def)
      have p1: "p1 = splice p (j + 2) (to_be_bytes 2 (word_of_nat DNS_PAYLOAD_MAX :: u16))"
        using True by (simp add: p1_def)
      have "q ! k = p ! k" if "k < i" for k
        using low [of k] that ij j(2) by (simp add: p1 nth_splice)
      then show ?thesis using sizes_clamped_step [OF j(2) big p1 _ low] rest True by blast
    next
      case False
      then show ?thesis using rest ij by (auto simp: p1_def e_def)
    qed
  qed
qed auto

lemma clamp_edns_sizes:
  assumes "clamp_edns_udp_payload p = (q, r)"
  shows "sizes_clamped p q \<and> (\<forall>c. r = Ok c \<longrightarrow> (c \<longleftrightarrow> q \<noteq> p))"
proof -
  have "q = p \<and> (\<forall>c. r \<noteq> Ok c) \<or> (\<exists>n i r'. clamp_additional n p i False = (q, r') \<and>
      r = and_then r' (\<lambda>(offset, clamped). guard_err (offset \<noteq> length q) Truncated (Ok clamped)))"
    using assms unfolding clamp_edns_udp_payload_def Let_def
    by (auto split: result.splits prod.splits)
  then show ?thesis
  proof (elim disjE exE conjE)
    fix n i r' assume run: "clamp_additional n p i False = (q, r')"
      and r: "r = and_then r' (\<lambda>(offset, clamped). guard_err (offset \<noteq> length q) Truncated (Ok clamped))"
    note spec = clamp_additional_spec [OF run]
    have "c \<longleftrightarrow> q \<noteq> p" if "r = Ok c" for c
    proof -
      have "\<exists>j. r' = Ok (j, c)" using that unfolding r by (auto simp: and_then_eq_Ok guard_err_eq_Ok)
      then show ?thesis using spec by blast
    qed
    then show ?thesis using spec by blast
  qed simp
qed

lemma clamp_edns_length: "clamp_edns_udp_payload p = (q, r) \<Longrightarrow> length q = length p"
  using clamp_edns_sizes [of p q r] by (simp add: sizes_clamped_def)

section \<open>Theorems\<close>

text \<open>
  No payload, however malformed or however its compression pointers are arranged, makes a
  reader of DNS messages index out of range or fail an expectation: question parser,
  message validation, transaction key, routing, response matching and EDNS clamp all return.
\<close>

theorem dns_readers_total:
  "parse_question p \<noteq> Panic \<and> validate_message p response \<noteq> Panic \<and> transaction_key client p \<noteq> Panic \<and>
   classify_query p rules \<noteq> Panic \<and> response_matches_query p r \<noteq> Panic \<and>
   snd (clamp_edns_udp_payload p) \<noteq> Panic"
  by (simp add: no_panic)

text \<open>
  C35: Decoding inverts encoding: a name of up to 127 valid labels written in wire form anywhere
  in a message is read back as its labels in lower case joined by dots, and reading stops
  right behind the name.
\<close>

theorem parse_name_encode:
  assumes "list_all valid_label ls" and "ls \<noteq> []" and "length ls \<le> 127"
  shows "parse_name (pre @ encode_name ls @ post) (length pre) =
    Ok (name_text ls, length pre + length (encode_name ls))"
  using parse_name_loop_encoded [of ls 128 "[]" pre "[]" post] assms
  by (simp add: parse_name_def name_text_def)

theorem parse_name_encode_witness:
  "parse_name [9, 9, 1, 65, 2, 98, 49, 0, 7] 2 = Ok (''a.b1'', 8)"
proof -
  have "list_all valid_label [[65], [98, 49]]" by code_simp
  moreover have "[9, 9] @ encode_name [[65], [98, 49]] @ [7] = [9, 9, 1, 65, 2, 98, 49, 0, 7]"
    and "name_text [[65], [98, 49]] = ''a.b1''" and "length (encode_name [[65], [98, 49]]) = 6"
    by code_simp+
  ultimately show ?thesis using parse_name_encode [of "[[65], [98, 49]]" "[9, 9]" "[7]"] by (simp add: eval_nat_numeral)
qed

text \<open>
  Looking the name and the text after each of its dots up in the set of rules gives the same
  answer as comparing the name with every rule: the rule is the name, or a suffix of it
  that starts at a label.
\<close>

theorem rules_match_eq_domain_matches:
  "rules_match suffixes name \<longleftrightarrow> list_ex (\<lambda>rule. domain_matches rule name) suffixes"
proof -
  have "rules_match suffixes name \<longleftrightarrow> (\<exists>s\<in>set suffixes. name = s \<or> s \<in> set (dot_suffixes name))"
    unfolding rules_match_def list_ex_iff by blast
  then show ?thesis by (simp add: list_ex_iff domain_matches_iff dot_suffixes_iff)
qed


text \<open>
  The EDNS clamp keeps the length of the payload and changes only size fields above 1232,
  each of which becomes 1232; when it succeeds it reports a change exactly when there was one.
\<close>

theorem clamp_edns_spec:
  assumes "clamp_edns_udp_payload p = (q, r)"
  shows "sizes_clamped p q \<and> (\<forall>c. r = Ok c \<longrightarrow> (c \<longleftrightarrow> q \<noteq> p))"
  by (rule clamp_edns_sizes [OF assms])

definition sample_edns_query :: bytes where
  "sample_edns_query = [0, 7, 1, 0, 0, 1, 0, 0, 0, 0, 0, 1, 1, 97, 0, 0, 1, 0, 1,
     0, 0, 41, 16, 0, 0, 0, 0, 0, 0, 0]"

end
