(* ===== verification/Dns_Table.thy ===== *)
theory Dns_Table
  imports Dns_Message Nat_Table
begin

text \<open>
  The table of DNS transactions (\<open>DnsTransactionTable\<close> of \<open>flow_plane/dns.rs\<close>): three hash maps
  over one set of transactions, and the set of free ports.  Identifiers are 64 bits wide and
  wrap, skipping zero; the theorems hold until the counter has gone round once.
\<close>

section \<open>Model\<close>

record dns_reverse_key =
  rk_resolver :: socket_addr
  rk_nat_ip :: ip_addr
  rk_nat_port :: u16

record dns_transaction =
  tx_id :: u64
  tx_key :: dns_transaction_key
  tx_client :: socket_addr
  tx_resolver :: socket_addr
  tx_nat_ip :: ip_addr
  tx_nat_port :: u16

record dns_transaction_table =
  dt_capacity :: nat
  table_nat_ip :: ip_addr
  dt_ports :: "u16 list"
  dt_next_id :: u64
  dt_by_key :: "(dns_transaction_key, dns_transaction) alist"
  dt_by_id :: "(u64, dns_transaction_key) alist"
  reverse_ids :: "(dns_reverse_key, u64) alist"

definition dns_table_new :: "nat \<Rightarrow> ip_addr \<Rightarrow> u16 \<Rightarrow> u16 \<Rightarrow> (dns_transaction_table, dns_error) result" where
  "dns_table_new cap ip first final =
    guard_err (final < first) dns_error.InvalidPortRange
     (Ok \<lparr> dt_capacity = cap, table_nat_ip = ip, dt_ports = port_range first final, dt_next_id = 1,
           dt_by_key = hm_empty, dt_by_id = hm_empty, reverse_ids = hm_empty \<rparr>)"

definition reverse_key_of :: "dns_transaction \<Rightarrow> dns_reverse_key" where
  "reverse_key_of tx =
    \<lparr> rk_resolver = tx_resolver tx, rk_nat_ip = tx_nat_ip tx, rk_nat_port = tx_nat_port tx \<rparr>"

definition get_or_create ::
  "dns_transaction_table \<Rightarrow> dns_transaction_key \<Rightarrow> socket_addr \<Rightarrow> socket_addr \<Rightarrow>
   dns_transaction_table \<times> (dns_transaction, dns_error) result" where
  "get_or_create t key client resolver =
    (case hm_get (dt_by_key t) key of
       Some tx \<Rightarrow> (t, Ok tx)
     | None \<Rightarrow>
        if dt_capacity t \<le> hm_len (dt_by_key t) then (t, Err CapacityExhausted)
        else
          (case dt_ports t of
             [] \<Rightarrow> (t, Err NatPortExhausted)
           | nat_port # _ \<Rightarrow>
              let tx = \<lparr> tx_id = dt_next_id t, tx_key = key, tx_client = client, tx_resolver = resolver,
                         tx_nat_ip = table_nat_ip t, tx_nat_port = nat_port \<rparr>;
                  t' = t\<lparr> dt_ports := bs_remove nat_port (dt_ports t),
                          dt_next_id := max (dt_next_id t + 1) 1,
                          dt_by_id := hm_insert (dt_next_id t) key (dt_by_id t),
                          reverse_ids := hm_insert (reverse_key_of tx) (dt_next_id t) (reverse_ids t),
                          dt_by_key := hm_insert key tx (dt_by_key t) \<rparr>
              in (t', expect (hm_get (dt_by_key t') key))))"

definition dns_lookup_reverse :: "dns_transaction_table \<Rightarrow> dns_reverse_key \<Rightarrow> dns_transaction option" where
  "dns_lookup_reverse t rk =
    Option.bind (hm_get (reverse_ids t) rk) (\<lambda>i. Option.bind (hm_get (dt_by_id t) i) (hm_get (dt_by_key t)))"

definition complete :: "dns_transaction_table \<Rightarrow> u64 \<Rightarrow> dns_transaction_table \<times> dns_transaction option" where
  "complete t i =
    (case hm_get (dt_by_id t) i of
       None \<Rightarrow> (t, None)
     | Some key \<Rightarrow>
        let t1 = t\<lparr> dt_by_id := hm_remove i (dt_by_id t) \<rparr>
        in (case hm_get (dt_by_key t1) key of
              None \<Rightarrow> (t1, None)
            | Some tx \<Rightarrow>
               (t1\<lparr> dt_by_key := hm_remove key (dt_by_key t1),
                    reverse_ids := hm_remove (reverse_key_of tx) (reverse_ids t1),
                    dt_ports := bs_insert (tx_nat_port tx) (dt_ports t1) \<rparr>, Some tx)))"

definition dns_table_len :: "dns_transaction_table \<Rightarrow> nat" where
  "dns_table_len t = hm_len (dt_by_key t)"

definition dns_table_is_empty :: "dns_transaction_table \<Rightarrow> bool" where
  "dns_table_is_empty t \<longleftrightarrow> hm_len (dt_by_key t) = 0"

section \<open>Reachable tables\<close>

text \<open>The counter is the number of calls that created or found a transaction.\<close>

inductive dns_reach :: "nat \<Rightarrow> dns_transaction_table \<Rightarrow> bool" where
  dns_new: "dns_table_new cap ip first final = Ok t \<Longrightarrow> dns_reach 0 t"
| dns_create: "dns_reach n t \<Longrightarrow> get_or_create t key client resolver = (t', r) \<Longrightarrow> dns_reach (Suc n) t'"
| dns_complete: "dns_reach n t \<Longrightarrow> complete t i = (t', r) \<Longrightarrow> dns_reach n t'"

definition dns_table_wf :: "nat \<Rightarrow> dns_transaction_table \<Rightarrow> bool" where
  "dns_table_wf n t \<longleftrightarrow>
    sorted_wrt (<) (dt_ports t) \<and> hm_len (dt_by_key t) \<le> dt_capacity t \<and>
    unat (dt_next_id t) \<le> Suc n \<and>
    (\<forall>k tx. hm_get (dt_by_key t) k = Some tx \<longrightarrow>
       tx_key tx = k \<and> tx_nat_ip tx = table_nat_ip t \<and> tx_nat_port tx \<notin> set (dt_ports t) \<and>
       tx_id tx < dt_next_id t \<and>
       hm_get (dt_by_id t) (tx_id tx) = Some k \<and> hm_get (reverse_ids t) (reverse_key_of tx) = Some (tx_id tx)) \<and>
    (\<forall>k j tx ty. hm_get (dt_by_key t) k = Some tx \<and> hm_get (dt_by_key t) j = Some ty \<and>
       tx_nat_port tx = tx_nat_port ty \<longrightarrow> k = j) \<and>
    (\<forall>i k. hm_get (dt_by_id t) i = Some k \<longrightarrow> (\<exists>tx. hm_get (dt_by_key t) k = Some tx \<and> tx_id tx = i)) \<and>
    (\<forall>rk i. hm_get (reverse_ids t) rk = Some i \<longrightarrow>
       (\<exists>k tx. hm_get (dt_by_key t) k = Some tx \<and> tx_id tx = i \<and> reverse_key_of tx = rk))"

lemma wf_new:
  assumes "dns_table_new cap ip first final = Ok t"
  shows "dns_table_wf n t"
  using assms by (auto simp: dns_table_new_def guard_err_eq_Ok dns_table_wf_def sorted_port_range)

lemma wfI:
  assumes "sorted_wrt (<) (dt_ports t)" and "hm_len (dt_by_key t) \<le> dt_capacity t"
    and "unat (dt_next_id t) \<le> Suc n"
    and "\<And>k tx. hm_get (dt_by_key t) k = Some tx \<Longrightarrow>
       tx_key tx = k \<and> tx_nat_ip tx = table_nat_ip t \<and> tx_nat_port tx \<notin> set (dt_ports t) \<and>
       tx_id tx < dt_next_id t \<and> hm_get (dt_by_id t) (tx_id tx) = Some k \<and>
       hm_get (reverse_ids t) (reverse_key_of tx) = Some (tx_id tx)"
    and "\<And>k j tx ty. hm_get (dt_by_key t) k = Some tx \<Longrightarrow> hm_get (dt_by_key t) j = Some ty \<Longrightarrow>
       tx_nat_port tx = tx_nat_port ty \<Longrightarrow> k = j"
    and "\<And>i k. hm_get (dt_by_id t) i = Some k \<Longrightarrow> \<exists>tx. hm_get (dt_by_key t) k = Some tx \<and> tx_id tx = i"
    and "\<And>rk i. hm_get (reverse_ids t) rk = Some i \<Longrightarrow>
       \<exists>k tx. hm_get (dt_by_key t) k = Some tx \<and> tx_id tx = i \<and> reverse_key_of tx = rk"
  shows "dns_table_wf n t"
  using assms unfolding dns_table_wf_def by blast

lemma wfD:
  assumes "dns_table_wf n t" and "hm_get (dt_by_key t) k = Some tx"
  shows "tx_key tx = k" and "tx_nat_ip tx = table_nat_ip t" and "tx_nat_port tx \<notin> set (dt_ports t)"
    and "tx_id tx < dt_next_id t" and "hm_get (dt_by_id t) (tx_id tx) = Some k"
    and "hm_get (reverse_ids t) (reverse_key_of tx) = Some (tx_id tx)"
  using assms unfolding dns_table_wf_def by blast+

lemma wf_portD:
  "dns_table_wf n t \<Longrightarrow> hm_get (dt_by_key t) k = Some tx \<Longrightarrow> hm_get (dt_by_key t) j = Some ty \<Longrightarrow>
    tx_nat_port tx = tx_nat_port ty \<Longrightarrow> k = j"
  unfolding dns_table_wf_def by blast

lemma wf_idD:
  "dns_table_wf n t \<Longrightarrow> hm_get (dt_by_id t) i = Some k \<Longrightarrow> \<exists>tx. hm_get (dt_by_key t) k = Some tx \<and> tx_id tx = i"
  unfolding dns_table_wf_def by blast

lemma wf_reverseD:
  "dns_table_wf n t \<Longrightarrow> hm_get (reverse_ids t) rk = Some i \<Longrightarrow>
    \<exists>k tx. hm_get (dt_by_key t) k = Some tx \<and> tx_id tx = i \<and> reverse_key_of tx = rk"
  unfolding dns_table_wf_def by blast

text \<open>A transaction that was not there: where its port and identifier come from.\<close>

definition created :: "dns_transaction_table \<Rightarrow> dns_transaction_key \<Rightarrow> socket_addr \<Rightarrow> socket_addr \<Rightarrow> u16 \<Rightarrow> dns_transaction" where
  "created t key client resolver port =
    \<lparr> tx_id = dt_next_id t, tx_key = key, tx_client = client, tx_resolver = resolver,
      tx_nat_ip = table_nat_ip t, tx_nat_port = port \<rparr>"

definition insert_tx :: "dns_transaction_table \<Rightarrow> dns_transaction \<Rightarrow> dns_transaction_table" where
  "insert_tx t tx = t\<lparr> dt_ports := bs_remove (tx_nat_port tx) (dt_ports t),
     dt_next_id := max (dt_next_id t + 1) 1,
     dt_by_id := hm_insert (tx_id tx) (tx_key tx) (dt_by_id t),
     reverse_ids := hm_insert (reverse_key_of tx) (tx_id tx) (reverse_ids t),
     dt_by_key := hm_insert (tx_key tx) tx (dt_by_key t) \<rparr>"

lemma get_or_create_cases:
  assumes "get_or_create t key client resolver = (t', r)"
  obtains (found) tx where "hm_get (dt_by_key t) key = Some tx" and "t' = t" and "r = Ok tx"
  | (failed) e where "t' = t" and "r = Err e"
  | (fresh) port ports where "hm_get (dt_by_key t) key = None" and "hm_len (dt_by_key t) < dt_capacity t"
      and "dt_ports t = port # ports" and "t' = insert_tx t (created t key client resolver port)"
      and "r = Ok (created t key client resolver port)"
  using assms unfolding get_or_create_def Let_def
  by (auto simp: insert_tx_def created_def hm_get_insert split: option.splits if_splits list.splits)

lemma wf_insert:
  assumes wf: "dns_table_wf n t" and fresh: "hm_get (dt_by_key t) key = None"
    and room: "hm_len (dt_by_key t) < dt_capacity t" and port: "port \<in> set (dt_ports t)"
    and n: "Suc n < 2 ^ 64 - 1" and tx: "tx = created t key client resolver port"
  shows "dns_table_wf (Suc n) (insert_tx t tx)"
proof -
  have next_small: "unat (dt_next_id t) \<le> Suc n" and sorted: "sorted_wrt (<) (dt_ports t)"
    using wf by (auto simp: dns_table_wf_def)
  have "unat (dt_next_id t + 1) = unat (dt_next_id t) + 1"
    using next_small n by (simp add: unat_plus_if_size word_size)
  then have nx: "dt_next_id t < dt_next_id t + 1" "max (dt_next_id t + 1) 1 = dt_next_id t + 1"
    "unat (dt_next_id t + 1) \<le> Suc (Suc n)"
    using next_small by (auto simp: word_less_nat_alt max_def word_le_nat_alt unat_eq_zero)
  have id_fresh: "hm_get (dt_by_id t) (dt_next_id t) = None"
    using wf_idD [OF wf] wfD(4) [OF wf] by (cases "hm_get (dt_by_id t) (dt_next_id t)") fastforce+
  have other: "tx_nat_port ty \<noteq> port" if "hm_get (dt_by_key t) j = Some ty" for j ty
    using wfD(3) [OF wf that] port by blast
  have rev_fresh: "reverse_key_of ty \<noteq> reverse_key_of tx" if "hm_get (dt_by_key t) j = Some ty" for j ty
    using other [OF that] by (auto simp: reverse_key_of_def tx created_def)
  have old: "tx_key ty = j \<and> tx_nat_ip ty = table_nat_ip t \<and> tx_nat_port ty \<notin> set (dt_ports t) \<and>
      tx_id ty < dt_next_id t \<and> hm_get (dt_by_id t) (tx_id ty) = Some j \<and>
      hm_get (reverse_ids t) (reverse_key_of ty) = Some (tx_id ty)"
    if "hm_get (dt_by_key t) j = Some ty" for j ty
    using wfD [OF wf that] by blast
  have tx': "tx_id tx = dt_next_id t" "tx_key tx = key" "tx_nat_ip tx = table_nat_ip t" "tx_nat_port tx = port"
    by (simp_all add: tx created_def)
  have len: "hm_len (hm_insert key tx (dt_by_key t)) \<le> dt_capacity t"
    using room fresh by (simp add: hm_len_insert hm_has_def)
  let ?t = "insert_tx t tx"
  have get: "hm_get (dt_by_key ?t) k = (if k = key then Some tx else hm_get (dt_by_key t) k)"
    "hm_get (dt_by_id ?t) i = (if i = dt_next_id t then Some key else hm_get (dt_by_id t) i)"
    "hm_get (reverse_ids ?t) rk = (if rk = reverse_key_of tx then Some (dt_next_id t) else hm_get (reverse_ids t) rk)"
    for k i rk by (simp_all add: insert_tx_def hm_get_insert tx')
  have fld: "dt_ports ?t = bs_remove port (dt_ports t)" "dt_next_id ?t = dt_next_id t + 1"
    "table_nat_ip ?t = table_nat_ip t" "dt_capacity ?t = dt_capacity t"
    by (simp_all add: insert_tx_def tx' nx)
  show ?thesis
  proof (rule wfI)
    show "sorted_wrt (<) (dt_ports ?t)" unfolding fld using sorted by blast
    show "hm_len (dt_by_key ?t) \<le> dt_capacity ?t" using len by (simp add: insert_tx_def tx')
    show "unat (dt_next_id ?t) \<le> Suc (Suc n)" unfolding fld by (rule nx(3))
  next
    fix k ty assume k: "hm_get (dt_by_key ?t) k = Some ty"
    show "tx_key ty = k \<and> tx_nat_ip ty = table_nat_ip ?t \<and> tx_nat_port ty \<notin> set (dt_ports ?t) \<and>
      tx_id ty < dt_next_id ?t \<and> hm_get (dt_by_id ?t) (tx_id ty) = Some k \<and>
      hm_get (reverse_ids ?t) (reverse_key_of ty) = Some (tx_id ty)"
    proof (cases "k = key")
      case True
      then have "ty = tx" using k by (simp add: get)
      then show ?thesis using True tx' nx(1) by (simp add: get fld del: word_less_nat_alt)
    next
      case False
      then have k': "hm_get (dt_by_key t) k = Some ty" using k by (simp add: get)
      then show ?thesis using old [OF k'] rev_fresh [OF k'] nx(1) by (auto simp: get fld)
    qed
  next
    fix k j ty tz assume "hm_get (dt_by_key ?t) k = Some ty" "hm_get (dt_by_key ?t) j = Some tz"
      and "tx_nat_port ty = tx_nat_port tz"
    then show "k = j" using other wf_portD [OF wf] tx'(4) by (auto simp: get split: if_splits)
  next
    fix i k assume "hm_get (dt_by_id ?t) i = Some k"
    then show "\<exists>ty. hm_get (dt_by_key ?t) k = Some ty \<and> tx_id ty = i"
      using wf_idD [OF wf, of i k] fresh tx'(1) by (auto simp: get split: if_splits)
  next
    fix rk i assume "hm_get (reverse_ids ?t) rk = Some i"
    then show "\<exists>k ty. hm_get (dt_by_key ?t) k = Some ty \<and> tx_id ty = i \<and> reverse_key_of ty = rk"
      using wf_reverseD [OF wf, of rk i] fresh tx'(1) by (auto simp: get split: if_splits) (metis option.distinct(1))
  qed
qed

definition remove_tx :: "dns_transaction_table \<Rightarrow> dns_transaction \<Rightarrow> dns_transaction_table" where
  "remove_tx t tx = t\<lparr> dt_by_id := hm_remove (tx_id tx) (dt_by_id t),
     dt_by_key := hm_remove (tx_key tx) (dt_by_key t),
     reverse_ids := hm_remove (reverse_key_of tx) (reverse_ids t),
     dt_ports := bs_insert (tx_nat_port tx) (dt_ports t) \<rparr>"

lemma complete_wf:
  assumes wf: "dns_table_wf n t"
  shows "complete t i = (case hm_get (dt_by_id t) i of None \<Rightarrow> (t, None)
     | Some k \<Rightarrow> (case hm_get (dt_by_key t) k of None \<Rightarrow> (t, None) | Some tx \<Rightarrow> (remove_tx t tx, Some tx)))"
proof (cases "hm_get (dt_by_id t) i")
  case (Some k)
  then obtain tx where tx: "hm_get (dt_by_key t) k = Some tx" "tx_id tx = i" using wf_idD [OF wf] by blast
  then show ?thesis using Some wfD(1) [OF wf tx(1)] by (simp add: complete_def remove_tx_def)
qed (simp add: complete_def)

lemma wf_remove:
  assumes wf: "dns_table_wf n t" and tx: "hm_get (dt_by_key t) key = Some tx"
  shows "dns_table_wf n (remove_tx t tx)"
proof -
  let ?t = "remove_tx t tx"
  note w = wfD [OF wf tx]
  have sorted: "sorted_wrt (<) (dt_ports t)" and small: "unat (dt_next_id t) \<le> Suc n"
    and cap: "hm_len (dt_by_key t) \<le> dt_capacity t"
    using wf by (auto simp: dns_table_wf_def)
  have get: "hm_get (dt_by_key ?t) k = (if k = key then None else hm_get (dt_by_key t) k)"
    "hm_get (dt_by_id ?t) i = (if i = tx_id tx then None else hm_get (dt_by_id t) i)"
    "hm_get (reverse_ids ?t) rk = (if rk = reverse_key_of tx then None else hm_get (reverse_ids t) rk)"
    for k i rk by (simp_all add: remove_tx_def hm_get_remove w(1))
  have fld: "dt_ports ?t = bs_insert (tx_nat_port tx) (dt_ports t)" "dt_next_id ?t = dt_next_id t"
    "table_nat_ip ?t = table_nat_ip t" "dt_capacity ?t = dt_capacity t"
    by (simp_all add: remove_tx_def)
  show ?thesis
  proof (rule wfI)
    show "sorted_wrt (<) (dt_ports ?t)" unfolding fld using sorted by blast
    show "hm_len (dt_by_key ?t) \<le> dt_capacity ?t" using cap by (auto simp: remove_tx_def hm_len_remove)
    show "unat (dt_next_id ?t) \<le> Suc n" unfolding fld by (rule small)
  next
    fix k ty assume "hm_get (dt_by_key ?t) k = Some ty"
    then have k: "k \<noteq> key" "hm_get (dt_by_key t) k = Some ty" by (auto simp: get split: if_splits)
    have "tx_nat_port ty \<noteq> tx_nat_port tx" using wf_portD [OF wf k(2) tx] k(1) by blast
    moreover have "tx_id ty \<noteq> tx_id tx" using wfD(5) [OF wf k(2)] w(5) k(1) by auto
    moreover have "reverse_key_of ty \<noteq> reverse_key_of tx"
      using calculation(1) by (auto simp: reverse_key_of_def)
    ultimately show "tx_key ty = k \<and> tx_nat_ip ty = table_nat_ip ?t \<and> tx_nat_port ty \<notin> set (dt_ports ?t) \<and>
      tx_id ty < dt_next_id ?t \<and> hm_get (dt_by_id ?t) (tx_id ty) = Some k \<and>
      hm_get (reverse_ids ?t) (reverse_key_of ty) = Some (tx_id ty)"
      using wfD [OF wf k(2)] by (simp add: get fld)
  next
    fix k j ty tz assume "hm_get (dt_by_key ?t) k = Some ty" "hm_get (dt_by_key ?t) j = Some tz"
      and "tx_nat_port ty = tx_nat_port tz"
    then show "k = j" using wf_portD [OF wf] by (auto simp: get split: if_splits)
  next
    fix i k assume "hm_get (dt_by_id ?t) i = Some k"
    then show "\<exists>ty. hm_get (dt_by_key ?t) k = Some ty \<and> tx_id ty = i"
      using wf_idD [OF wf, of i k] tx by (auto simp: get split: if_splits)
  next
    fix rk i assume "hm_get (reverse_ids ?t) rk = Some i"
    then have rk: "rk \<noteq> reverse_key_of tx" "hm_get (reverse_ids t) rk = Some i" by (auto simp: get split: if_splits)
    obtain k ty where "hm_get (dt_by_key t) k = Some ty" "tx_id ty = i" "reverse_key_of ty = rk"
      using wf_reverseD [OF wf rk(2)] by blast
    then show "\<exists>k ty. hm_get (dt_by_key ?t) k = Some ty \<and> tx_id ty = i \<and> reverse_key_of ty = rk"
      using rk(1) tx by (intro exI [of _ k] exI [of _ ty]) (auto simp: get)
  qed
qed

lemma wf_mono: "dns_table_wf n t \<Longrightarrow> dns_table_wf (Suc n) t"
  by (auto simp: dns_table_wf_def)

lemma reach_wf: "dns_reach n t \<Longrightarrow> n < 2 ^ 64 - 1 \<Longrightarrow> dns_table_wf n t"
proof (induction rule: dns_reach.induct)
  case (dns_new cap ip first final t)
  then show ?case by (blast intro: wf_new)
next
  case (dns_create n t key client resolver t' r)
  have wf: "dns_table_wf n t" using dns_create by simp
  from dns_create(2) show ?case
  proof (cases rule: get_or_create_cases)
    case (fresh port ports)
    then show ?thesis
      using wf_insert [OF wf fresh(1,2) _ dns_create(4) refl, of port client resolver] by simp
  qed (simp_all add: wf_mono [OF wf])
next
  case (dns_complete n t i t' r)
  then have wf: "dns_table_wf n t" by simp
  show ?case
    using dns_complete(2) wf wf_remove [OF wf] unfolding complete_wf [OF wf]
    by (auto split: option.splits)
qed

lemma wf_lookup:
  assumes wf: "dns_table_wf n t"
  shows "dns_lookup_reverse t rk = Some tx \<longleftrightarrow> hm_get (dt_by_key t) (tx_key tx) = Some tx \<and> reverse_key_of tx = rk"
proof
  assume "dns_lookup_reverse t rk = Some tx"
  then obtain i k where i: "hm_get (reverse_ids t) rk = Some i" "hm_get (dt_by_id t) i = Some k"
    "hm_get (dt_by_key t) k = Some tx"
    unfolding dns_lookup_reverse_def by (auto simp: bind_eq_Some_conv)
  obtain j ty where j: "hm_get (dt_by_key t) j = Some ty" "tx_id ty = i" "reverse_key_of ty = rk"
    using wf_reverseD [OF wf i(1)] by blast
  have "hm_get (dt_by_id t) i = Some j" using wfD(5) [OF wf j(1)] j(2) by simp
  then show "hm_get (dt_by_key t) (tx_key tx) = Some tx \<and> reverse_key_of tx = rk"
    using i j wfD(1) [OF wf i(3)] by simp
next
  assume a: "hm_get (dt_by_key t) (tx_key tx) = Some tx \<and> reverse_key_of tx = rk"
  then show "dns_lookup_reverse t rk = Some tx"
    using wfD(5,6) [OF wf conjunct1 [OF a]] by (auto simp: dns_lookup_reverse_def)
qed

section \<open>Theorems\<close>

text \<open>
  C37: In every table reached by fewer than \<open>2\<^sup>64 - 1\<close> queries, a resolver's answer is led to
  exactly the transaction with that resolver, address and port: no two live transactions
  share a port, none holds a port that is still free, and there are never more than the capacity.
\<close>

theorem dns_table_leads_back:
  assumes "dns_reach n t" and "n < 2 ^ 64 - 1"
  shows "(dns_lookup_reverse t rk = Some tx \<longleftrightarrow>
      hm_get (dt_by_key t) (tx_key tx) = Some tx \<and> reverse_key_of tx = rk) \<and>
    (hm_get (dt_by_key t) k = Some tx \<and> hm_get (dt_by_key t) j = Some ty \<and>
      tx_nat_port tx = tx_nat_port ty \<longrightarrow> k = j) \<and>
    (hm_get (dt_by_key t) k = Some tx \<longrightarrow> tx_nat_port tx \<notin> set (dt_ports t)) \<and>
    dns_table_len t \<le> dt_capacity t"
proof -
  have wf: "dns_table_wf n t" by (rule reach_wf [OF assms])
  then have "hm_len (dt_by_key t) \<le> dt_capacity t" by (simp add: dns_table_wf_def)
  then show ?thesis
    using wf_lookup [OF wf] wf_portD [OF wf] wfD(3) [OF wf] by (auto simp: dns_table_len_def)
qed

definition sample_dns_key :: dns_transaction_key where
  "sample_dns_key = Opaque \<lparr> sock_ip = V4 1, sock_port = 2 \<rparr> None 3"

definition sample_dns_table :: dns_transaction_table where
  "sample_dns_table = fst (get_or_create (case dns_table_new 4 (V4 9) 100 101 of Ok t \<Rightarrow> t)
     sample_dns_key \<lparr> sock_ip = V4 1, sock_port = 2 \<rparr> \<lparr> sock_ip = V4 5, sock_port = 53 \<rparr>)"

definition sample_dns_tx :: dns_transaction where
  "sample_dns_tx = \<lparr> tx_id = 1, tx_key = sample_dns_key, tx_client = \<lparr> sock_ip = V4 1, sock_port = 2 \<rparr>,
     tx_resolver = \<lparr> sock_ip = V4 5, sock_port = 53 \<rparr>, tx_nat_ip = V4 9, tx_nat_port = 100 \<rparr>"

theorem dns_table_leads_back_witness:
  "dns_lookup_reverse sample_dns_table (reverse_key_of sample_dns_tx) = Some sample_dns_tx \<and>
   dns_table_len sample_dns_table \<le> 4"
proof -
  obtain t where t: "dns_table_new 4 (V4 9) 100 101 = Ok t" by (simp add: dns_table_new_def guard_err_def)
  have "dns_reach (Suc 0) sample_dns_table"
    unfolding sample_dns_table_def t by (auto intro!: dns_create [OF dns_new [OF t]] prod.collapse [symmetric])
  moreover have "hm_get (dt_by_key sample_dns_table) (tx_key sample_dns_tx) = Some sample_dns_tx"
    and "dt_capacity sample_dns_table = 4" by code_simp+
  ultimately show ?thesis
    using dns_table_leads_back [of "Suc 0" sample_dns_table "reverse_key_of sample_dns_tx" sample_dns_tx] by simp
qed

text \<open>
  Completing a transaction removes exactly that transaction: its port is free again, its
  key and its reverse key find nothing any more, and every other transaction is still found.
\<close>

theorem dns_complete_releases:
  assumes "dns_reach n t" and "n < 2 ^ 64 - 1" and "complete t i = (t', Some tx)"
  shows "tx_id tx = i \<and> hm_get (dt_by_key t) (tx_key tx) = Some tx \<and> tx_nat_port tx \<in> set (dt_ports t') \<and>
    hm_get (dt_by_key t') (tx_key tx) = None \<and> dns_lookup_reverse t' (reverse_key_of tx) = None \<and>
    (k \<noteq> tx_key tx \<longrightarrow> hm_get (dt_by_key t') k = hm_get (dt_by_key t) k)"
proof -
  have wf: "dns_table_wf n t" by (rule reach_wf [OF assms(1,2)])
  obtain key where key: "hm_get (dt_by_id t) i = Some key" "hm_get (dt_by_key t) key = Some tx"
    and t': "t' = remove_tx t tx"
    using assms(3) unfolding complete_wf [OF wf] by (auto split: option.splits)
  note w = wfD [OF wf key(2)]
  have "tx_id tx = i" using wf_idD [OF wf key(1)] key(2) by auto
  then show ?thesis
    using key(2) w by (simp add: t' remove_tx_def hm_get_remove dns_lookup_reverse_def)
qed

end
