(* ===== verification/Flow_Worker.thy ===== *)
theory Flow_Worker
  imports Session_Table Quic_Flow Packet_Rewrite Dns_Message
begin

text \<open>
  A flow worker and its packet handlers for proxied sessions (\<open>FlowWorkerState\<close> of
  \<open>flow_plane/worker.rs\<close>).  A handler takes the worker and returns it updated with its
  outcome; clock readings are arguments.  The DNS handlers are in \<open>Dns_Flow\<close>.
\<close>

section \<open>State\<close>

record outer_route =
  outer_source_ip :: "ip_addr option"
  outer_source_port :: u16
  outer_destination :: socket_addr

record io_transmit =
  target :: io_owner_key
  tx_packet :: bytes
  outer :: "outer_route option"

record flow_worker_stats =
  queue_mismatch_drops :: u64
  unknown_dcid_drops :: u64
  session_nat_exhausted :: u64
  dns_query_local :: u64
  dns_query_remote :: u64
  dns_response_local :: u64
  dns_response_remote :: u64
  dns_servfail :: u64
  dns_capacity_exhausted :: u64
  dns_nat_exhausted :: u64
  dns_malformed_local_fallback :: u64
  dns_spoofed_response_drop :: u64
  dns_late_response_drop :: u64
  dns_edns_clamped :: u64
  dns_timeout :: u64
  dns_transactions_active :: u64

record handled_intercept =
  hi_session :: session_id
  hi_transmit :: io_transmit

record handled_reverse =
  hr_session :: session_id
  hr_quic_flow :: quic_flow_id
  hr_target :: io_owner_key
  hr_packet :: bytes

record dns_flow_transaction =
  dt_token :: session_id
  dt_client :: socket_addr
  dt_vip :: socket_addr
  dt_binding :: nat_binding
  dt_target :: io_owner_key
  dt_remote :: bool
  dt_created_at :: instant
  dt_expires_at :: instant
  dt_packet :: bytes

record dns_flow_transaction_key =
  dk_owner :: io_owner_key
  dk_dns :: dns_transaction_key

datatype dns_flow_error = NotDnsQuery | DnsCapacityExhausted

datatype flow_worker_error =
    PacketFailure packet_error
  | SessionFailure session_error
  | DnsFailure dns_flow_error
  | WrongQuicFlowOwner worker_id worker_id

record flow_worker =
  fw_id :: worker_id
  fw_sessions :: session_table
  next_dns_token :: u64
  dns_by_key :: "(dns_flow_transaction_key, dns_flow_transaction) alist"
  dns_by_reverse :: "(flow_key, dns_flow_transaction_key) alist"
  dns_deadlines :: "dns_flow_transaction_key deadline_map"
  dns_completed_reverse :: "(flow_key, u64) alist"
  dns_completed_order :: "(u64 \<times> flow_key) list"
  next_dns_completed_sequence :: u64
  fw_stats :: flow_worker_stats

definition default_stats :: flow_worker_stats where
  "default_stats =
    \<lparr> queue_mismatch_drops = 0, unknown_dcid_drops = 0, session_nat_exhausted = 0, dns_query_local = 0,
      dns_query_remote = 0, dns_response_local = 0, dns_response_remote = 0, dns_servfail = 0,
      dns_capacity_exhausted = 0, dns_nat_exhausted = 0, dns_malformed_local_fallback = 0,
      dns_spoofed_response_drop = 0, dns_late_response_drop = 0, dns_edns_clamped = 0, dns_timeout = 0,
      dns_transactions_active = 0 \<rparr>"

definition new_worker ::
  "worker_id \<Rightarrow> u32 option \<Rightarrow> 128 word option \<Rightarrow> u16 \<Rightarrow> u16 \<Rightarrow> (flow_worker, session_error) result" where
  "new_worker i v4 v6 first_port last_port =
    and_then (new_table i v4 v6 first_port last_port) (\<lambda>table.
      Ok \<lparr> fw_id = i, fw_sessions = table, next_dns_token = 1, dns_by_key = hm_empty,
           dns_by_reverse = hm_empty, dns_deadlines = [], dns_completed_reverse = hm_empty,
           dns_completed_order = [], next_dns_completed_sequence = 1, fw_stats = default_stats \<rparr>)"

definition new_worker_single ::
  "worker_id \<Rightarrow> ip_addr \<Rightarrow> u16 \<Rightarrow> u16 \<Rightarrow> (flow_worker, session_error) result" where
  "new_worker_single i snat_ip first_port last_port =
    (case snat_ip of
       V4 address \<Rightarrow> new_worker i (Some address) None first_port last_port
     | V6 address \<Rightarrow> new_worker i None (Some address) first_port last_port)"

section \<open>Sequencing with state\<close>

definition st_then ::
  "'s \<times> ('a, 'e) result \<Rightarrow> ('s \<Rightarrow> 'a \<Rightarrow> 's \<times> ('b, 'e) result) \<Rightarrow> 's \<times> ('b, 'e) result" where
  "st_then m f = (case m of (s, Ok x) \<Rightarrow> f s x | (s, Err e) \<Rightarrow> (s, Err e) | (s, Panic) \<Rightarrow> (s, Panic))"

lemma st_then_simps [simp]:
  "st_then (s, Ok x) f = f s x" "st_then (s, Err e) f = (s, Err e)" "st_then (s, Panic) f = (s, Panic)"
  by (simp_all add: st_then_def)

lemma st_then_eq_Ok:
  "st_then m f = (s', Ok y) \<longleftrightarrow> (\<exists>s x. m = (s, Ok x) \<and> f s x = (s', Ok y))"
  by (cases m; cases "snd m") (auto simp: st_then_def)

text \<open>Packet errors and session errors converted by \<open>?\<close>, with the worker unchanged.\<close>

abbreviation pkt :: "flow_worker \<Rightarrow> ('a, packet_error) result \<Rightarrow> flow_worker \<times> ('a, flow_worker_error) result" where
  "pkt w r \<equiv> (w, map_err PacketFailure r)"

definition on_sessions ::
  "flow_worker \<Rightarrow> session_table \<times> ('a, session_error) result \<Rightarrow> flow_worker \<times> ('a, session_error) result" where
  "on_sessions w m = (w\<lparr> fw_sessions := fst m \<rparr>, snd m)"

definition bump :: "(flow_worker_stats \<Rightarrow> flow_worker_stats) \<Rightarrow> flow_worker \<Rightarrow> flow_worker" where
  "bump f w = w\<lparr> fw_stats := f (fw_stats w) \<rparr>"

section \<open>Handlers\<close>

definition check_quic_owner :: "flow_worker \<Rightarrow> quic_flow \<Rightarrow> (unit, flow_worker_error) result" where
  "check_quic_owner w f =
    (if qf_worker f \<noteq> fw_id w then Err (WrongQuicFlowOwner (fw_id w) (qf_worker f)) else Ok ())"

text \<open>Looking the session up or creating it, counting port exhaustion.\<close>

definition session_for ::
  "flow_worker \<Rightarrow> flow_key \<Rightarrow> io_owner_key \<Rightarrow> quic_flow_id \<Rightarrow> u8 option \<Rightarrow> instant \<Rightarrow> instant \<Rightarrow>
   flow_worker \<times> (session_id, flow_worker_error) result" where
  "session_for w flow io quic_id flags now nat_now =
    (let (w', r) = on_sessions w (get_or_create_with_flags_at (fw_sessions w) (fw_id w) flow io quic_id
                     flags False now nat_now)
     in (case r of
           Err (NatFailure PortRangeExhausted) \<Rightarrow>
             (bump (\<lambda>s. s\<lparr> session_nat_exhausted := session_nat_exhausted s + 1 \<rparr>) w',
              Err (SessionFailure (NatFailure PortRangeExhausted)))
         | _ \<Rightarrow> (w', map_err SessionFailure r)))"

definition handle_intercept ::
  "flow_worker \<Rightarrow> io_owner_key \<Rightarrow> bytes \<Rightarrow> quic_flow \<Rightarrow> io_owner_key \<Rightarrow> instant \<Rightarrow> instant \<Rightarrow>
   flow_worker \<times> (handled_intercept, flow_worker_error) result" where
  "handle_intercept w io packet quic tunnel_target now nat_now =
    st_then (w, check_quic_owner w quic) (\<lambda>w _.
    st_then (pkt w (prepare_forwarded_packet packet)) (\<lambda>w packet.
    st_then (pkt w (parse_flow_key packet)) (\<lambda>w flow.
    st_then (pkt w (clamp_tcp_mss packet TCP_MAX_SAFE_MSS)) (\<lambda>w (packet, _).
    st_then (pkt w (parse_tcp_flags packet)) (\<lambda>w tcp_flags.
    st_then (session_for w flow io (qf_id quic) tcp_flags now nat_now) (\<lambda>w session_id.
    st_then (w, expect (session_get (fw_sessions w) session_id)) (\<lambda>w s.
    st_then (pkt w (rewrite_packet packet (nb_translated (sess_nat s)))) (\<lambda>w packet.
      (w, Ok \<lparr> hi_session = session_id,
               hi_transmit = \<lparr> target = tunnel_target, tx_packet = packet, outer = None \<rparr> \<rparr>)))))))))"

definition handle_server_inner ::
  "flow_worker \<Rightarrow> io_owner_key \<Rightarrow> bytes \<Rightarrow> quic_flow \<Rightarrow> instant \<Rightarrow> instant \<Rightarrow>
   flow_worker \<times> (handled_intercept, flow_worker_error) result" where
  "handle_server_inner w default_intercept packet quic now nat_now =
    st_then (w, check_quic_owner w quic) (\<lambda>w _.
    st_then (pkt w (prepare_forwarded_packet packet)) (\<lambda>w packet.
    st_then (pkt w (parse_flow_key packet)) (\<lambda>w flow.
    st_then (pkt w (clamp_tcp_mss packet TCP_MAX_SAFE_MSS)) (\<lambda>w (packet, _).
    st_then (pkt w (parse_tcp_flags packet)) (\<lambda>w tcp_flags.
    st_then (session_for w flow default_intercept (qf_id quic) tcp_flags now nat_now) (\<lambda>w session_id.
    st_then (w, expect (session_get (fw_sessions w) session_id)) (\<lambda>w s.
    st_then (pkt w (rewrite_packet packet (nb_translated (sess_nat s)))) (\<lambda>w packet.
      (w, Ok \<lparr> hi_session = session_id,
               hi_transmit = \<lparr> target = intercept_io s, tx_packet = packet, outer = None \<rparr> \<rparr>)))))))))"

definition correct_server_return_io ::
  "flow_worker \<Rightarrow> session_id \<Rightarrow> io_owner_key \<Rightarrow> flow_worker \<times> bool" where
  "correct_server_return_io w session_id observed =
    (case on_sessions w (correct_intercept_io (fw_sessions w) (fw_id w) session_id observed) of
       (w', Ok Unchanged) \<Rightarrow> (w', True)
     | (w', Ok Corrected) \<Rightarrow> (w', True)
     | (w', _) \<Rightarrow> (bump (\<lambda>s. s\<lparr> queue_mismatch_drops := queue_mismatch_drops s + 1 \<rparr>) w', False))"

text \<open>The flow of a packet on its way back to the client.\<close>

definition restored_flow :: "session \<Rightarrow> flow_key \<Rightarrow> flow_key" where
  "restored_flow s return_flow =
    (if is_icmp (protocol (sess_original s)) then
       \<lparr> source = destination (sess_original s), destination = source (sess_original s),
         source_port = source_port (sess_original s), destination_port = destination_port return_flow,
         protocol = protocol (sess_original s) \<rparr>
     else reverse (sess_original s))"

text \<open>The part of the handler that runs once the packet is known to belong to a session.\<close>

definition finish_reverse ::
  "flow_worker \<Rightarrow> session_id \<Rightarrow> u8 option \<Rightarrow> bytes \<Rightarrow> flow_key \<Rightarrow> instant \<Rightarrow>
   flow_worker \<times> (handled_reverse option, flow_worker_error) result" where
  "finish_reverse w session_id tcp_flags restored return_flow now =
    st_then (let (w', r) = on_sessions w (touch_tcp (fw_sessions w) (fw_id w) session_id tcp_flags True now)
             in (w', map_err SessionFailure r)) (\<lambda>w _.
    st_then (w, expect (session_get (fw_sessions w) session_id)) (\<lambda>w s.
    st_then (pkt w (rewrite_packet restored (restored_flow s return_flow))) (\<lambda>w packet.
      (w, Ok (Some \<lparr> hr_session = session_id, hr_quic_flow = sess_quic_flow s,
                     hr_target = intercept_io s, hr_packet = packet \<rparr>)))))"

definition handle_reverse_for_inner ::
  "flow_worker \<Rightarrow> bytes \<Rightarrow> session_locator \<Rightarrow> io_owner_key option \<Rightarrow> instant \<Rightarrow>
   flow_worker \<times> (handled_reverse option, flow_worker_error) result" where
  "handle_reverse_for_inner w packet expected_locator observed now =
    st_then (pkt w (prepare_forwarded_packet packet)) (\<lambda>w restored.
    st_then (pkt w (parse_flow_key restored)) (\<lambda>w return_flow.
      case lookup_reverse_locator (fw_sessions w) return_flow of
        None \<Rightarrow> (w, Ok None)
      | Some locator \<Rightarrow>
          if locator \<noteq> expected_locator \<or> flow_worker_id locator \<noteq> fw_id w then (w, Ok None)
          else
            st_then (pkt w (clamp_tcp_mss restored TCP_MAX_SAFE_MSS)) (\<lambda>w (restored, _).
            st_then (pkt w (parse_tcp_flags restored)) (\<lambda>w tcp_flags.
              let (w, accepted) = (case observed of
                      None \<Rightarrow> (w, True)
                    | Some owner \<Rightarrow> correct_server_return_io w (locator_session locator) owner)
              in if \<not> accepted then (w, Ok None)
                 else finish_reverse w (locator_session locator) tcp_flags restored return_flow now))))"

definition handle_reverse_for ::
  "flow_worker \<Rightarrow> bytes \<Rightarrow> session_locator \<Rightarrow> instant \<Rightarrow>
   flow_worker \<times> (handled_reverse option, flow_worker_error) result" where
  "handle_reverse_for w packet expected_locator now =
    handle_reverse_for_inner w packet expected_locator None now"

definition handle_server_reverse ::
  "flow_worker \<Rightarrow> io_owner_key \<Rightarrow> bytes \<Rightarrow> session_locator \<Rightarrow> instant \<Rightarrow>
   flow_worker \<times> (handled_reverse option, flow_worker_error) result" where
  "handle_server_reverse w observed packet expected_locator now =
    handle_reverse_for_inner w packet expected_locator (Some observed) now"

definition handle_reverse ::
  "flow_worker \<Rightarrow> bytes \<Rightarrow> instant \<Rightarrow> flow_worker \<times> (handled_reverse option, flow_worker_error) result" where
  "handle_reverse w packet now =
    st_then (pkt w (parse_flow_key packet)) (\<lambda>w flow.
      case lookup_reverse_locator (fw_sessions w) flow of
        None \<Rightarrow> (w, Ok None)
      | Some locator \<Rightarrow> handle_reverse_for w packet locator now)"

text \<open>The remaining session operations of a worker pass its own identifier to the table.\<close>

definition worker_rebind_quic_flow ::
  "flow_worker \<Rightarrow> quic_flow_id \<Rightarrow> quic_flow_id \<Rightarrow> flow_worker \<times> (nat, session_error) result" where
  "worker_rebind_quic_flow w old new =
    on_sessions w (rebind_quic_flow (fw_sessions w) (fw_id w) old new)"

definition worker_remove_by_quic_flow ::
  "flow_worker \<Rightarrow> quic_flow_id \<Rightarrow> (session_id \<Rightarrow> instant) \<Rightarrow>
   flow_worker \<times> (session list, session_error) result" where
  "worker_remove_by_quic_flow w quic_id clk =
    (let found = filter (\<lambda>s. sess_quic_flow s = quic_id) (hm_vals (sessions (fw_sessions w)))
     in st_then (on_sessions w (remove_by_quic_flow (fw_sessions w) (fw_id w) quic_id clk)) (\<lambda>w _.
          (w, Ok found)))"

definition remove_session ::
  "flow_worker \<Rightarrow> session_id \<Rightarrow> instant \<Rightarrow> flow_worker \<times> (session, session_error) result" where
  "remove_session w session_id nat_now =
    on_sessions w (remove (fw_sessions w) (fw_id w) session_id nat_now)"

definition expire_idle_sessions ::
  "flow_worker \<Rightarrow> instant \<Rightarrow> (session_id \<Rightarrow> instant) \<Rightarrow> flow_worker \<times> (session list, session_error) result" where
  "expire_idle_sessions w now clk = on_sessions w (expire_idle (fw_sessions w) (fw_id w) now clk)"

definition local_return_target :: "flow_worker \<Rightarrow> session_id \<Rightarrow> io_owner_key option" where
  "local_return_target w session_id = map_option intercept_io (session_get (fw_sessions w) session_id)"

section \<open>Sessions of a worker\<close>

definition worker_inv :: "u16 set \<Rightarrow> flow_worker \<Rightarrow> bool" where
  "worker_inv ports w \<longleftrightarrow> table_inv ports (fw_sessions w) \<and> owner_worker_id (fw_sessions w) = fw_id w"

lemma on_sessions_simps [simp]:
  "fst (on_sessions w m) = w\<lparr> fw_sessions := fst m \<rparr>" "snd (on_sessions w m) = snd m"
  "fw_sessions (bump f w) = fw_sessions w" "fw_id (bump f w) = fw_id w"
  by (simp_all add: on_sessions_def bump_def)

text \<open>What a session promises: its translation is a source translation of its flow.\<close>

lemma session_translation:
  assumes core: "table_core ports st" and s: "hm_get (sessions st) i = Some s"
  shows "translatable (sess_original s) (nb_translated (sess_nat s))"
    and "destination_port (nb_translated (sess_nat s)) = destination_port (sess_original s)"
    and "protocol (nb_translated (sess_nat s)) = protocol (sess_original s)"
    and "destination (nb_translated (sess_nat s)) = destination (sess_original s)"
proof -
  have b: "hm_get (forward (nat_tbl st)) i = Some (sess_nat s)" "nb_original (sess_nat s) = sess_original s"
    using table_coreD(3) [OF core s] by (simp_all add: session_ok_def binding_of_def)
  have "binding_ok ports (nat_tbl st) (sess_nat s)" using nat_invD(4) [OF table_coreD(1) [OF core] b(1)] .
  then obtain ip where ip: "snat_ip_for (nat_tbl st) (sess_original s) = Some ip"
    and tr: "nb_translated (sess_nat s) = translate_flow ip (source_port (nb_translated (sess_nat s))) (sess_original s)"
    using b(2) by (auto simp: binding_ok_def)
  have "same_family (source (sess_original s)) ip"
    using ip by (auto simp: snat_ip_for_def same_family_def split: ip_addr.splits)
  then show "translatable (sess_original s) (nb_translated (sess_nat s))"
    by (subst tr) (simp add: translatable_def translate_flow_def same_family_def split: ip_addr.split)
  show "destination_port (nb_translated (sess_nat s)) = destination_port (sess_original s)"
    "protocol (nb_translated (sess_nat s)) = protocol (sess_original s)"
    "destination (nb_translated (sess_nat s)) = destination (sess_original s)"
    by (subst tr, simp add: translate_flow_def)+
qed

lemma session_for_Ok:
  assumes inv: "worker_inv ports w" and r: "session_for w flow io q flags now nat_now = (w', Ok i)"
  obtains s where "worker_inv ports w'" and "hm_get (sessions (fw_sessions w')) i = Some s"
    and "sess_original s = flow" and "ifindex (intercept_io s) = ifindex io" and "fw_id w' = fw_id w"
proof -
  let ?g = "get_or_create_with_flags_at (fw_sessions w) (fw_id w) flow io q flags False now nat_now"
  have inv': "table_inv ports (fw_sessions w)" and o': "owner_worker_id (fw_sessions w) = fw_id w"
    using inv by (simp_all add: worker_inv_def)
  have w': "w' = w\<lparr> fw_sessions := fst ?g \<rparr>" and g: "snd ?g = Ok i"
    using r unfolding session_for_def on_sessions_def Let_def
    by (auto split: result.splits session_error.splits nat_error.splits)
  have core: "table_core ports (fst ?g)" and ti: "table_inv ports (fst ?g)"
    using table_inv_get_or_create [OF inv'] by (simp_all add: table_inv_def)
  have "hm_get (by_key (fst ?g)) (table_key flow io) = Some i"
    using get_or_create_key [of ports "fw_sessions w" flow io q flags False now nat_now "fst ?g" i] inv' o' g
    by (simp add: table_inv_def prod_eq_iff)
  then obtain s where s: "hm_get (sessions (fst ?g)) i = Some s" "session_key_of s = table_key flow io"
    using table_coreD(4) [OF core] by blast
  show ?thesis
  proof (rule that)
    show "worker_inv ports w'" using ti o' by (simp add: worker_inv_def w')
    show "hm_get (sessions (fw_sessions w')) i = Some s" using s(1) by (simp add: w')
    show "sess_original s = flow" "ifindex (intercept_io s) = ifindex io"
      using s(2) by (simp_all add: session_key_of_def table_key_def)
    show "fw_id w' = fw_id w" by (simp add: w')
  qed
qed

lemma pkt_Ok: "pkt w r = (w', Ok x) \<longleftrightarrow> w' = w \<and> r = Ok x"
  by (auto simp: map_err_eq_Ok)

text \<open>The packet of a handled flow, before it is rewritten: still of that flow.\<close>

lemma prepared_flow:
  assumes p: "prepare_forwarded_packet packet = Ok p1" and f: "parse_flow_key p1 = Ok flow"
    and c: "clamp_tcp_mss p1 mss = Ok (p2, m)"
  shows "ok (parse_flow_key packet) = Some flow" and "parse_flow_key p2 = Ok flow" and "echo_kind flow"
proof -
  show "parse_flow_key p2 = Ok flow" by (rule clamp_tcp_mss_flow(2) [OF f c])
  show "echo_kind flow" by (rule parse_flow_key_echo [OF f])
  show "ok (parse_flow_key packet) = Some flow" using prepare_keeps_flow [OF p] f by simp
qed

text \<open>A packet leaves with the translation of its session.\<close>

definition translated_out :: "flow_worker \<Rightarrow> session_id \<Rightarrow> bytes \<Rightarrow> bytes \<Rightarrow> bool" where
  "translated_out w i packet out \<longleftrightarrow>
    (\<exists>flow s. ok (parse_flow_key packet) = Some flow \<and> session_get (fw_sessions w) i = Some s \<and>
       sess_original s = flow \<and> parse_flow_key out = Ok (nb_translated (sess_nat s)) \<and>
       validate_packet_checksums out = Ok () \<and>
       (\<forall>ret. answers ret (nb_translated (sess_nat s)) \<longrightarrow>
          lookup_reverse_locator (fw_sessions w) ret = Some \<lparr> flow_worker_id = fw_id w, locator_session = i \<rparr>))"

lemma echo_kind_cong:
  "protocol f = protocol g \<Longrightarrow> destination_port f = destination_port g \<Longrightarrow> echo_kind f = echo_kind g"
  by (simp add: echo_kind_def split: transport_protocol.split)

lemma translated_outI:
  assumes inv: "worker_inv ports w" and p: "prepare_forwarded_packet packet = Ok p1"
    and f: "parse_flow_key p1 = Ok flow" and c: "clamp_tcp_mss p1 mss = Ok (p2, m)"
    and s: "hm_get (sessions (fw_sessions w)) i = Some s" "sess_original s = flow"
    and r: "rewrite_packet p2 (nb_translated (sess_nat s)) = Ok out"
  shows "translated_out w i packet out"
proof -
  have core: "table_core ports (fw_sessions w)" and o': "owner_worker_id (fw_sessions w) = fw_id w"
    using inv by (simp_all add: worker_inv_def table_inv_def)
  note flow = prepared_flow [OF p f c] and t = session_translation [OF core s(1)]
  have "echo_kind (nb_translated (sess_nat s))"
    using flow(3) s(2) echo_kind_cong [OF t(3,2)] by simp
  moreover have "rewritten p2 (nb_translated (sess_nat s)) out"
    using r by (elim rewrite_packet_OkD)
  ultimately have "parse_flow_key out = Ok (nb_translated (sess_nat s)) \<and> validate_packet_checksums out = Ok ()"
    by (simp add: rewritten_def)
  moreover have "lookup_reverse_locator (fw_sessions w) ret = Some \<lparr> flow_worker_id = fw_id w, locator_session = i \<rparr>"
    if "answers ret (nb_translated (sess_nat s))" for ret
    using session_nat_lookup [OF core s(1) that] o' by (simp add: own_locator_def)
  ultimately show ?thesis using flow(1) s unfolding translated_out_def session_get_def by blast
qed

lemma handle_intercept_OkE:
  assumes "handle_intercept w io packet quic tgt now nat_now = (w', Ok h)"
  obtains p1 flow p2 m flags s out where "qf_worker quic = fw_id w"
    and "prepare_forwarded_packet packet = Ok p1" and "parse_flow_key p1 = Ok flow"
    and "clamp_tcp_mss p1 TCP_MAX_SAFE_MSS = Ok (p2, m)"
    and "session_for w flow io (qf_id quic) flags now nat_now = (w', Ok (hi_session h))"
    and "hm_get (sessions (fw_sessions w')) (hi_session h) = Some s"
    and "rewrite_packet p2 (nb_translated (sess_nat s)) = Ok out"
    and "hi_transmit h = \<lparr> target = tgt, tx_packet = out, outer = None \<rparr>"
proof -
  have "\<exists>p1 flow p2 m flags i s out. check_quic_owner w quic = Ok () \<and>
      prepare_forwarded_packet packet = Ok p1 \<and> parse_flow_key p1 = Ok flow \<and>
      clamp_tcp_mss p1 TCP_MAX_SAFE_MSS = Ok (p2, m) \<and>
      session_for w flow io (qf_id quic) flags now nat_now = (w', Ok i) \<and>
      session_get (fw_sessions w') i = Some s \<and> rewrite_packet p2 (nb_translated (sess_nat s)) = Ok out \<and>
      h = \<lparr> hi_session = i, hi_transmit = \<lparr> target = tgt, tx_packet = out, outer = None \<rparr> \<rparr>"
    using assms unfolding handle_intercept_def
    by (auto simp: st_then_eq_Ok map_err_eq_Ok expect_eq_Ok) blast
  then show ?thesis using that by (auto simp: check_quic_owner_def session_get_def split: if_splits)
qed

lemma handle_server_inner_OkE:
  assumes "handle_server_inner w io packet quic now nat_now = (w', Ok h)"
  obtains p1 flow p2 m flags s out where "qf_worker quic = fw_id w"
    and "prepare_forwarded_packet packet = Ok p1" and "parse_flow_key p1 = Ok flow"
    and "clamp_tcp_mss p1 TCP_MAX_SAFE_MSS = Ok (p2, m)"
    and "session_for w flow io (qf_id quic) flags now nat_now = (w', Ok (hi_session h))"
    and "hm_get (sessions (fw_sessions w')) (hi_session h) = Some s"
    and "rewrite_packet p2 (nb_translated (sess_nat s)) = Ok out"
    and "hi_transmit h = \<lparr> target = intercept_io s, tx_packet = out, outer = None \<rparr>"
proof -
  have "\<exists>p1 flow p2 m flags i s out. check_quic_owner w quic = Ok () \<and>
      prepare_forwarded_packet packet = Ok p1 \<and> parse_flow_key p1 = Ok flow \<and>
      clamp_tcp_mss p1 TCP_MAX_SAFE_MSS = Ok (p2, m) \<and>
      session_for w flow io (qf_id quic) flags now nat_now = (w', Ok i) \<and>
      session_get (fw_sessions w') i = Some s \<and> rewrite_packet p2 (nb_translated (sess_nat s)) = Ok out \<and>
      h = \<lparr> hi_session = i, hi_transmit = \<lparr> target = intercept_io s, tx_packet = out, outer = None \<rparr> \<rparr>"
    using assms unfolding handle_server_inner_def
    by (auto simp: st_then_eq_Ok map_err_eq_Ok expect_eq_Ok) blast
  then show ?thesis using that by (auto simp: check_quic_owner_def session_get_def split: if_splits)
qed

lemma handle_intercept_out:
  assumes inv: "worker_inv ports w" and h: "handle_intercept w io packet quic tgt now nat_now = (w', Ok h)"
  shows "worker_inv ports w' \<and> fw_id w' = fw_id w \<and> target (hi_transmit h) = tgt \<and>
    translated_out w' (hi_session h) packet (tx_packet (hi_transmit h))"
  using h
proof (rule handle_intercept_OkE)
  fix p1 flow p2 m flags s out
  assume p: "prepare_forwarded_packet packet = Ok p1" "parse_flow_key p1 = Ok flow"
      "clamp_tcp_mss p1 TCP_MAX_SAFE_MSS = Ok (p2, m)"
    and sf: "session_for w flow io (qf_id quic) flags now nat_now = (w', Ok (hi_session h))"
    and s: "hm_get (sessions (fw_sessions w')) (hi_session h) = Some s"
    and r: "rewrite_packet p2 (nb_translated (sess_nat s)) = Ok out"
    and t: "hi_transmit h = \<lparr> target = tgt, tx_packet = out, outer = None \<rparr>"
  have w': "worker_inv ports w'" "fw_id w' = fw_id w" and "sess_original s = flow"
    using session_for_Ok [OF inv sf] s by (metis option.inject)+
  then have "translated_out w' (hi_session h) packet out" using translated_outI [OF w'(1) p s _ r] by blast
  then show ?thesis using w' t by simp
qed

lemma handle_server_inner_out:
  assumes inv: "worker_inv ports w" and h: "handle_server_inner w io packet quic now nat_now = (w', Ok h)"
  shows "worker_inv ports w' \<and> fw_id w' = fw_id w \<and> ifindex (target (hi_transmit h)) = ifindex io \<and>
    translated_out w' (hi_session h) packet (tx_packet (hi_transmit h))"
  using h
proof (rule handle_server_inner_OkE)
  fix p1 flow p2 m flags s out
  assume p: "prepare_forwarded_packet packet = Ok p1" "parse_flow_key p1 = Ok flow"
      "clamp_tcp_mss p1 TCP_MAX_SAFE_MSS = Ok (p2, m)"
    and sf: "session_for w flow io (qf_id quic) flags now nat_now = (w', Ok (hi_session h))"
    and s: "hm_get (sessions (fw_sessions w')) (hi_session h) = Some s"
    and r: "rewrite_packet p2 (nb_translated (sess_nat s)) = Ok out"
    and t: "hi_transmit h = \<lparr> target = intercept_io s, tx_packet = out, outer = None \<rparr>"
  have w': "worker_inv ports w'" "fw_id w' = fw_id w" and "sess_original s = flow"
    and io: "ifindex (intercept_io s) = ifindex io"
    using session_for_Ok [OF inv sf] s by (metis option.inject)+
  then have "translated_out w' (hi_session h) packet out" using translated_outI [OF w'(1) p s _ r] by blast
  then show ?thesis using w' t io by simp
qed

section \<open>Return packets\<close>

text \<open>The session a return packet is located at, and the flow it answers.\<close>

lemma lookup_locator_session:
  assumes core: "table_core ports st" and l: "lookup_reverse_locator st ret = Some loc"
  obtains s where "hm_get (sessions st) (locator_session loc) = Some s"
    and "answers ret (nb_translated (sess_nat s))" and "flow_worker_id loc = owner_worker_id st"
proof -
  have lr: "hm_get (reverse_map (nat_tbl st)) (from_return_flow ret) = Some loc"
    and own: "flow_worker_id loc = owner_worker_id st" and has: "hm_has (sessions st) (locator_session loc)"
    using l by (auto simp: lookup_reverse_locator_def lookup_reverse_def split: option.splits if_splits)
  obtain s where s: "hm_get (sessions st) (locator_session loc) = Some s"
    using has by (auto simp: hm_has_def)
  obtain i b where b: "binding_of (nat_tbl st) i = Some b" "nat_key b = from_return_flow ret"
    using nat_invD(6) [OF table_coreD(1) [OF core], of "from_return_flow ret"] lr by (auto simp: binding_of_def)
  have "hm_get (reverse_map (nat_tbl st)) (nat_key b) = Some (own_locator st i)"
    using table_coreD(2) [OF core] b(1) by (simp add: located_def)
  then have "locator_session loc = i" using lr b(2) by (simp add: own_locator_def)
  then have "b = sess_nat s" using table_coreD(3) [OF core s] b(1) by (simp add: session_ok_def)
  then have "answers ret (nb_translated (sess_nat s))"
    using b(2) from_return_flow_answers [of ret "nb_translated (sess_nat s)"] by (simp add: nat_key_def)
  then show ?thesis using that s own by blast
qed

lemma same_family_refl [simp]: "same_family x x"
  by (simp add: same_family_def split: ip_addr.split)

lemma same_family_sym: "same_family x y = same_family y x"
  by (cases x; cases y) (simp_all add: same_family_def)

lemma restored_flow_simps [simp]:
  "source (restored_flow s ret) = destination (sess_original s)"
  "destination (restored_flow s ret) = source (sess_original s)"
  "protocol (restored_flow s ret) = protocol (sess_original s)"
  by (simp_all add: restored_flow_def reverse_def)

lemma answers_restored:
  assumes core: "table_core ports st" and s: "hm_get (sessions st) i = Some s"
    and ans: "answers ret (nb_translated (sess_nat s))" and e: "echo_kind ret"
  shows "translatable ret (restored_flow s ret)" and "echo_kind (restored_flow s ret)"
proof -
  note t = session_translation [OF core s]
  have p: "protocol ret = protocol (sess_original s)" "source ret = destination (sess_original s)"
    "destination ret = source (nb_translated (sess_nat s))"
    using ans t(3,4) by (simp_all add: answers_def)
  have "same_family (source (sess_original s)) (source (nb_translated (sess_nat s)))"
    using t(1) by (simp add: translatable_def)
  then show "translatable ret (restored_flow s ret)"
    using p same_family_sym by (simp add: translatable_def)
  show "echo_kind (restored_flow s ret)"
    using e p(1)
    by (cases "protocol (sess_original s)") (simp_all add: echo_kind_def restored_flow_def reverse_def)
qed

lemma correct_server_return_io_inv:
  assumes inv: "worker_inv ports w" and c: "correct_server_return_io w i observed = (w', accepted)"
  shows "worker_inv ports w'" and "fw_id w' = fw_id w"
    and "nat_tbl (fw_sessions w') = nat_tbl (fw_sessions w)"
    and "hm_get (sessions (fw_sessions w)) j = Some s \<Longrightarrow> \<exists>s'. hm_get (sessions (fw_sessions w')) j = Some s' \<and>
      same_identity s s' \<and> sess_quic_flow s' = sess_quic_flow s"
proof -
  let ?c = "correct_intercept_io (fw_sessions w) (fw_id w) i observed"
  have fs: "fw_sessions w' = fst ?c" and i: "fw_id w' = fw_id w"
    using c unfolding correct_server_return_io_def on_sessions_def
    by (auto simp: bump_def split: result.splits intercept_io_update.splits)
  have "owner_worker_id (fst ?c) = owner_worker_id (fw_sessions w)"
    using owner_step [OF step_correct] by blast
  then show "worker_inv ports w'"
    using table_inv_correct_io [of ports "fw_sessions w"] inv i fs by (simp add: worker_inv_def)
  show "fw_id w' = fw_id w" by (rule i)
  show "nat_tbl (fw_sessions w') = nat_tbl (fw_sessions w)"
    unfolding fs by (simp add: correct_intercept_io_def ensure_owner_def split: option.split)
  assume s: "hm_get (sessions (fw_sessions w)) j = Some s"
  then show "\<exists>s'. hm_get (sessions (fw_sessions w')) j = Some s' \<and> same_identity s s' \<and>
      sess_quic_flow s' = sess_quic_flow s"
    unfolding fs
    by (auto simp: correct_intercept_io_def ensure_owner_def hm_get_insert same_identity_def split: option.split)
qed

lemma touch_tcp_session:
  assumes "hm_get (sessions st) i = Some s"
  shows "snd (touch_tcp st (owner_worker_id st) i flags is_rev now) = Ok ()"
    and "\<exists>s'. hm_get (sessions (fst (touch_tcp st (owner_worker_id st) i flags is_rev now))) i = Some s' \<and>
      sess_original s' = sess_original s \<and> sess_nat s' = sess_nat s \<and>
      sess_quic_flow s' = sess_quic_flow s \<and> intercept_io s' = intercept_io s"
    and "nat_tbl (fst (touch_tcp st (owner_worker_id st) i flags is_rev now)) = nat_tbl st"
  using touch_tcp_owner [OF assms, of flags is_rev now] by (auto simp: hm_get_insert)

definition restored_out :: "flow_worker \<Rightarrow> bytes \<Rightarrow> session_locator \<Rightarrow> handled_reverse \<Rightarrow> bool" where
  "restored_out w packet loc h \<longleftrightarrow>
    (\<exists>ret s. ok (parse_flow_key packet) = Some ret \<and> hr_session h = locator_session loc \<and>
       flow_worker_id loc = fw_id w \<and> session_get (fw_sessions w) (hr_session h) = Some s \<and>
       answers ret (nb_translated (sess_nat s)) \<and> hr_quic_flow h = sess_quic_flow s \<and>
       parse_flow_key (hr_packet h) = Ok (restored_flow s ret) \<and> validate_packet_checksums (hr_packet h) = Ok ())"

lemma finish_reverse_run:
  assumes inv: "worker_inv ports w" and s: "hm_get (sessions (fw_sessions w)) i = Some s"
    and ans: "answers ret (nb_translated (sess_nat s))" and p: "parse_flow_key p = Ok ret"
  obtains w' h where "finish_reverse w i flags p ret now = (w', Ok (Some h))" and "worker_inv ports w'"
    and "fw_id w' = fw_id w" and "hr_session h = i" and "hr_quic_flow h = sess_quic_flow s"
    and "parse_flow_key (hr_packet h) = Ok (restored_flow s ret)"
    and "validate_packet_checksums (hr_packet h) = Ok ()"
proof -
  let ?st = "fw_sessions w" and ?w = "w\<lparr> fw_sessions := fst (touch_tcp (fw_sessions w) (fw_id w) i flags True now) \<rparr>"
  have o': "owner_worker_id ?st = fw_id w" and core: "table_core ports ?st" and ti: "table_inv ports ?st"
    using inv by (simp_all add: worker_inv_def table_inv_def)
  obtain s' where s': "hm_get (sessions (fw_sessions ?w)) i = Some s'" "sess_original s' = sess_original s"
    "sess_quic_flow s' = sess_quic_flow s"
    using touch_tcp_session(2) [OF s, of flags True now] o' by auto
  have rf: "restored_flow s' ret = restored_flow s ret" using s'(2) by (simp add: restored_flow_def)
  note tr = answers_restored [OF core s ans parse_flow_key_echo [OF p]]
  obtain q where q: "rewrite_packet p (restored_flow s ret) = Ok q" "rewritten p (restored_flow s ret) q"
    using rewrite_packet_run [OF p tr(1)] by blast
  have t: "snd (touch_tcp ?st (fw_id w) i flags True now) = Ok ()"
    using touch_tcp_session(1) [OF s] o' by metis
  have "finish_reverse w i flags p ret now =
      (?w, Ok (Some \<lparr> hr_session = i, hr_quic_flow = sess_quic_flow s', hr_target = intercept_io s', hr_packet = q \<rparr>))"
    using t s'(1) q(1) rf by (simp add: finish_reverse_def on_sessions_def session_get_def)
  moreover have "owner_worker_id (fst (touch_tcp ?st (fw_id w) i flags True now)) = owner_worker_id ?st"
    by simp
  then have "worker_inv ports ?w" using table_inv_touch_tcp [OF ti] o' by (simp add: worker_inv_def)
  ultimately show ?thesis using that s'(3) q(2) tr(2) by (simp add: rewritten_def)
qed

lemma handle_reverse_inner_out:
  assumes inv: "worker_inv ports w" and h: "handle_reverse_for_inner w packet loc observed now = (w', r)"
  shows "r \<noteq> Panic \<and> worker_inv ports w' \<and> fw_id w' = fw_id w \<and>
    (\<forall>h. r = Ok (Some h) \<longrightarrow> restored_out w packet loc h)"
proof (cases "prepare_forwarded_packet packet")
  case (Ok p1)
  show ?thesis
  proof (cases "parse_flow_key p1")
    case ret: (Ok ret)
    have core: "table_core ports (fw_sessions w)" using inv by (simp add: worker_inv_def table_inv_def)
    show ?thesis
    proof (cases "lookup_reverse_locator (fw_sessions w) ret = Some loc \<and> flow_worker_id loc = fw_id w")
      case True
      then have l: "lookup_reverse_locator (fw_sessions w) ret = Some loc" "flow_worker_id loc = fw_id w" by auto
      obtain s where s: "hm_get (sessions (fw_sessions w)) (locator_session loc) = Some s"
        "answers ret (nb_translated (sess_nat s))" using lookup_locator_session [OF core l(1)] by blast
      show ?thesis
      proof (cases "\<exists>p2 m flags. clamp_tcp_mss p1 TCP_MAX_SAFE_MSS = Ok (p2, m) \<and> parse_tcp_flags p2 = Ok flags")
        case True
        then obtain p2 m flags where c: "clamp_tcp_mss p1 TCP_MAX_SAFE_MSS = Ok (p2, m)"
          and fl: "parse_tcp_flags p2 = Ok flags" by blast
        have p2: "parse_flow_key p2 = Ok ret" by (rule clamp_tcp_mss_flow(2) [OF ret c])
        define wa where "wa = (case observed of None \<Rightarrow> (w, True)
          | Some owner \<Rightarrow> correct_server_return_io w (locator_session loc) owner)"
        obtain w1 acc where wa': "wa = (w1, acc)" by (cases wa)
        have run: "handle_reverse_for_inner w packet loc observed now =
            (if \<not> acc then (w1, Ok None) else finish_reverse w1 (locator_session loc) flags p2 ret now)"
          unfolding handle_reverse_for_inner_def using Ok ret l c fl wa' unfolding wa_def by (simp add: Let_def)
        have w1: "worker_inv ports w1" "fw_id w1 = fw_id w"
          "\<exists>s1. hm_get (sessions (fw_sessions w1)) (locator_session loc) = Some s1 \<and> same_identity s s1 \<and>
             sess_quic_flow s1 = sess_quic_flow s"
          using wa' inv s(1) correct_server_return_io_inv [OF inv, of "locator_session loc" _ w1 acc]
          unfolding wa_def by (auto split: option.splits)
        then obtain s1 where s1: "hm_get (sessions (fw_sessions w1)) (locator_session loc) = Some s1"
          "same_identity s s1" "sess_quic_flow s1 = sess_quic_flow s" by blast
        have same: "sess_nat s1 = sess_nat s" "restored_flow s1 ret = restored_flow s ret"
          using s1(2) by (simp_all add: same_identity_def restored_flow_def)
        show ?thesis
        proof (cases acc)
          case True
          obtain w2 h2 where f: "finish_reverse w1 (locator_session loc) flags p2 ret now = (w2, Ok (Some h2))"
            and f': "worker_inv ports w2" "fw_id w2 = fw_id w1" "hr_session h2 = locator_session loc"
              "hr_quic_flow h2 = sess_quic_flow s1" "parse_flow_key (hr_packet h2) = Ok (restored_flow s1 ret)"
              "validate_packet_checksums (hr_packet h2) = Ok ()"
            using finish_reverse_run [OF w1(1) s1(1) _ p2, of flags now] s(2) same(1) by metis
          have "ok (parse_flow_key packet) = Some ret" using prepare_keeps_flow [OF Ok] ret by simp
          then have "restored_out w packet loc h2"
            using f' s s1(3) same l(2) unfolding restored_out_def session_get_def by auto
          then show ?thesis using h run True f f'(1,2) w1(2) by auto
        next
          case False
          then show ?thesis using h run w1(1,2) by auto
        qed
      next
        case False
        have "clamp_tcp_mss p1 TCP_MAX_SAFE_MSS \<noteq> Panic" by (rule clamp_tcp_mss_no_panic [OF ret])
        then have "(\<exists>e. r = Err e) \<and> w' = w"
          using h False Ok ret l parse_tcp_flags_no_panic unfolding handle_reverse_for_inner_def
          by (cases "clamp_tcp_mss p1 TCP_MAX_SAFE_MSS"; cases "parse_tcp_flags (fst (case clamp_tcp_mss p1 TCP_MAX_SAFE_MSS of Ok x \<Rightarrow> x))")
            auto
        then show ?thesis using inv by auto
      qed
    next
      case False
      then have "r = Ok None \<and> w' = w"
        using h Ok ret unfolding handle_reverse_for_inner_def by (auto split: option.splits if_splits)
      then show ?thesis using inv by simp
    qed
  qed (use h inv Ok parse_flow_key_no_panic [of p1] in \<open>auto simp: handle_reverse_for_inner_def\<close>)
qed (use h inv prepare_no_panic [of packet] in \<open>auto simp: handle_reverse_for_inner_def\<close>)

end
