(* ===== verification/Dns_Packet.thy ===== *)
theory Dns_Packet
  imports Flow_Worker
begin

text \<open>
  DNS payloads inside UDP packets: growing a packet to a minimum payload
  (\<open>ensure_udp_payload_len\<close> of \<open>flow_plane/packet.rs\<close>), limiting the EDNS size in place and
  turning a query into a SERVFAIL response (\<open>flow_plane/worker.rs\<close>).
\<close>

section \<open>Model\<close>

definition edns_clamp_packet :: "bytes \<Rightarrow> (bytes \<times> bool option, packet_error) result" where
  "edns_clamp_packet packet =
    and_then (parse_flow_key packet) (\<lambda>flow.
    and_then (udp_payload_range packet) (\<lambda>(a, b).
    and_then (slice_at packet a b) (\<lambda>payload.
      let (payload', r) = clamp_edns_udp_payload payload in
      if r = Panic then Panic
      else if ok r = Some True then
        and_then (put packet a payload') (\<lambda>buffer.
        and_then (rewrite_packet buffer flow) (\<lambda>buffer. Ok (buffer, Some True)))
      else Ok (packet, ok r))))"

text \<open>The header of a SERVFAIL response, and the payload without its records.\<close>

definition servfail_flags :: "u16 \<Rightarrow> u16" where
  "servfail_flags flags = ((flags OR 0x8000) AND NOT 0x000f) OR 0x0002"

definition servfail_payload :: "bytes \<Rightarrow> (bytes, packet_error) result" where
  "servfail_payload payload =
    and_then (rd16 payload 2) (\<lambda>flags.
    and_then (put payload 2 (to_be_bytes 2 (servfail_flags flags))) (\<lambda>p.
      put p 6 (replicate 6 0)))"

definition dns_servfail_transmit_to_listen ::
  "io_owner_key \<Rightarrow> bytes \<Rightarrow> flow_key \<Rightarrow> socket_addr \<Rightarrow> (io_transmit, packet_error) result" where
  "dns_servfail_transmit_to_listen tgt packet flow vip =
    and_then (ensure_udp_payload_len packet 12) (\<lambda>packet.
    and_then (udp_payload_range packet) (\<lambda>(a, b).
    and_then (slice_at packet a b) (\<lambda>payload.
    and_then (servfail_payload payload) (\<lambda>payload.
    and_then (put packet a payload) (\<lambda>packet.
    and_then (rewrite_packet packet
        \<lparr> source = sock_ip vip, destination = source flow, source_port = sock_port vip,
          destination_port = source_port flow, protocol = Udp \<rparr>) (\<lambda>packet.
      Ok \<lparr> target = tgt, tx_packet = packet, outer = None \<rparr>))))))"

section \<open>Growing the payload\<close>

lemma udp_payload_Ok:
  "udp_payload p = Ok s \<longleftrightarrow> (\<exists>a b. udp_payload_range p = Ok (a, b) \<and> s = take (b - a) (drop a p))"
proof -
  have "slice_at p a b = (Ok s :: (bytes, packet_error) result) \<longleftrightarrow> s = take (b - a) (drop a p)"
    if "udp_payload_range p = Ok (a, b)" for a b
    using that by (elim udp_payload_range_OkE) (auto simp: slice_at_eq_Ok)
  then show ?thesis by (auto simp: udp_payload_def and_then_eq_Ok)
qed

lemma length_resize [simp]: "length (resize p n) = n"
  by (simp add: resize_def)

lemma nth_resize: "k < n \<Longrightarrow> k < length p \<Longrightarrow> resize p n ! k = p ! k"
  by (simp add: resize_def nth_append)

lemma try_u16_Ok: "try_u16 n = Ok w \<longleftrightarrow> n \<le> 65535 \<and> w = word_of_nat n"
  by (auto simp: try_u16_def guard_err_eq_Ok)

lemma unat_word_of_len_u16: "n \<le> 65535 \<Longrightarrow> unat (word_of_nat n :: u16) = n"
  by (simp add: unsigned_of_nat take_bit_nat_eq_self_iff)

text \<open>A packet with the headers of another, but longer, and with its lengths adjusted.\<close>

lemma grown_metadata:
  assumes m: "transport_metadata p = Ok (proto, o', t)" and len: "length q = t'" "t \<le> t'"
    and h: "\<And>k. k < o' \<Longrightarrow> k \<noteq> 2 \<Longrightarrow> k \<noteq> 3 \<Longrightarrow> k \<noteq> 4 \<Longrightarrow> k \<noteq> 5 \<Longrightarrow> q ! k = p ! k"
    and four: "drop_bit 4 (p ! 0) = 4 \<Longrightarrow> unat (be16 (q ! 2) (q ! 3)) = t'"
    and six: "drop_bit 4 (p ! 0) = 6 \<Longrightarrow> 40 + unat (be16 (q ! 4) (q ! 5)) = t'"
  shows "transport_metadata q = Ok (proto, o', t')"
proof -
  note mp = transport_metadata_Ok [OF m]
  have 0: "q ! 0 = p ! 0" "q ! 6 = p ! 6" "q ! 9 = p ! 9" using h mp(1) by auto
  have ne: "q \<noteq> []" using mp(1,2) len by auto
  have v: "ip_version q = Ok (drop_bit 4 (p ! 0))" using ne 0 by (simp add: ip_version_Ok)
  from mp(5) show ?thesis
  proof
    assume v4: "drop_bit 4 (p ! 0) = 4"
    have p4: "o' = unat (p ! 0 AND 0x0f) * 4" "20 \<le> o'" "proto = p ! 9"
      using mp(6) [OF v4] by (auto simp: ipv4_lengths_Ok)
    have "ipv4_lengths q = Ok (o', t')"
      using p4 four [OF v4] mp(1,2) len 0 by (simp add: ipv4_lengths_Ok)
    then show ?thesis using v v4 p4 mp(1,2) len 0 by (simp add: transport_metadata_def rd8_in)
  next
    assume v6: "drop_bit 4 (p ! 0) = 6"
    have p6: "ipv6_transport_offset 8 p t (p ! 6) 40 = Ok (proto, o')" "40 \<le> o'"
      using mp(7) [OF v6] by auto
    have "ipv6_length q = Ok t'" using six [OF v6] mp(2) p6(2) len by (simp add: ipv6_length_Ok)
    moreover have "ipv6_transport_offset 8 q t' (p ! 6) 40 = Ok (proto, o')"
      by (rule ipv6_transport_offset_agree [OF p6(1) len(2)]) (use len h in simp_all)
    ultimately show ?thesis using v v6 mp(2) p6(2) len 0 by (simp add: transport_metadata_def rd8_in)
  qed
qed

lemma validate_udp_layout_in:
  assumes "o' + 8 \<le> t" "t \<le> length q" "unat (be16 (q ! (o' + 4)) (q ! (o' + 5))) = t - o'"
  shows "validate_udp_layout q o' t = Ok (t - o')"
  using assms by (simp add: validate_udp_layout_def slice_get_def rd16_in Let_def guard_err_def)

text \<open>The grown packet: new length fields, and the same bytes elsewhere.\<close>

definition grown :: "bytes \<Rightarrow> nat \<Rightarrow> nat \<Rightarrow> nat \<Rightarrow> bytes \<Rightarrow> bool" where
  "grown p o' t t' q \<longleftrightarrow> length q = t' \<and> t < t' \<and> unat (be16 (q ! (o' + 4)) (q ! (o' + 5))) = t' - o' \<and>
    (\<forall>k<t. k \<noteq> o' + 4 \<and> k \<noteq> o' + 5 \<and> (drop_bit 4 (p ! 0) = 4 \<longrightarrow> k \<noteq> 2 \<and> k \<noteq> 3) \<and>
       (drop_bit 4 (p ! 0) = 6 \<longrightarrow> k \<noteq> 4 \<and> k \<noteq> 5) \<longrightarrow> q ! k = p ! k) \<and>
    (drop_bit 4 (p ! 0) = 4 \<longrightarrow> unat (be16 (q ! 2) (q ! 3)) = t') \<and>
    (drop_bit 4 (p ! 0) = 6 \<longrightarrow> 40 + unat (be16 (q ! 4) (q ! 5)) = t')"

lemma be16_put:
  "i + 2 \<le> length p \<Longrightarrow> n \<le> 65535 \<Longrightarrow>
    unat (be16 (splice p i (to_be_bytes 2 (word_of_nat n :: u16)) ! i)
               (splice p i (to_be_bytes 2 (word_of_nat n :: u16)) ! (i + 1))) = n"
  using be16_to_be_bytes [of "word_of_nat n"] by (simp add: nth_splice unat_word_of_len_u16)

lemma grownI:
  assumes b: "20 \<le> o'" "o' + 8 \<le> t" "t \<le> length p" "t < t'" "t' - o' \<le> 65535"
    and i: "drop_bit 4 (p ! 0) = 4 \<and> i = 2 \<and> n = t' \<or> drop_bit 4 (p ! 0) = 6 \<and> i = 4 \<and> n = t' - 40 \<and> 40 \<le> t'"
    and n: "n \<le> 65535"
  shows "grown p o' t t' (splice (splice (resize p t') (o' + 4) (to_be_bytes 2 (word_of_nat (t' - o') :: u16)))
    i (to_be_bytes 2 (word_of_nat n :: u16)))"
proof -
  let ?r = "resize p t'"
  let ?q1 = "splice ?r (o' + 4) (to_be_bytes 2 (word_of_nat (t' - o') :: u16))"
  let ?q = "splice ?q1 i (to_be_bytes 2 (word_of_nat n :: u16))"
  have i4: "i = 2 \<or> i = 4" using i by auto
  have l1: "length ?q1 = t'" using b by (simp add: length_splice)
  have l: "length ?q = t'" using b i4 l1 by (auto simp: length_splice)
  have nq: "?q ! k = ?q1 ! k" if "k \<noteq> i" "k \<noteq> i + 1" for k
    using that b i4 l1 by (subst nth_splice) auto
  have n1: "?q1 ! k = ?r ! k" if "k \<noteq> o' + 4" "k \<noteq> o' + 5" for k
    using that b by (subst nth_splice) auto
  have five: "o' + 4 + 1 = o' + 5" by simp
  have "?q ! (o' + 4) = ?q1 ! (o' + 4)" "?q ! (o' + 5) = ?q1 ! (o' + 5)"
    by (rule nq; use b i4 in auto)+
  moreover have "unat (be16 (?q1 ! (o' + 4)) (?q1 ! (o' + 5))) = t' - o'"
    by (rule be16_put [of "o' + 4" ?r "t' - o'", unfolded five]) (use b in simp_all)
  ultimately have "unat (be16 (?q ! (o' + 4)) (?q ! (o' + 5))) = t' - o'" by (simp only:)
  moreover have "?q ! k = p ! k" if "k < t" "k \<noteq> o' + 4" "k \<noteq> o' + 5" "k \<noteq> i" "k \<noteq> i + 1" for k
    using nq [of k] n1 [of k] nth_resize [of k t' p] that b by simp
  moreover have "unat (be16 (?q ! i) (?q ! (i + 1))) = n"
    using be16_put [of i ?q1 n] b l1 i4 n by auto
  ultimately show ?thesis using i l b unfolding grown_def by auto
qed

lemma ensure_more:
  assumes m: "transport_metadata p = Ok (IP_PROTOCOL_UDP, o', o' + 8 + n)"
    and v: "validate_udp_layout p o' (o' + 8 + n) = Ok (8 + n)" and d: "0 < d"
  shows "ensure_udp_payload_len p (n + d) = and_then (try_u16 (8 + n + d)) (\<lambda>w.
    let q = splice (resize p (o' + 8 + n + d)) (o' + 4) (to_be_bytes 2 w) in
    if drop_bit 4 (p ! 0) = 4 then and_then (try_u16 (o' + 8 + n + d)) (\<lambda>w. put q 2 (to_be_bytes 2 w))
    else and_then (try_u16 (o' + 8 + n + d - 40)) (\<lambda>w. put q 4 (to_be_bytes 2 w)))"
proof -
  note mp = transport_metadata_Ok [OF m]
  let ?q = "\<lambda>w. splice (resize p (o' + 8 + n + d)) (o' + 4) (to_be_bytes 2 (w :: u16))"
  have l: "length (?q w) = o' + 8 + n + d" for w by (simp add: length_splice)
  have z: "(rd8 (?q w) 0 :: (u8, packet_error) result) = Ok (p ! 0)" for w
    using l [of w] mp(4) by (simp add: rd8_eq_Ok nth_splice nth_resize del: length_splice)
  have put: "put (resize p (o' + 8 + n + d)) (o' + 4) (to_be_bytes 2 w) = (Ok (?q w) :: (bytes, packet_error) result)" for w :: u16
    by (simp add: put_in)
  have t40: "40 \<le> o' + 8 + n" if "drop_bit 4 (p ! 0) = 6" using mp(2,7) that by auto
  have "ensure_udp_payload_len p (n + d) = and_then (try_u16 (8 + n + d)) (\<lambda>w.
      and_then (put (resize p (o' + 8 + n + d)) (o' + 4) (to_be_bytes 2 w)) (\<lambda>q.
      and_then (rd8 q 0) (\<lambda>b0.
        if drop_bit 4 b0 = 4 then and_then (try_u16 (o' + 8 + n + d)) (\<lambda>w. put q 2 (to_be_bytes 2 w))
        else if drop_bit 4 b0 = 6 then guard_err (o' + 8 + n < 40) InvalidIpLength
          (and_then (try_u16 (o' + 8 + n - 40 + d)) (\<lambda>w. put q 4 (to_be_bytes 2 w)))
        else Err (UnsupportedIpVersion (drop_bit 4 b0)))))"
    using d unfolding ensure_udp_payload_len_def m v by (simp add: v csub_in Let_def)
  also have "\<dots> = and_then (try_u16 (8 + n + d)) (\<lambda>w.
      if drop_bit 4 (p ! 0) = 4 then and_then (try_u16 (o' + 8 + n + d)) (\<lambda>v. put (?q w) 2 (to_be_bytes 2 v))
      else and_then (try_u16 (o' + 8 + n + d - 40)) (\<lambda>v. put (?q w) 4 (to_be_bytes 2 v)))"
    unfolding put and_then.simps z using mp(5) t40 by (auto simp: guard_err_def add.assoc)
  finally show ?thesis by (simp add: Let_def)
qed

lemma ensure_cases:
  assumes m: "transport_metadata p = Ok (IP_PROTOCOL_UDP, o', t)" and v: "validate_udp_layout p o' t = Ok (t - o')"
  obtains (enough) "n \<le> t - o' - 8" and "ensure_udp_payload_len p n = Ok p"
  | (failed) e where "ensure_udp_payload_len p n = Err e"
  | (more) q where "t - o' - 8 < n" and "ensure_udp_payload_len p n = Ok q" and "grown p o' t (o' + 8 + n) q"
proof (cases "n \<le> t - o' - 8")
  case True
  have "8 \<le> t - o'" using validate_udp_layout_Ok(1) [OF v] .
  then show ?thesis using enough True m v by (simp add: ensure_udp_payload_len_def csub_in)
next
  case False
  note mp = transport_metadata_Ok [OF m] and vl = validate_udp_layout_Ok [OF v]
  define c d where "c = t - o' - 8" and "d = n - c"
  have t: "t = o' + 8 + c" and n: "n = c + d" "0 < d" using False vl(1,2) by (auto simp: c_def d_def)
  let ?t = "o' + 8 + n"
  let ?q1 = "splice (resize p ?t) (o' + 4) (to_be_bytes 2 (word_of_nat (?t - o') :: u16))"
  have l1: "length ?q1 = ?t" by (simp add: length_splice)
  have eq: "ensure_udp_payload_len p n = and_then (try_u16 (8 + n)) (\<lambda>w.
    let q = splice (resize p ?t) (o' + 4) (to_be_bytes 2 w) in
    if drop_bit 4 (p ! 0) = 4 then and_then (try_u16 ?t) (\<lambda>w. put q 2 (to_be_bytes 2 w))
    else and_then (try_u16 (?t - 40)) (\<lambda>w. put q 4 (to_be_bytes 2 w)))"
  proof -
    have e: "8 + c + d = 8 + n" "o' + 8 + c + d = ?t" "c + d = n" using n by simp_all
    have v': "validate_udp_layout p o' (o' + 8 + c) = Ok (8 + c)" using v by (simp add: t)
    show ?thesis by (rule ensure_more [OF m [unfolded t] v' n(2), unfolded e])
  qed
  define i where "i = (if drop_bit 4 (p ! 0) = 4 then 2 else 4 :: nat)"
  define w where "w = (if drop_bit 4 (p ! 0) = 4 then ?t else ?t - 40)"
  have t40: "40 \<le> t" if "drop_bit 4 (p ! 0) = 6" using mp(2,7) that by auto
  show ?thesis
  proof (cases "8 + n \<le> 65535 \<and> w \<le> 65535")
    case True
    then have "ensure_udp_payload_len p n = Ok (splice ?q1 i (to_be_bytes 2 (word_of_nat w :: u16)))"
      unfolding eq using l1 mp(1) by (auto simp: try_u16_def put_in i_def w_def guard_err_def split: if_splits)
    moreover have "grown p o' t ?t (splice ?q1 i (to_be_bytes 2 (word_of_nat w :: u16)))"
      by (rule grownI) (use mp(1-3,5) t n t40 True in \<open>auto simp: i_def w_def\<close>)
    ultimately show ?thesis using more False by simp
  next
    case over: False
    have "\<exists>e. ensure_udp_payload_len p n = Err e"
      unfolding eq using over by (auto simp: try_u16_def guard_err_def w_def Let_def split: if_splits)
    then show ?thesis using failed by blast
  qed
qed

lemma udp_payload_range_in:
  assumes "transport_metadata q = Ok (IP_PROTOCOL_UDP, o', t)" and "validate_udp_layout q o' t = Ok (t - o')"
  shows "udp_payload_range q = Ok (o' + 8, t)"
  using assms validate_udp_layout_Ok(2) [OF assms(2)] by (simp add: udp_payload_range_def)

lemma grown_reads:
  assumes m: "transport_metadata p = Ok (IP_PROTOCOL_UDP, o', t)" and v: "validate_udp_layout p o' t = Ok (t - o')"
    and g: "grown p o' t t' q"
  shows "transport_metadata q = Ok (IP_PROTOCOL_UDP, o', t')" and "udp_payload_range q = Ok (o' + 8, t')"
    and "parse_flow_key p = Ok f \<Longrightarrow> parse_flow_key q = Ok f"
proof -
  note mp = transport_metadata_Ok [OF m] and vl = validate_udp_layout_Ok [OF v]
  have lt: "length q = t'" "t < t'" and u: "unat (be16 (q ! (o' + 4)) (q ! (o' + 5))) = t' - o'"
    and four: "drop_bit 4 (p ! 0) = 4 \<Longrightarrow> unat (be16 (q ! 2) (q ! 3)) = t'"
    and six: "drop_bit 4 (p ! 0) = 6 \<Longrightarrow> 40 + unat (be16 (q ! 4) (q ! 5)) = t'"
    and keep: "\<And>k. k < t \<Longrightarrow> k \<noteq> o' + 4 \<Longrightarrow> k \<noteq> o' + 5 \<Longrightarrow> (drop_bit 4 (p ! 0) = 4 \<Longrightarrow> k \<noteq> 2 \<and> k \<noteq> 3) \<Longrightarrow>
      (drop_bit 4 (p ! 0) = 6 \<Longrightarrow> k \<noteq> 4 \<and> k \<noteq> 5) \<Longrightarrow> q ! k = p ! k"
    using g unfolding grown_def by auto
  show mq: "transport_metadata q = Ok (IP_PROTOCOL_UDP, o', t')"
    by (rule grown_metadata [OF m lt(1) _ _ four six]) (use lt mp(2) in \<open>auto intro!: keep\<close>)
  have "validate_udp_layout q o' t' = Ok (t' - o')"
    by (rule validate_udp_layout_in) (use u lt vl(1,2) in simp_all)
  then show "udp_payload_range q = Ok (o' + 8, t')" by (rule udp_payload_range_in [OF mq])
  assume f: "parse_flow_key p = Ok f"
  let ?s = "take (t - o') (drop o' p)" and ?u = "take (t' - o') (drop o' q)"
  have ports: "transport_ports IP_PROTOCOL_UDP ?u = Ok (source_port f, destination_port f, protocol f)"
    if tp: "transport_ports IP_PROTOCOL_UDP ?s = Ok (source_port f, destination_port f, protocol f)"
  proof -
    have pf: "protocol f = Udp" using tp unfolding transport_ports_Ok by (cases "protocol f") auto
    have "?u ! i = ?s ! i" if "i < 4" for i
      using that vl(1,2) lt mp(1,3) by (auto intro!: keep)
    moreover have "length ?u = t' - o'" "?u ! 4 = q ! (o' + 4)" "?u ! 5 = q ! (o' + 5)" "8 \<le> t' - o'"
      using lt vl(1,2) by auto
    ultimately show ?thesis
      using tp u unfolding transport_ports_Ok pf
      by (simp add: sport_at_def dport_at_def del: nth_take nth_drop length_take length_drop)
  qed
  have z: "q ! 0 = p ! 0" using mp(1,2) by (intro keep) auto
  show "parse_flow_key q = Ok f"
  proof (cases "drop_bit 4 (p ! 0) = 4")
    case True
    then have vq: "drop_bit 4 (q ! 0) = 4" using z by simp
    have seg: "take 4 (drop 12 q) = take 4 (drop 12 p)" "take 4 (drop 16 q) = take 4 (drop 16 p)"
      "q ! 6 = p ! 6" "q ! 7 = p ! 7"
      using mp(1,2,3) lt True vl(1,2) by (auto intro!: nth_equalityI keep)
    show ?thesis using f ports
      unfolding parse_flow_key_ipv4 [OF m True] parse_flow_key_ipv4 [OF mq vq] seg by blast
  next
    case False
    then have v6: "drop_bit 4 (p ! 0) = 6" using mp(5) by blast
    then have vq: "drop_bit 4 (q ! 0) = 6" and a: "40 \<le> o'" using z mp(7) by auto
    have seg: "take 16 (drop 8 q) = take 16 (drop 8 p)" "take 16 (drop 24 q) = take 16 (drop 24 p)"
      using mp(2,3) a lt v6 vl(1,2) by (auto intro!: nth_equalityI keep)
    show ?thesis using f ports
      unfolding parse_flow_key_ipv6 [OF m v6] parse_flow_key_ipv6 [OF mq vq] seg by blast
  qed
qed

section \<open>UDP packets with a flow\<close>

lemma parse_udp_meta:
  assumes f: "parse_flow_key p = Ok f" and udp: "protocol f = Udp"
  obtains o' t where "transport_metadata p = Ok (IP_PROTOCOL_UDP, o', t)"
    and "validate_udp_layout p o' t = Ok (t - o')" and "udp_payload_range p = Ok (o' + 8, t)"
    and "o' + 8 \<le> t" and "t \<le> length p"
proof -
  obtain proto o' t where m: "transport_metadata p = Ok (proto, o', t)" by (rule parse_flow_key_meta [OF f])
  note mp = transport_metadata_Ok [OF m]
  have "transport_ports proto (take (t - o') (drop o' p)) = Ok (source_port f, destination_port f, protocol f)"
    using parse_flow_key_version [OF f] f parse_flow_key_ipv4 [OF m] parse_flow_key_ipv6 [OF m] by blast
  then have pr: "proto = IP_PROTOCOL_UDP" and h: "header_ok Udp (take (t - o') (drop o' p))"
    unfolding transport_ports_Ok udp by auto
  have v: "validate_udp_layout p o' t = Ok (t - o')"
    using h mp(2,3) by (intro validate_udp_layout_in) auto
  have m': "transport_metadata p = Ok (IP_PROTOCOL_UDP, o', t)" using m pr by simp
  have "o' + 8 \<le> t" using validate_udp_layout_Ok(1,2) [OF v] by simp
  then show ?thesis using that [OF m' v udp_payload_range_in [OF m' v]] mp(3) by blast
qed

lemma parse_families:
  assumes "parse_flow_key p = Ok f"
  shows "same_family (source f) (destination f)"
proof -
  obtain proto a b where m: "transport_metadata p = Ok (proto, a, b)" by (rule parse_flow_key_meta [OF assms])
  have "(\<exists>x y. source f = V4 x \<and> destination f = V4 y) \<or> (\<exists>x y. source f = V6 x \<and> destination f = V6 y)"
    using parse_flow_key_version [OF assms] assms parse_flow_key_ipv4 [OF m] parse_flow_key_ipv6 [OF m] by blast
  then show ?thesis by (auto simp: same_family_def)
qed

lemma ensure_udp:
  assumes f: "parse_flow_key p = Ok f" and udp: "protocol f = Udp"
  obtains (failed) e where "ensure_udp_payload_len p n = Err e"
  | (ready) q a b where "ensure_udp_payload_len p n = Ok q" and "udp_payload_range q = Ok (a, b)"
      and "n \<le> b - a" and "parse_flow_key q = Ok f" and "\<And>s. udp_payload p = Ok s \<Longrightarrow> n \<le> length s \<Longrightarrow> q = p"
proof -
  obtain o' t where m: "transport_metadata p = Ok (IP_PROTOCOL_UDP, o', t)"
    and v: "validate_udp_layout p o' t = Ok (t - o')" and r: "udp_payload_range p = Ok (o' + 8, t)"
    and t: "t \<le> length p"
    by (rule parse_udp_meta [OF f udp]) (rule that)
  have len: "length s = t - o' - 8" if "udp_payload p = Ok s" for s
    using that r t by (auto simp: udp_payload_Ok)
  from m v show ?thesis
  proof (cases rule: ensure_cases [where n = n])
    case enough
    then show ?thesis using ready [OF enough(2) r] f by auto
  next
    case (more q)
    note g = grown_reads [OF m v more(3)]
    show ?thesis using ready [OF more(2) g(2)] g(3) [OF f] more(1) len by fastforce
  qed (use failed in blast)
qed

lemma ensure_no_panic [no_panic]: "ensure_udp_payload_len p n \<noteq> Panic"
proof (cases "\<exists>o' t. transport_metadata p = Ok (IP_PROTOCOL_UDP, o', t) \<and> is_ok (validate_udp_layout p o' t)")
  case True
  then obtain o' t l where m: "transport_metadata p = Ok (IP_PROTOCOL_UDP, o', t)"
    and l: "validate_udp_layout p o' t = Ok l" by (auto simp: is_ok_iff)
  have "validate_udp_layout p o' t = Ok (t - o')" using validate_udp_layout_Ok(2) [OF l] l by auto
  with m show ?thesis by (cases rule: ensure_cases [where n = n]) auto
next
  case False
  then show ?thesis
    unfolding ensure_udp_payload_len_def
    by (auto simp: and_then_eq_Panic guard_err_eq_Panic transport_metadata_no_panic
        validate_udp_layout_no_panic is_ok_iff)
qed

text \<open>Replacing the payload of a UDP packet keeps its flow.\<close>

lemma put_payload_flow:
  assumes f: "parse_flow_key p = Ok f" and udp: "protocol f = Udp" and r: "udp_payload_range p = Ok (a, b)"
    and s: "length s = b - a"
  shows "put p a s = (Ok (splice p a s) :: (bytes, packet_error) result)"
    and "parse_flow_key (splice p a s) = Ok f" and "udp_payload (splice p a s) = Ok s"
proof -
  obtain o' t where m: "transport_metadata p = Ok (IP_PROTOCOL_UDP, o', t)"
    and v: "validate_udp_layout p o' t = Ok (t - o')" and r': "udp_payload_range p = Ok (o' + 8, t)"
    and t: "o' + 8 \<le> t" "t \<le> length p" by (rule parse_udp_meta [OF f udp]) (rule that)
  have ab: "a = o' + 8" "b = t" using r r' by auto
  have fit: "a + length s \<le> length p" using ab t s by simp
  then show "put p a s = (Ok (splice p a s) :: (bytes, packet_error) result)" by (simp add: put_in)
  have l: "length (splice p a s) = length p" using fit by (rule length_splice)
  have k: "splice p a s ! k = p ! k" if "k < o' + 8" for k using that ab fit by (simp add: nth_splice)
  show "parse_flow_key (splice p a s) = Ok f"
    by (rule parse_flow_key_agree [OF f m l]) (use k udp in simp_all)
  have mq: "transport_metadata (splice p a s) = Ok (IP_PROTOCOL_UDP, o', t)"
    by (rule transport_metadata_agree [OF m l]) (use k transport_metadata_Ok(1) [OF m] in simp_all)
  have "validate_udp_layout (splice p a s) o' t = Ok (t - o')"
    using validate_udp_layout_Ok [OF v] t l k by (intro validate_udp_layout_in) simp_all
  then have "udp_payload_range (splice p a s) = Ok (a, b)" using udp_payload_range_in [OF mq] ab by simp
  then show "udp_payload (splice p a s) = Ok s"
    using take_drop_splice_same [of a s p] fit s by (simp add: udp_payload_Ok)
qed

section \<open>SERVFAIL\<close>

lemma servfail_payload_run:
  assumes "12 \<le> length s"
  obtains s' where "servfail_payload s = Ok s'" and "length s' = length s" and "take 2 s' = take 2 s"
    and "drop 12 s' = drop 12 s" and "be16 (s' ! 2) (s' ! 3) = servfail_flags (be16 (s ! 2) (s ! 3))"
    and "s' ! 4 = s ! 4" and "s' ! 5 = s ! 5" and "take 6 (drop 6 s') = replicate 6 0"
proof -
  let ?p = "splice s 2 (to_be_bytes 2 (servfail_flags (be16 (s ! 2) (s ! 3))))"
  let ?q = "splice ?p 6 (replicate 6 0)"
  have l: "length ?p = length s" "length ?q = length s" using assms by (simp_all add: length_splice)
  have "servfail_payload s = Ok ?q"
    using assms l by (simp add: servfail_payload_def rd16_in put_in)
  moreover have "take 2 ?q = take 2 s" "drop 12 ?q = drop 12 s"
    using assms l by (auto intro!: nth_equalityI simp: nth_splice)
  moreover have "be16 (?q ! 2) (?q ! 3) = servfail_flags (be16 (s ! 2) (s ! 3))"
    using assms l be16_to_be_bytes [of "servfail_flags (be16 (s ! 2) (s ! 3))"] by (simp add: nth_splice)
  moreover have "?q ! 4 = s ! 4" "?q ! 5 = s ! 5" using assms l by (simp_all add: nth_splice)
  moreover have "take 6 (drop 6 ?q) = replicate 6 0"
    using take_drop_splice_same [of 6 "replicate 6 0" ?p] assms l by simp
  ultimately show ?thesis using that l(2) by blast
qed

definition servfail_flow :: "flow_key \<Rightarrow> socket_addr \<Rightarrow> flow_key" where
  "servfail_flow flow vip = \<lparr> source = sock_ip vip, destination = source flow, source_port = sock_port vip,
     destination_port = source_port flow, protocol = Udp \<rparr>"

lemma servfail_run:
  assumes f: "parse_flow_key p = Ok f" and udp: "protocol f = Udp" and vip: "same_family (destination f) (sock_ip vip)"
    and e: "ensure_udp_payload_len p 12 = Ok q"
  obtains t s s' where "dns_servfail_transmit_to_listen tgt p f vip = Ok t" and "target t = tgt"
    and "parse_flow_key (tx_packet t) = Ok (servfail_flow f vip)" and "validate_packet_checksums (tx_packet t) = Ok ()"
    and "udp_payload q = Ok s" and "servfail_payload s = Ok s'" and "udp_payload (tx_packet t) = Ok s'"
proof -
  obtain a b where r: "udp_payload_range q = Ok (a, b)" and ab: "12 \<le> b - a" and fq: "parse_flow_key q = Ok f"
    using e by (cases rule: ensure_udp [OF f udp, of 12]) auto
  let ?s = "take (b - a) (drop a q)"
  have b: "a \<le> b" "b \<le> length q" using r by (auto elim: udp_payload_range_OkE)
  then have ls: "length ?s = b - a" by simp
  obtain s' where s': "servfail_payload ?s = Ok s'" "length s' = length ?s"
    using servfail_payload_run [of ?s] ab ls by metis
  note pp = put_payload_flow [OF fq udp r, of s']
  have "same_family (source f) (sock_ip vip)" "same_family (destination f) (source f)"
    using parse_families [OF f] vip same_family_sym by (auto simp: same_family_def split: ip_addr.splits)
  then have tr: "translatable f (servfail_flow f vip)" using udp by (simp add: translatable_def servfail_flow_def)
  obtain out where out: "rewrite_packet (splice q a s') (servfail_flow f vip) = Ok out"
    "rewritten (splice q a s') (servfail_flow f vip) out"
    using rewrite_packet_run [OF pp(2) tr] s' ls by auto
  have "dns_servfail_transmit_to_listen tgt p f vip = Ok \<lparr> target = tgt, tx_packet = out, outer = None \<rparr>"
    using e r b s' ls pp(1) out(1)
    by (simp add: dns_servfail_transmit_to_listen_def slice_at_in servfail_flow_def)
  moreover have "udp_payload q = Ok ?s" using r by (auto simp: udp_payload_Ok)
  moreover have "parse_flow_key out = Ok (servfail_flow f vip)" "validate_packet_checksums out = Ok ()"
    "udp_payload out = Ok s'"
    using out(2) pp(3) s' ls by (simp_all add: rewritten_def echo_kind_def servfail_flow_def)
  ultimately show ?thesis using that s'(1) by force
qed

section \<open>The EDNS limit\<close>

lemma translatable_refl [simp]: "translatable f f"
  by (simp add: translatable_def)

lemma edns_clamp_run:
  assumes f: "parse_flow_key p = Ok f" and udp: "protocol f = Udp"
  obtains q c s where "edns_clamp_packet p = Ok (q, c)" and "parse_flow_key q = Ok f"
    and "udp_payload p = Ok s" and "udp_payload q = Ok (if c = Some True then fst (clamp_edns_udp_payload s) else s)"
proof -
  obtain o' t where r: "udp_payload_range p = Ok (o' + 8, t)" and t: "o' + 8 \<le> t" "t \<le> length p"
    by (rule parse_udp_meta [OF f udp]) (rule that)
  let ?s = "take (t - (o' + 8)) (drop (o' + 8) p)"
  have s: "udp_payload p = Ok ?s" using r by (auto simp: udp_payload_Ok)
  obtain s' r' where c: "clamp_edns_udp_payload ?s = (s', r')" by (cases "clamp_edns_udp_payload ?s")
  have np: "r' \<noteq> Panic" using clamp_edns_no_panic [of ?s] c by simp
  have ls: "length s' = t - (o' + 8)" using clamp_edns_length [OF c] t by simp
  show ?thesis
  proof (cases "ok r' = Some True")
    case True
    note pp = put_payload_flow [OF f udp r ls]
    obtain q where q: "rewrite_packet (splice p (o' + 8) s') f = Ok q" "rewritten (splice p (o' + 8) s') f q"
      using rewrite_packet_run [OF pp(2) translatable_refl] by blast
    have "edns_clamp_packet p = Ok (q, Some True)"
      using f r t c True np pp(1) q(1) by (simp add: edns_clamp_packet_def slice_at_in)
    moreover have "parse_flow_key q = Ok f" "udp_payload q = Ok s'"
      using q(2) parse_flow_key_echo [OF f] pp(3) udp by (simp_all add: rewritten_def)
    ultimately show ?thesis using that s c by simp
  next
    case False
    then have "edns_clamp_packet p = Ok (p, ok r')"
      using f r t c np by (simp add: edns_clamp_packet_def slice_at_in)
    then show ?thesis using that f s False by auto
  qed
qed

end
