(* ===== verification/Dns_Flow.thy ===== *)
theory Dns_Flow
  imports Dns_Packet
begin

text \<open>
  The DNS handlers of a flow worker (\<open>flow_plane/worker.rs\<close>): queries to the virtual resolver
  become transactions with a translated source, responses are matched to them, and
  unanswered ones expire or are aborted with SERVFAIL.  A loop that would not end counts as
  \<open>Panic\<close>.
\<close>

section \<open>Model\<close>

record dns_flow_config =
  listen :: socket_addr
  local_resolver :: socket_addr
  remote_resolver :: socket_addr
  remote_domains :: "string list"
  transaction_capacity :: nat
  query_timeout :: duration
  remote_available :: bool

datatype handled_dns_query =
    DnsLocal io_transmit nat_binding session_id
  | DnsRemote bytes nat_binding session_id
  | DnsServfail io_transmit

record handled_dns_response =
  dr_target :: io_owner_key
  dr_packet :: bytes
  dr_binding :: nat_binding
  dr_transaction :: session_id

record expired_dns_transaction =
  ex_transmit :: io_transmit
  ex_binding :: nat_binding
  ex_transaction :: session_id

definition DNS_COMPLETED_REVERSE_CAPACITY :: nat where
  "DNS_COMPLETED_REVERSE_CAPACITY = 65536"

definition dns_servfail_transmit ::
  "io_owner_key \<Rightarrow> bytes \<Rightarrow> flow_key \<Rightarrow> dns_flow_config \<Rightarrow> (io_transmit, packet_error) result" where
  "dns_servfail_transmit tgt packet flow config =
    dns_servfail_transmit_to_listen tgt packet flow (listen config)"

subsection \<open>Bookkeeping\<close>

definition count_servfail :: "flow_worker_stats \<Rightarrow> flow_worker_stats" where
  "count_servfail s = s\<lparr> dns_servfail := dns_servfail s + 1 \<rparr>"

definition set_active :: "flow_worker \<Rightarrow> flow_worker" where
  "set_active w = bump (\<lambda>s. s\<lparr> dns_transactions_active := word_of_nat (hm_len (dns_by_key w)) \<rparr>) w"

definition next_dns_session_token :: "flow_worker \<Rightarrow> flow_worker \<times> session_id" where
  "next_dns_session_token w =
    (w\<lparr> next_dns_token := max (next_dns_token w + 1) 1 \<rparr>, push_bit 63 1 OR next_dns_token w)"

definition forget_completed_dns_reverse :: "flow_worker \<Rightarrow> flow_key \<Rightarrow> flow_worker" where
  "forget_completed_dns_reverse w flow =
    (case hm_get (dns_completed_reverse w) flow of
       None \<Rightarrow> w
     | Some sequence \<Rightarrow>
         w\<lparr> dns_completed_reverse := hm_remove flow (dns_completed_reverse w),
            dns_completed_order := bt_remove sequence (dns_completed_order w) \<rparr>)"

text \<open>The loop that drops the oldest entries; with nothing left to drop it would not end.\<close>

fun trim_completed ::
  "(flow_key, u64) alist \<Rightarrow> (u64 \<times> flow_key) list \<Rightarrow> ((flow_key, u64) alist \<times> (u64 \<times> flow_key) list) option" where
  "trim_completed m [] = (if DNS_COMPLETED_REVERSE_CAPACITY < hm_len m then None else Some (m, []))"
| "trim_completed m ((sequence, expired) # order) =
    (if DNS_COMPLETED_REVERSE_CAPACITY < hm_len m
     then trim_completed (if hm_get m expired = Some sequence then hm_remove expired m else m) order
     else Some (m, (sequence, expired) # order))"

definition remember_completed_dns_reverse :: "flow_worker \<Rightarrow> flow_key \<Rightarrow> flow_worker option" where
  "remember_completed_dns_reverse w flow =
    (let sequence = next_dns_completed_sequence w;
         order = (case hm_get (dns_completed_reverse w) flow of
                    None \<Rightarrow> dns_completed_order w
                  | Some previous \<Rightarrow> bt_remove previous (dns_completed_order w))
     in map_option (\<lambda>(m, order). w\<lparr> next_dns_completed_sequence := max (sequence + 1) 1,
                                   dns_completed_reverse := m, dns_completed_order := order \<rparr>)
          (trim_completed (hm_insert flow sequence (dns_completed_reverse w)) (bt_insert sequence flow order)))"

definition remove_dns_transaction ::
  "flow_worker \<Rightarrow> dns_flow_transaction_key \<Rightarrow> instant \<Rightarrow>
   flow_worker \<times> (dns_flow_transaction option, session_error) result" where
  "remove_dns_transaction w key nat_now =
    (case hm_get (dns_by_key w) key of
       None \<Rightarrow> (w, Ok None)
     | Some tx \<Rightarrow>
         let w1 = w\<lparr> dns_by_key := hm_remove key (dns_by_key w),
                     dns_deadlines := remove_deadline (dns_deadlines w) (dt_expires_at tx) key,
                     dns_by_reverse := hm_remove (reverse (nb_translated (dt_binding tx))) (dns_by_reverse w) \<rparr>
         in st_then (on_sessions w1 (release_ephemeral_nat (fw_sessions w1) (fw_id w1) (dt_token tx) nat_now))
              (\<lambda>w _. (set_active w, Ok (Some tx))))"

definition rewrite_dns_query ::
  "bytes \<Rightarrow> dns_flow_transaction \<Rightarrow> (handled_dns_query, packet_error) result" where
  "rewrite_dns_query packet tx =
    and_then (rewrite_packet packet (nb_translated (dt_binding tx))) (\<lambda>packet.
      Ok (if dt_remote tx then DnsRemote packet (dt_binding tx) (dt_token tx)
          else DnsLocal \<lparr> target = dt_target tx, tx_packet = packet, outer = None \<rparr> (dt_binding tx) (dt_token tx)))"

definition servfail_for_transaction ::
  "dns_flow_transaction \<Rightarrow> dns_flow_config \<Rightarrow> (expired_dns_transaction, packet_error) result" where
  "servfail_for_transaction tx config =
    and_then (parse_flow_key (dt_packet tx)) (\<lambda>flow.
    and_then (dns_servfail_transmit (dt_target tx) (dt_packet tx) flow config) (\<lambda>transmit.
      Ok \<lparr> ex_transmit = transmit, ex_binding = dt_binding tx, ex_transaction = dt_token tx \<rparr>))"

subsection \<open>Queries\<close>

definition refuse_query ::
  "flow_worker \<Rightarrow> io_owner_key \<Rightarrow> bytes \<Rightarrow> flow_key \<Rightarrow> dns_flow_config \<Rightarrow>
   flow_worker \<times> (handled_dns_query, flow_worker_error) result" where
  "refuse_query w io packet flow config =
    st_then (pkt (bump count_servfail w) (dns_servfail_transmit io packet flow config)) (\<lambda>w transmit.
      (w, Ok (DnsServfail transmit)))"

text \<open>Recording a new transaction, once its source is translated.\<close>

definition insert_dns_transaction ::
  "flow_worker \<Rightarrow> dns_flow_transaction_key \<Rightarrow> dns_flow_transaction \<Rightarrow> flow_worker" where
  "insert_dns_transaction w key tx =
    (let reverse_key = reverse (nb_translated (dt_binding tx));
         w = forget_completed_dns_reverse w reverse_key;
         w = w\<lparr> dns_by_reverse := hm_insert reverse_key key (dns_by_reverse w),
                dns_by_key := hm_insert key tx (dns_by_key w),
                dns_deadlines := add_deadline (dns_deadlines w) (dt_expires_at tx) key \<rparr>
     in bump (\<lambda>s. if dt_remote tx then s\<lparr> dns_query_remote := dns_query_remote s + 1 \<rparr>
                  else s\<lparr> dns_query_local := dns_query_local s + 1 \<rparr>) (set_active w))"

definition start_dns_transaction ::
  "flow_worker \<Rightarrow> io_owner_key \<Rightarrow> bytes \<Rightarrow> flow_key \<Rightarrow> dns_flow_config \<Rightarrow> dns_flow_transaction_key \<Rightarrow>
   socket_addr \<Rightarrow> bool \<Rightarrow> instant \<Rightarrow> instant \<Rightarrow> flow_worker \<times> (handled_dns_query, flow_worker_error) result" where
  "start_dns_transaction w io packet flow config key resolver is_remote now nat_now =
    (let (w, token) = next_dns_session_token w;
         selected = \<lparr> source = source flow, destination = sock_ip resolver, source_port = source_port flow,
                      destination_port = sock_port resolver, protocol = Udp \<rparr>;
         (w, r) = on_sessions w (allocate_ephemeral_nat (fw_sessions w) (fw_id w) token selected nat_now)
     in (case r of
           Panic \<Rightarrow> (w, Panic)
         | Err e \<Rightarrow>
             if e = NatFailure PortRangeExhausted
             then refuse_query (bump (\<lambda>s. s\<lparr> dns_nat_exhausted := dns_nat_exhausted s + 1 \<rparr>) w) io packet flow config
             else (w, Err (SessionFailure e))
         | Ok binding \<Rightarrow>
             let tx = \<lparr> dt_token = token,
                        dt_client = \<lparr> sock_ip = source flow, sock_port = source_port flow \<rparr>,
                        dt_vip = listen config, dt_binding = binding, dt_target = io, dt_remote = is_remote,
                        dt_created_at = now, dt_expires_at = now + query_timeout config, dt_packet = packet \<rparr>
             in pkt (insert_dns_transaction w key tx) (rewrite_dns_query packet tx)))"

text \<open>A new query: the resolver its route selects, unless it has to be refused.\<close>

definition count_fallback :: "flow_worker \<Rightarrow> dns_route \<Rightarrow> flow_worker" where
  "count_fallback w route =
    (if route = LocalFallback
     then bump (\<lambda>s. s\<lparr> dns_malformed_local_fallback := dns_malformed_local_fallback s + 1 \<rparr>) w
     else w)"

definition admit_dns_query ::
  "flow_worker \<Rightarrow> io_owner_key \<Rightarrow> bytes \<Rightarrow> flow_key \<Rightarrow> dns_flow_config \<Rightarrow> dns_flow_transaction_key \<Rightarrow>
   dns_route \<Rightarrow> instant \<Rightarrow> instant \<Rightarrow> flow_worker \<times> (handled_dns_query, flow_worker_error) result" where
  "admit_dns_query w io packet flow config key route now nat_now =
    (let (resolver, is_remote) =
           (case route of Remote _ \<Rightarrow> (remote_resolver config, True) | _ \<Rightarrow> (local_resolver config, False));
         w = count_fallback w route
     in if is_remote \<and> \<not> remote_available config then refuse_query w io packet flow config
        else if transaction_capacity config \<le> hm_len (dns_by_key w)
        then refuse_query (bump (\<lambda>s. s\<lparr> dns_capacity_exhausted := dns_capacity_exhausted s + 1 \<rparr>) w)
               io packet flow config
        else start_dns_transaction w io packet flow config key resolver is_remote now nat_now)"

text \<open>A well-formed query: find its transaction, or classify and admit it.\<close>

definition route_dns_query ::
  "flow_worker \<Rightarrow> io_owner_key \<Rightarrow> bytes \<Rightarrow> bytes \<Rightarrow> bool \<Rightarrow> flow_key \<Rightarrow> dns_flow_config \<Rightarrow> instant \<Rightarrow> instant \<Rightarrow>
   flow_worker \<times> (handled_dns_query, flow_worker_error) result" where
  "route_dns_query w io packet payload malformed flow config now nat_now =
    st_then (w, transaction_key \<lparr> sock_ip = source flow, sock_port = source_port flow \<rparr> payload) (\<lambda>w dns.
      let key = \<lparr> dk_owner = io, dk_dns = dns \<rparr> in
      case hm_get (dns_by_key w) key of
        Some tx \<Rightarrow> pkt w (rewrite_dns_query packet tx)
      | None \<Rightarrow>
          st_then (w, if malformed then Ok LocalFallback else classify_query payload (remote_domains config))
            (\<lambda>w route. admit_dns_query w io packet flow config key route now nat_now))"

text \<open>A query with its EDNS size clamped: refused when its question cannot be read.\<close>

definition examine_dns_query ::
  "flow_worker \<Rightarrow> io_owner_key \<Rightarrow> bytes \<Rightarrow> bool option \<Rightarrow> flow_key \<Rightarrow> dns_flow_config \<Rightarrow> instant \<Rightarrow> instant \<Rightarrow>
   flow_worker \<times> (handled_dns_query, flow_worker_error) result" where
  "examine_dns_query w io packet edns flow config now nat_now =
    st_then (pkt w (udp_payload packet)) (\<lambda>w payload.
      case parse_question payload of
        Panic \<Rightarrow> (w, Panic)
      | Err _ \<Rightarrow> refuse_query w io packet flow config
      | Ok _ \<Rightarrow> route_dns_query w io packet payload (edns = None) flow config now nat_now)"

definition count_clamped :: "flow_worker \<Rightarrow> bool option \<Rightarrow> flow_worker" where
  "count_clamped w edns =
    (if edns = Some True then bump (\<lambda>s. s\<lparr> dns_edns_clamped := dns_edns_clamped s + 1 \<rparr>) w else w)"

definition handle_dns_query_at ::
  "flow_worker \<Rightarrow> io_owner_key \<Rightarrow> bytes \<Rightarrow> dns_flow_config \<Rightarrow> instant \<Rightarrow> instant \<Rightarrow>
   flow_worker \<times> (handled_dns_query, flow_worker_error) result" where
  "handle_dns_query_at w io packet config now nat_now =
    st_then (pkt w (prepare_forwarded_packet packet)) (\<lambda>w packet.
    st_then (pkt w (parse_flow_key packet)) (\<lambda>w flow.
      if protocol flow \<noteq> Udp \<or> destination flow \<noteq> sock_ip (listen config) \<or>
         destination_port flow \<noteq> sock_port (listen config)
      then (w, Err (DnsFailure NotDnsQuery))
      else
        st_then (pkt w (ip_packet_is_fragmented packet)) (\<lambda>w fragmented.
          if fragmented then refuse_query w io packet flow config
          else
            st_then (pkt w (udp_payload packet)) (\<lambda>w payload.
              if DNS_PAYLOAD_MAX < length payload then refuse_query w io packet flow config
              else
                st_then (pkt w (edns_clamp_packet packet)) (\<lambda>w (packet, edns).
                  examine_dns_query (count_clamped w edns) io packet edns flow config now nat_now)))))"

subsection \<open>Responses\<close>

definition deliver_dns_response ::
  "flow_worker \<Rightarrow> bytes \<Rightarrow> bytes \<Rightarrow> dns_flow_transaction \<Rightarrow>
   flow_worker \<times> (handled_dns_response option, flow_worker_error) result" where
  "deliver_dns_response w packet payload tx =
    (if DNS_PAYLOAD_MAX < length payload then
       st_then (pkt w (parse_flow_key (dt_packet tx))) (\<lambda>w original_flow.
       st_then (pkt (bump count_servfail w)
                 (dns_servfail_transmit_to_listen (dt_target tx) (dt_packet tx) original_flow (dt_vip tx))) (\<lambda>w transmit.
         (w, Ok (Some \<lparr> dr_target = dt_target tx, dr_packet = tx_packet transmit,
                        dr_binding = dt_binding tx, dr_transaction = dt_token tx \<rparr>))))
     else
       let w = bump (\<lambda>s. if dt_remote tx then s\<lparr> dns_response_remote := dns_response_remote s + 1 \<rparr>
                         else s\<lparr> dns_response_local := dns_response_local s + 1 \<rparr>) w
       in st_then (pkt w (rewrite_packet packet
            \<lparr> source = sock_ip (dt_vip tx), destination = sock_ip (dt_client tx),
              source_port = sock_port (dt_vip tx), destination_port = sock_port (dt_client tx),
              protocol = Udp \<rparr>)) (\<lambda>w packet.
            (w, Ok (Some \<lparr> dr_target = dt_target tx, dr_packet = packet,
                           dr_binding = dt_binding tx, dr_transaction = dt_token tx \<rparr>))))"

definition spoofed :: "flow_worker \<Rightarrow> flow_worker \<times> ('a option, flow_worker_error) result" where
  "spoofed w =
    (bump (\<lambda>s. s\<lparr> dns_spoofed_response_drop := dns_spoofed_response_drop s + 1 \<rparr>) w, Ok None)"

text \<open>A response that matches the query of a transaction completes the transaction.\<close>

definition complete_dns_response ::
  "flow_worker \<Rightarrow> dns_flow_transaction_key \<Rightarrow> flow_key \<Rightarrow> bytes \<Rightarrow> bytes \<Rightarrow> instant \<Rightarrow>
   flow_worker \<times> (handled_dns_response option, flow_worker_error) result" where
  "complete_dns_response w key flow packet payload nat_now =
    st_then (let (w', r) = remove_dns_transaction w key nat_now in (w', map_err SessionFailure r)) (\<lambda>w gone.
    st_then (w, expect gone) (\<lambda>w tx.
    st_then (w, expect (remember_completed_dns_reverse w flow)) (\<lambda>_ w.
      deliver_dns_response (set_active w) packet payload tx)))"

definition handle_dns_response ::
  "flow_worker \<Rightarrow> bytes \<Rightarrow> instant \<Rightarrow> flow_worker \<times> (handled_dns_response option, flow_worker_error) result" where
  "handle_dns_response w packet nat_now =
    st_then (pkt w (ip_packet_is_fragmented packet)) (\<lambda>w fragmented.
      if fragmented then spoofed w
      else
        st_then (pkt w (prepare_forwarded_packet packet)) (\<lambda>w packet.
        st_then (pkt w (parse_flow_key packet)) (\<lambda>w flow.
          case hm_get (dns_by_reverse w) flow of
            None \<Rightarrow>
              if hm_has (dns_completed_reverse w) flow
              then (bump (\<lambda>s. s\<lparr> dns_late_response_drop := dns_late_response_drop s + 1 \<rparr>) w, Ok None)
              else spoofed w
          | Some key \<Rightarrow>
             (case hm_get (dns_by_key w) key of
                None \<Rightarrow> spoofed w
              | Some tx \<Rightarrow>
                  st_then (pkt w (udp_payload packet)) (\<lambda>w payload.
                  st_then (pkt w (udp_payload (dt_packet tx))) (\<lambda>w query.
                    case response_matches_query query payload of
                      Panic \<Rightarrow> (w, Panic)
                    | Err _ \<Rightarrow> spoofed w
                    | Ok _ \<Rightarrow> complete_dns_response w key flow packet payload nat_now))))))"

subsection \<open>Expiry and abort\<close>

text \<open>The loop of expiry and of abort: remove each transaction, answer it with SERVFAIL and count it.\<close>

fun servfail_each ::
  "(flow_worker_stats \<Rightarrow> flow_worker_stats) \<Rightarrow> flow_worker \<Rightarrow> dns_flow_config \<Rightarrow>
   (dns_flow_transaction_key \<Rightarrow> instant) \<Rightarrow> dns_flow_transaction_key list \<Rightarrow>
   flow_worker \<times> (expired_dns_transaction list, flow_worker_error) result" where
  "servfail_each count w config clk [] = (w, Ok [])"
| "servfail_each count w config clk (key # keys) =
    (case remove_dns_transaction w key (clk key) of
       (w, Panic) \<Rightarrow> (w, Panic)
     | (w, Err e) \<Rightarrow> (w, Err (SessionFailure e))
     | (w, Ok None) \<Rightarrow> servfail_each count w config clk keys
     | (w, Ok (Some tx)) \<Rightarrow>
         st_then (pkt w (servfail_for_transaction tx config)) (\<lambda>w entry.
         st_then (servfail_each count (bump count w) config clk keys) (\<lambda>w rest.
           (w, Ok (entry # rest)))))"

definition count_timeout :: "flow_worker_stats \<Rightarrow> flow_worker_stats" where
  "count_timeout s = count_servfail (s\<lparr> dns_timeout := dns_timeout s + 1 \<rparr>)"

definition expire_dns_transactions ::
  "flow_worker \<Rightarrow> instant \<Rightarrow> dns_flow_config \<Rightarrow> (dns_flow_transaction_key \<Rightarrow> instant) \<Rightarrow>
   flow_worker \<times> (expired_dns_transaction list, flow_worker_error) result" where
  "expire_dns_transactions w now config clk =
    (let (due, rest) = pop_due now (dns_deadlines w)
     in st_then (servfail_each count_timeout (w\<lparr> dns_deadlines := rest \<rparr>) config clk due) (\<lambda>w transmits.
          (set_active w, Ok transmits)))"

definition abort_dns_transaction ::
  "flow_worker \<Rightarrow> nat_binding \<Rightarrow> dns_flow_config \<Rightarrow> instant \<Rightarrow>
   flow_worker \<times> (expired_dns_transaction option, flow_worker_error) result" where
  "abort_dns_transaction w binding config nat_now =
    (case hm_get (dns_by_reverse w) (reverse (nb_translated binding)) of
       None \<Rightarrow> (w, Ok None)
     | Some key \<Rightarrow>
         st_then (let (w', r) = remove_dns_transaction w key nat_now
                  in (w', map_err SessionFailure r)) (\<lambda>w removed.
         st_then (w, expect removed) (\<lambda>w tx.
         st_then (pkt (bump count_servfail w) (servfail_for_transaction tx config)) (\<lambda>w entry.
           (w, Ok (Some entry))))))"

definition abort_remote_dns_transactions ::
  "flow_worker \<Rightarrow> dns_flow_config \<Rightarrow> (dns_flow_transaction_key \<Rightarrow> instant) \<Rightarrow>
   flow_worker \<times> (expired_dns_transaction list, flow_worker_error) result" where
  "abort_remote_dns_transactions w config clk =
    servfail_each count_servfail w config clk (map fst (filter (\<lambda>e. dt_remote (snd e)) (hm_entries (dns_by_key w))))"

fun release_each ::
  "flow_worker \<Rightarrow> (session_id \<Rightarrow> instant) \<Rightarrow> dns_flow_transaction list \<Rightarrow>
   flow_worker \<times> (nat_binding list, session_error) result" where
  "release_each w clk [] = (w, Ok [])"
| "release_each w clk (tx # txs) =
    st_then (on_sessions w (release_ephemeral_nat (fw_sessions w) (fw_id w) (dt_token tx) (clk (dt_token tx)))) (\<lambda>w _.
    st_then (release_each w clk txs) (\<lambda>w bindings. (w, Ok (dt_binding tx # bindings))))"

definition remove_dns_transactions ::
  "flow_worker \<Rightarrow> (session_id \<Rightarrow> instant) \<Rightarrow> flow_worker \<times> (nat_binding list, session_error) result" where
  "remove_dns_transactions w clk =
    st_then (release_each (w\<lparr> dns_by_key := hm_empty, dns_by_reverse := hm_empty, dns_deadlines := [],
                              dns_completed_reverse := hm_empty, dns_completed_order := [] \<rparr>)
               clk (hm_vals (dns_by_key w))) (\<lambda>w bindings.
      (bump (\<lambda>s. s\<lparr> dns_transactions_active := 0 \<rparr>) w, Ok bindings))"

definition dns_reverse_matches :: "flow_worker \<Rightarrow> flow_key \<Rightarrow> session_locator \<Rightarrow> bool" where
  "dns_reverse_matches w flow locator \<longleftrightarrow> flow_worker_id locator = fw_id w \<and>
    (case Option.bind (hm_get (dns_by_reverse w) flow) (hm_get (dns_by_key w)) of
       None \<Rightarrow> False | Some tx \<Rightarrow> dt_token tx = locator_session locator)"

definition has_dns_reverse :: "flow_worker \<Rightarrow> flow_key \<Rightarrow> bool" where
  "has_dns_reverse w flow = hm_has (dns_by_reverse w) flow"

end
