(* ===== verification/Dns_Invariant.thy ===== *)
theory Dns_Invariant
  imports Dns_Flow
begin

text \<open>
  The invariant of a flow worker that serves sessions and DNS transactions from one NAT table,
  and the theorems about every worker that its own handlers can produce.
\<close>

section \<open>Sessions leave tokens alone\<close>

text \<open>A token: bound in the NAT table, but not the identifier of a session.\<close>

definition token_bound :: "session_table \<Rightarrow> session_id \<Rightarrow> nat_binding \<Rightarrow> bool" where
  "token_bound st tok b \<longleftrightarrow> binding_of (nat_tbl st) tok = Some b \<and> hm_get (sessions st) tok = None"

definition token_kept :: "session_table \<Rightarrow> session_table \<Rightarrow> bool" where
  "token_kept st st' \<longleftrightarrow> (\<forall>tok b. token_bound st tok b \<longrightarrow> token_bound st' tok b)"

lemma token_kept_refl [simp]: "token_kept st st"
  by (simp add: token_kept_def)

lemma token_kept_trans: "token_kept st st1 \<Longrightarrow> token_kept st1 st2 \<Longrightarrow> token_kept st st2"
  by (simp add: token_kept_def)

lemma token_kept_sessions:
  assumes "nat_tbl st' = nat_tbl st" and "\<And>i. hm_get (sessions st) i = None \<Longrightarrow> hm_get (sessions st') i = None"
  shows "token_kept st st'"
  using assms by (auto simp: token_kept_def token_bound_def)

lemma token_kept_touch: "token_kept st (fst (touch_tcp st caller i flags is_reverse now))"
proof (cases "caller = owner_worker_id st \<and> hm_get (sessions st) i \<noteq> None")
  case True
  then obtain s where s: "hm_get (sessions st) i = Some s" "caller = owner_worker_id st" by auto
  then show ?thesis
    using touch_tcp_owner [OF s(1), of flags is_reverse now]
    by (auto intro!: token_kept_sessions simp: hm_get_insert)
next
  case False
  then have "fst (touch_tcp st caller i flags is_reverse now) = st"
    by (cases "caller = owner_worker_id st") (auto simp: touch_tcp_def)
  then show ?thesis by simp
qed

lemma token_kept_correct: "token_kept st (fst (correct_intercept_io st caller i observed))"
  by (rule token_kept_sessions)
    (auto simp: correct_intercept_io_def ensure_owner_def hm_get_insert split: option.splits)

lemma token_kept_create:
  assumes core: "table_core ports st"
  shows "token_kept st (fst (get_or_create_with_flags_at st caller original io q flags is_reverse now nat_now))"
proof (cases "caller = owner_worker_id st")
  case True
  show ?thesis
  proof (cases "hm_get (by_key st) (table_key original io)")
    case (Some i)
    then show ?thesis
      using get_or_create_known [OF core Some, of q flags is_reverse now nat_now] True
        token_kept_touch [of st "owner_worker_id st" i flags is_reverse now] by simp
  next
    case None
    let ?i = "next_session_id st"
    obtain nat' r where a: "allocate_at (nat_tbl st) ?i original (own_locator st ?i) nat_now = (nat', r)"
      by fastforce
    show ?thesis
    proof (cases r)
      case (Ok b)
      have "binding_of (nat_tbl st) ?i = None" "binding_of nat' = (binding_of (nat_tbl st))(?i \<mapsto> b)"
        using snat.alloc_Ok [OF table_coreD(1) [OF core], of ?i original "own_locator st ?i" nat_now nat' b] a Ok
        by auto
      then show ?thesis
        using get_or_create_new [OF None, of nat_now nat' b q flags is_reverse now] a Ok True
        by (auto simp: token_kept_def token_bound_def Let_def hm_get_insert)
    next
      case (Err e)
      have "binding_of nat' = binding_of (nat_tbl st)" using snat.alloc_Err a Err by blast
      then show ?thesis
        using get_or_create_failed [OF None, of nat_now nat' e q flags is_reverse now] a Err True
        by (simp add: token_kept_def token_bound_def)
    next
      case Panic
      then show ?thesis
        using a snat.alloc_total [of "nat_tbl st" ?i original "own_locator st ?i" nat_now] by simp
    qed
  qed
qed (simp add: get_or_create_foreign)

lemma token_kept_expire:
  assumes inv: "table_inv ports st"
  shows "token_kept st (fst (expire_idle st caller now clk))"
proof (cases "caller = owner_worker_id st")
  case True
  then show ?thesis
    using expire_idle_owner [OF inv, of now clk] by (auto simp: token_kept_def token_bound_def)
qed (simp add: expire_idle_def)

lemma token_kept_remove_flow:
  assumes inv: "table_inv ports st"
  shows "token_kept st (fst (remove_by_quic_flow st caller q clk))"
proof (cases "caller = owner_worker_id st")
  case True
  then show ?thesis
    using remove_by_quic_flow_owner [OF inv, of q clk] by (auto simp: token_kept_def token_bound_def)
qed (simp add: remove_by_quic_flow_def)

lemma token_kept_remove:
  assumes inv: "table_inv ports st"
  shows "token_kept st (fst (remove st caller i now))"
proof (cases "caller = owner_worker_id st \<and> hm_get (sessions st) i \<noteq> None")
  case True
  then obtain s where s: "hm_get (sessions st) i = Some s" "caller = owner_worker_id st" by auto
  obtain nat' where r: "remove_at (nat_tbl st) i now = (nat', Ok (sess_nat s))"
    and rm: "remove st (owner_worker_id st) i now =
      (st\<lparr> nat_tbl := nat', sessions := hm_remove i (sessions st),
           deadlines := remove_deadline (deadlines st) (expires_at s) i,
           by_key := hm_remove (session_key_of s) (by_key st) \<rparr>, Ok s)"
    using remove_owner [OF _ s(1), of ports] inv by (auto simp: table_inv_def)
  have "binding_of nat' = (binding_of (nat_tbl st))(i := None)" using snat.release_Ok [OF r] by simp
  then show ?thesis using rm s by (auto simp: token_kept_def token_bound_def hm_get_remove)
next
  case False
  then have "fst (remove st caller i now) = st"
    by (cases "caller = owner_worker_id st") (auto simp: remove_def)
  then show ?thesis by simp
qed

lemma token_kept_rebind: "token_kept st (fst (rebind_quic_flow st caller old new))"
proof (cases "caller = owner_worker_id st")
  case True
  then show ?thesis by (intro token_kept_sessions) (simp_all add: rebind_quic_flow_def hm_get_map_vals)
qed (simp add: rebind_quic_flow_def)

section \<open>Steps that only concern sessions\<close>

text \<open>The DNS part of a worker is the same, and its tokens are still bound.\<close>

definition session_only :: "u16 set \<Rightarrow> flow_worker \<Rightarrow> flow_worker \<Rightarrow> bool" where
  "session_only ports w w' \<longleftrightarrow> worker_inv ports w' \<and> token_kept (fw_sessions w) (fw_sessions w') \<and>
    fw_id w' = fw_id w \<and> next_dns_token w' = next_dns_token w \<and> dns_by_key w' = dns_by_key w \<and>
    dns_by_reverse w' = dns_by_reverse w \<and> dns_deadlines w' = dns_deadlines w \<and>
    dns_completed_reverse w' = dns_completed_reverse w \<and> dns_completed_order w' = dns_completed_order w \<and>
    next_dns_completed_sequence w' = next_dns_completed_sequence w"

lemma session_only_refl: "worker_inv ports w \<Longrightarrow> session_only ports w w"
  by (simp add: session_only_def)

lemma session_only_trans: "session_only ports w w1 \<Longrightarrow> session_only ports w1 w2 \<Longrightarrow> session_only ports w w2"
  unfolding session_only_def using token_kept_trans by (metis (no_types, lifting))

lemma session_only_on_sessions:
  assumes inv: "worker_inv ports w" and ti: "table_inv ports (fst m)"
    and ow: "owner_worker_id (fst m) = owner_worker_id (fw_sessions w)" and tk: "token_kept (fw_sessions w) (fst m)"
  shows "session_only ports w (w\<lparr> fw_sessions := fst m \<rparr>)"
  using assms by (simp add: session_only_def worker_inv_def)

lemma session_only_bump: "session_only ports w w' \<Longrightarrow> session_only ports w (bump f w')"
  by (simp add: session_only_def worker_inv_def bump_def)

lemma session_only_step:
  assumes inv: "worker_inv ports w" and st: "table_step (fw_sessions w) (fst m)"
    and tk: "token_kept (fw_sessions w) (fst m)"
  shows "session_only ports w (w\<lparr> fw_sessions := fst m \<rparr>)"
  using inv table_inv_step [OF st] owner_step [OF st] tk
  by (intro session_only_on_sessions) (simp_all add: worker_inv_def)

lemma session_only_session_for:
  assumes inv: "worker_inv ports w"
  shows "session_only ports w (fst (session_for w flow io q flags now nat_now))"
proof -
  let ?m = "get_or_create_with_flags_at (fw_sessions w) (fw_id w) flow io q flags False now nat_now"
  have core: "table_core ports (fw_sessions w)" using inv by (simp add: worker_inv_def table_inv_def)
  have so: "session_only ports w (w\<lparr> fw_sessions := fst ?m \<rparr>)"
    by (rule session_only_step [OF inv step_get_or_create token_kept_create [OF core]])
  have "fst (session_for w flow io q flags now nat_now) = w\<lparr> fw_sessions := fst ?m \<rparr> \<or>
    (\<exists>f. fst (session_for w flow io q flags now nat_now) = bump f (w\<lparr> fw_sessions := fst ?m \<rparr>))"
    unfolding session_for_def on_sessions_def Let_def
    by (auto split: result.split session_error.split nat_error.split)
  then show ?thesis using so session_only_bump [OF so] by auto
qed

section \<open>Safe runs\<close>

text \<open>A run is safe when it does not panic and leaves a state that satisfies the predicate.\<close>

definition safe :: "('s \<Rightarrow> bool) \<Rightarrow> 's \<times> ('a, 'e) result \<Rightarrow> bool" where
  "safe P m \<longleftrightarrow> P (fst m) \<and> snd m \<noteq> Panic"

named_theorems safe_intros

lemma safe_then [safe_intros]:
  assumes "safe P m" and "\<And>w x. m = (w, Ok x) \<Longrightarrow> P w \<Longrightarrow> safe P (f w x)"
  shows "safe P (st_then m f)"
  using assms by (cases m; cases "snd m") (auto simp: safe_def st_then_def)

lemma safe_pair [safe_intros]: "P w \<Longrightarrow> r \<noteq> Panic \<Longrightarrow> safe P (w, r)"
  by (simp add: safe_def)

lemma safe_pkt [safe_intros]: "P w \<Longrightarrow> r \<noteq> Panic \<Longrightarrow> safe P (pkt w r)"
  by (simp add: safe_def res_simps)

lemma safe_do:
  "P w \<Longrightarrow> r \<noteq> Panic \<Longrightarrow> (\<And>x. r = Ok x \<Longrightarrow> safe P (f w x)) \<Longrightarrow> safe P (st_then (w, r) f)"
  by (cases r) (simp_all add: safe_def)

lemma safe_do_pkt:
  "P w \<Longrightarrow> r \<noteq> Panic \<Longrightarrow> (\<And>x. r = Ok x \<Longrightarrow> safe P (f w x)) \<Longrightarrow> safe P (st_then (pkt w r) f)"
  by (cases r) (simp_all add: safe_def)

lemma safe_if [safe_intros]: "(b \<Longrightarrow> safe P x) \<Longrightarrow> (\<not> b \<Longrightarrow> safe P y) \<Longrightarrow> safe P (if b then x else y)"
  by simp

lemma safe_errs: "safe P m \<Longrightarrow> safe P (let (w, r) = m in (w, map_err g r))"
  by (cases m) (simp add: safe_def res_simps)

lemma check_quic_owner_no_panic [no_panic]: "check_quic_owner w f \<noteq> Panic"
  by (simp add: check_quic_owner_def)

lemma get_or_create_no_panic:
  assumes core: "table_core ports st"
  shows "snd (get_or_create_with_flags_at st caller original io q flags is_reverse now nat_now) \<noteq> Panic"
proof (cases "caller = owner_worker_id st")
  case True
  let ?i = "next_session_id st"
  obtain nat' r where a: "allocate_at (nat_tbl st) ?i original (own_locator st ?i) nat_now = (nat', r)"
    by fastforce
  have "r \<noteq> Panic"
    using a snat.alloc_total [of "nat_tbl st" ?i original "own_locator st ?i" nat_now] by simp
  then show ?thesis
    using True a get_or_create_known [OF core, of original io] get_or_create_new [of st original io nat_now nat']
      get_or_create_failed [of st original io nat_now nat']
    by (cases "hm_get (by_key st) (table_key original io)"; cases r) (simp_all add: Let_def)
qed (simp add: get_or_create_foreign)

lemma session_for_safe:
  assumes inv: "worker_inv ports w"
  shows "safe (session_only ports w) (session_for w flow io q flags now nat_now)"
proof -
  have core: "table_core ports (fw_sessions w)" using inv by (simp add: worker_inv_def table_inv_def)
  have "snd (session_for w flow io q flags now nat_now) \<noteq> Panic"
    using get_or_create_no_panic [OF core, of "fw_id w" flow io q flags False now nat_now]
    unfolding session_for_def on_sessions_def Let_def
    by (auto split: result.split session_error.split nat_error.split)
  then show ?thesis using session_only_session_for [OF inv] by (simp add: safe_def)
qed

lemma session_only_inv: "session_only ports w w' \<Longrightarrow> worker_inv ports w'"
  by (simp add: session_only_def)

lemma session_for_get:
  assumes "worker_inv ports w" and "session_for w flow io q flags now nat_now = (w', Ok i)"
  shows "expect (session_get (fw_sessions w') i) \<noteq> (Panic :: (session, 'e) result)"
  by (rule session_for_Ok [OF assms]) (simp add: session_get_def)

text \<open>The checks every handler makes before it looks at its sessions.\<close>

lemma safe_front:
  assumes P: "P w" and go: "\<And>p1 flow p2 m flags. prepare_forwarded_packet packet = Ok p1 \<Longrightarrow>
      parse_flow_key p1 = Ok flow \<Longrightarrow> clamp_tcp_mss p1 mss = Ok (p2, m) \<Longrightarrow> safe P (g w flow p2 flags)"
  shows "safe P (st_then (pkt w (prepare_forwarded_packet packet)) (\<lambda>w packet.
    st_then (pkt w (parse_flow_key packet)) (\<lambda>w flow.
    st_then (pkt w (clamp_tcp_mss packet mss)) (\<lambda>w (packet, _).
    st_then (pkt w (parse_tcp_flags packet)) (\<lambda>w flags. g w flow packet flags)))))"
proof (rule safe_do_pkt, rule P, rule prepare_no_panic, rule safe_do_pkt, rule P, rule parse_flow_key_no_panic)
  fix p1 flow
  assume p: "prepare_forwarded_packet packet = Ok p1" and f: "parse_flow_key p1 = Ok flow"
  have s: "safe P (st_then (pkt w (parse_tcp_flags p2)) (\<lambda>w flags. g w flow p2 flags))"
    if "clamp_tcp_mss p1 mss = Ok (p2, m)" for p2 m
    by (rule safe_do_pkt, rule P, rule parse_tcp_flags_no_panic) (rule go [OF p f that])
  show "safe P (st_then (pkt w (clamp_tcp_mss p1 mss)) (\<lambda>w (packet, _).
      st_then (pkt w (parse_tcp_flags packet)) (\<lambda>w flags. g w flow packet flags)))"
    by (rule safe_do_pkt, rule P, rule clamp_tcp_mss_no_panic [OF f]) (auto intro: s)
qed

lemma safe_session:
  assumes inv: "worker_inv ports w"
    and go: "\<And>w' i s. session_for w flow io q flags now nat_now = (w', Ok i) \<Longrightarrow>
      session_only ports w w' \<Longrightarrow> safe (session_only ports w) (g w' i s)"
  shows "safe (session_only ports w) (st_then (session_for w flow io q flags now nat_now) (\<lambda>w i.
    st_then (w, expect (session_get (fw_sessions w) i)) (\<lambda>w s. g w i s)))"
proof (rule safe_then [OF session_for_safe [OF inv]])
  fix w' i
  assume s: "session_for w flow io q flags now nat_now = (w', Ok i)" and so: "session_only ports w w'"
  show "safe (session_only ports w) (st_then (w', expect (session_get (fw_sessions w') i)) (\<lambda>w s. g w i s))"
    by (rule safe_do, rule so, rule session_for_get [OF inv s]) (rule go [OF s so])
qed

lemma safe_rewrite:
  assumes P: "P w"
  shows "safe P (st_then (pkt w (rewrite_packet p tr)) (\<lambda>w packet. (w, Ok (h packet))))"
  by (rule safe_do_pkt, rule P, rule rewrite_packet_no_panic) (simp add: safe_def P)

lemma handle_intercept_safe:
  assumes inv: "worker_inv ports w"
  shows "safe (session_only ports w) (handle_intercept w io packet quic tgt now nat_now)"
  unfolding handle_intercept_def
  by (rule safe_do, rule session_only_refl [OF inv], rule check_quic_owner_no_panic, rule safe_front,
      rule session_only_refl [OF inv], rule safe_session [OF inv], rule safe_rewrite)

lemma handle_server_inner_safe:
  assumes inv: "worker_inv ports w"
  shows "safe (session_only ports w) (handle_server_inner w io packet quic now nat_now)"
  unfolding handle_server_inner_def
  by (rule safe_do, rule session_only_refl [OF inv], rule check_quic_owner_no_panic, rule safe_front,
      rule session_only_refl [OF inv], rule safe_session [OF inv], rule safe_rewrite)

lemma leaves_then:
  assumes "P (fst m)" and "\<And>w x. P w \<Longrightarrow> P (fst (f w x))"
  shows "P (fst (st_then m f))"
  using assms by (cases m; cases "snd m") (auto simp: st_then_def)

lemma correct_server_return_io_session_only:
  assumes inv: "worker_inv ports w"
  shows "session_only ports w (fst (correct_server_return_io w i observed))"
proof -
  let ?c = "correct_intercept_io (fw_sessions w) (fw_id w) i observed"
  have so: "session_only ports w (w\<lparr> fw_sessions := fst ?c \<rparr>)"
    by (rule session_only_step [OF inv step_correct token_kept_correct])
  show ?thesis
    using so session_only_bump [OF so]
    by (simp add: correct_server_return_io_def on_sessions_def split: result.split intercept_io_update.split)
qed

lemma finish_reverse_session_only:
  assumes inv: "worker_inv ports w"
  shows "session_only ports w (fst (finish_reverse w i flags p ret now))"
proof -
  have so: "session_only ports w (w\<lparr> fw_sessions := fst (touch_tcp (fw_sessions w) (fw_id w) i flags True now) \<rparr>)"
    by (rule session_only_step [OF inv step_touch token_kept_touch])
  show ?thesis
    unfolding finish_reverse_def
    by (intro leaves_then [where P = "session_only ports w"]) (simp_all add: on_sessions_def so)
qed

lemma handle_reverse_for_inner_safe:
  assumes inv: "worker_inv ports w"
  shows "safe (session_only ports w) (handle_reverse_for_inner w packet loc observed now)"
proof -
  obtain w' r where run: "handle_reverse_for_inner w packet loc observed now = (w', r)" by fastforce
  note refl = session_only_refl [OF inv]
  have fin: "session_only ports w (fst (let (w1, accepted) = (case observed of
        None \<Rightarrow> (w, True) | Some owner \<Rightarrow> correct_server_return_io w i owner)
      in if \<not> accepted then (w1, Ok None) else finish_reverse w1 i flags p ret now))" for i flags p ret
  proof -
    define m where "m = (case observed of
        None \<Rightarrow> (w, True) | Some owner \<Rightarrow> correct_server_return_io w i owner)"
    have "session_only ports w (fst m)"
      using refl correct_server_return_io_session_only [OF inv] by (simp add: m_def split: option.split)
    moreover from this have "session_only ports w (fst (finish_reverse (fst m) i flags p ret now))"
      using finish_reverse_session_only [OF session_only_inv] session_only_trans by blast
    ultimately show ?thesis unfolding m_def [symmetric] by (cases m) simp
  qed
  have "session_only ports w (fst (handle_reverse_for_inner w packet loc observed now))"
    unfolding handle_reverse_for_inner_def
    using refl fin
    by (auto simp: st_then_def map_err_eq_Ok Let_def simp del: if_not_P
        split: result.split option.split prod.splits)
  moreover have "r \<noteq> Panic" using handle_reverse_inner_out [OF inv run] by simp
  ultimately show ?thesis by (simp add: safe_def run)
qed

lemma handle_reverse_safe:
  assumes inv: "worker_inv ports w"
  shows "safe (session_only ports w) (handle_reverse w packet now)"
  unfolding handle_reverse_def handle_reverse_for_def
  by (rule safe_do_pkt, rule session_only_refl [OF inv], rule parse_flow_key_no_panic)
    (simp add: handle_reverse_for_inner_safe [OF inv] safe_pair session_only_refl [OF inv] split: option.split)

lemma session_ops_safe:
  assumes inv: "worker_inv ports w"
  shows "safe (session_only ports w) (worker_rebind_quic_flow w old new)"
    and "safe (session_only ports w) (worker_remove_by_quic_flow w q clk)"
    and "safe (session_only ports w) (remove_session w i now)"
    and "safe (session_only ports w) (expire_idle_sessions w now clk)"
proof -
  have ti: "table_inv ports (fw_sessions w)" and ow: "owner_worker_id (fw_sessions w) = fw_id w"
    using inv by (simp_all add: worker_inv_def)
  have step: "safe (session_only ports w) (on_sessions w m)"
    if "table_step (fw_sessions w) (fst m)" "token_kept (fw_sessions w) (fst m)" "snd m \<noteq> Panic"
    for m :: "session_table \<times> ('b, session_error) result"
    using session_only_step [OF inv that(1,2)] that(3) by (simp add: safe_def)
  show "safe (session_only ports w) (worker_rebind_quic_flow w old new)"
    unfolding worker_rebind_quic_flow_def
    by (rule step [OF step_rebind token_kept_rebind]) (simp add: rebind_quic_flow_def ensure_owner_def)
  have "snd (remove_by_quic_flow (fw_sessions w) (fw_id w) q clk) \<noteq> Panic"
    using remove_by_quic_flow_owner [OF ti, of q clk] ow by auto
  note s = step [OF step_remove_flow token_kept_remove_flow [OF ti] this]
  show "safe (session_only ports w) (worker_remove_by_quic_flow w q clk)"
    unfolding worker_remove_by_quic_flow_def Let_def
    by (rule safe_then [OF s]) (simp add: safe_def)
  have "snd (remove (fw_sessions w) (fw_id w) i now) \<noteq> Panic"
    using remove_at_total [of "nat_tbl (fw_sessions w)" i now]
    by (auto simp: remove_def ensure_owner_def split: option.split result.split prod.split)
  then show "safe (session_only ports w) (remove_session w i now)"
    unfolding remove_session_def by (rule step [OF step_remove_one token_kept_remove [OF ti]])
  have "snd (expire_idle (fw_sessions w) (fw_id w) now clk) \<noteq> Panic"
    using expire_idle_owner [OF ti, of now clk] ow by auto
  then show "safe (session_only ports w) (expire_idle_sessions w now clk)"
    unfolding expire_idle_sessions_def by (rule step [OF step_expire token_kept_expire [OF ti]])
qed

section \<open>The DNS invariant\<close>

text \<open>
  A stored query is a packet to the virtual resolver whose payload is long enough to be
  turned into a SERVFAIL response and short enough to be forwarded.
\<close>

definition dns_tx_ok :: "socket_addr \<Rightarrow> dns_flow_transaction \<Rightarrow> bool" where
  "dns_tx_ok vip tx \<longleftrightarrow> dt_vip tx = vip \<and>
    (\<exists>f s. parse_flow_key (dt_packet tx) = Ok f \<and> protocol f = Udp \<and>
       destination f = sock_ip vip \<and> destination_port f = sock_port vip \<and>
       dt_client tx = \<lparr> sock_ip = source f, sock_port = source_port f \<rparr> \<and>
       source (nb_original (dt_binding tx)) = source f \<and> protocol (nb_original (dt_binding tx)) = Udp \<and>
       udp_payload (dt_packet tx) = Ok s \<and> 12 \<le> length s \<and> length s \<le> DNS_PAYLOAD_MAX)"

definition tx_reverse :: "dns_flow_transaction \<Rightarrow> flow_key" where
  "tx_reverse tx = reverse (nb_translated (dt_binding tx))"

text \<open>Both indexes agree, and every transaction holds the NAT binding of its token.\<close>

definition dns_core :: "socket_addr \<Rightarrow> flow_worker \<Rightarrow> bool" where
  "dns_core vip w \<longleftrightarrow>
    (\<forall>k tx. hm_get (dns_by_key w) k = Some tx \<longrightarrow> hm_get (dns_by_reverse w) (tx_reverse tx) = Some k \<and>
       token_bound (fw_sessions w) (dt_token tx) (dt_binding tx) \<and> dns_tx_ok vip tx) \<and>
    (\<forall>r k. hm_get (dns_by_reverse w) r = Some k \<longrightarrow>
       (\<exists>tx. hm_get (dns_by_key w) k = Some tx \<and> tx_reverse tx = r))"

definition dns_deadline :: "flow_worker \<Rightarrow> dns_flow_transaction_key \<Rightarrow> instant option" where
  "dns_deadline w k = map_option dt_expires_at (hm_get (dns_by_key w) k)"

text \<open>The memory of completed transactions: two indexes of one bounded set, numbered in order.\<close>

definition order_agrees :: "(flow_key, u64) alist \<Rightarrow> (u64 \<times> flow_key) list \<Rightarrow> bool" where
  "order_agrees m order \<longleftrightarrow> bt_wf order \<and> (\<forall>f s. hm_get m f = Some s \<longleftrightarrow> map_of order s = Some f)"

definition completed_inv :: "nat \<Rightarrow> flow_worker \<Rightarrow> bool" where
  "completed_inv n w \<longleftrightarrow> order_agrees (dns_completed_reverse w) (dns_completed_order w) \<and>
    (\<forall>s f. map_of (dns_completed_order w) s = Some f \<longrightarrow> s < next_dns_completed_sequence w) \<and>
    unat (next_dns_completed_sequence w) \<le> Suc n \<and> 
    hm_len (dns_completed_reverse w) \<le> DNS_COMPLETED_REVERSE_CAPACITY"

text \<open>
  \<open>dns_inv_except X\<close>: everything agrees, apart from the deadlines of the transactions in
  \<open>X\<close>, which have been taken out of the buckets to be removed.
\<close>

definition dns_inv_except ::
  "dns_flow_transaction_key set \<Rightarrow> socket_addr \<Rightarrow> u16 set \<Rightarrow> nat \<Rightarrow> flow_worker \<Rightarrow> bool" where
  "dns_inv_except X vip ports n w \<longleftrightarrow> worker_inv ports w \<and> dns_core vip w \<and> completed_inv n w \<and>
    dl_inv (dns_deadlines w) (\<lambda>k. if k \<in> X then None else dns_deadline w k)"

abbreviation dns_inv :: "socket_addr \<Rightarrow> u16 set \<Rightarrow> nat \<Rightarrow> flow_worker \<Rightarrow> bool" where
  "dns_inv \<equiv> dns_inv_except {}"

lemma dns_coreD:
  assumes "dns_core vip w"
  shows "\<And>k tx. hm_get (dns_by_key w) k = Some tx \<Longrightarrow> hm_get (dns_by_reverse w) (tx_reverse tx) = Some k"
    and "\<And>k tx. hm_get (dns_by_key w) k = Some tx \<Longrightarrow> token_bound (fw_sessions w) (dt_token tx) (dt_binding tx)"
    and "\<And>k tx. hm_get (dns_by_key w) k = Some tx \<Longrightarrow> dns_tx_ok vip tx"
    and "\<And>r k. hm_get (dns_by_reverse w) r = Some k \<Longrightarrow> \<exists>tx. hm_get (dns_by_key w) k = Some tx \<and> tx_reverse tx = r"
  using assms by (simp_all add: dns_core_def)

lemma dns_inv_session_only:
  assumes inv: "dns_inv_except X vip ports n w" and so: "session_only ports w w'"
  shows "dns_inv_except X vip ports n w'"
proof -
  have tk: "token_kept (fw_sessions w) (fw_sessions w')" and wi: "worker_inv ports w'"
    and same: "dns_by_key w' = dns_by_key w" "dns_by_reverse w' = dns_by_reverse w"
      "dns_deadlines w' = dns_deadlines w" "dns_completed_reverse w' = dns_completed_reverse w"
      "dns_completed_order w' = dns_completed_order w"
      "next_dns_completed_sequence w' = next_dns_completed_sequence w"
    using so by (simp_all add: session_only_def)
  have "dns_core vip w'" using inv tk by (simp add: dns_inv_except_def dns_core_def same token_kept_def)
  then show ?thesis
    using inv wi by (simp add: dns_inv_except_def completed_inv_def dns_deadline_def same cong: if_cong)
qed

lemma dns_inv_bump [simp]: "dns_inv_except X vip ports n (bump f w) \<longleftrightarrow> dns_inv_except X vip ports n w"
  by (simp add: dns_inv_except_def worker_inv_def dns_core_def completed_inv_def dns_deadline_def bump_def cong: if_cong)

lemma dns_inv_set_active [simp]:
  "dns_inv_except X vip ports n (set_active w) \<longleftrightarrow> dns_inv_except X vip ports n w"
  by (simp add: set_active_def)

lemma dns_inv_mono: "dns_inv_except X vip ports n w \<Longrightarrow> n \<le> m \<Longrightarrow> dns_inv_except X vip ports m w"
  by (auto simp: dns_inv_except_def completed_inv_def)

section \<open>Removing a transaction\<close>

lemma tx_same:
  assumes inv: "worker_inv ports w" and core: "dns_core vip w"
    and k: "hm_get (dns_by_key w) k = Some tx" and k': "hm_get (dns_by_key w) k' = Some tx'"
    and eq: "dt_token tx = dt_token tx' \<or> tx_reverse tx = tx_reverse tx'"
  shows "k = k'"
proof -
  have "tx_reverse tx = tx_reverse tx'"
    using eq dns_coreD(2) [OF core k] dns_coreD(2) [OF core k'] by (auto simp: token_bound_def tx_reverse_def)
  then show ?thesis using dns_coreD(1) [OF core k] dns_coreD(1) [OF core k'] by simp
qed

lemma release_token_run:
  assumes inv: "worker_inv ports w" and b: "token_bound (fw_sessions w) tok b"
  obtains st' where "release_ephemeral_nat (fw_sessions w) (fw_id w) tok now = (st', Ok b)"
    and "table_inv ports st'" and "owner_worker_id st' = fw_id w"
    and "binding_of (nat_tbl st') = (binding_of (nat_tbl (fw_sessions w)))(tok := None)"
    and "\<forall>t c. token_bound (fw_sessions w) t c \<and> t \<noteq> tok \<longrightarrow> token_bound st' t c"
proof -
  let ?st = "fw_sessions w"
  have ow: "owner_worker_id ?st = fw_id w" and ti: "table_inv ports ?st" using inv by (simp_all add: worker_inv_def)
  have free: "hm_get (sessions ?st) tok = None" and bd: "binding_of (nat_tbl ?st) tok = Some b"
    using b by (simp_all add: token_bound_def)
  obtain nat' r where r: "remove_at (nat_tbl ?st) tok now = (nat', r)" by fastforce
  have rb: "r = Ok b" "binding_of nat' = (binding_of (nat_tbl ?st))(tok := None)"
    using snat.release_bound [OF bd, of now] r by simp_all
  have run: "release_ephemeral_nat ?st (fw_id w) tok now = (?st\<lparr> nat_tbl := nat' \<rparr>, Ok b)"
    using r rb(1) ow by (simp add: release_ephemeral_nat_def ensure_owner_def)
  show ?thesis
  proof (rule that [OF run])
    show "table_inv ports (?st\<lparr> nat_tbl := nat' \<rparr>)"
      using table_inv_release_ephemeral [OF ti free, of "fw_id w" now] run by simp
    show "owner_worker_id (?st\<lparr> nat_tbl := nat' \<rparr>) = fw_id w" using ow by simp
    show "binding_of (nat_tbl (?st\<lparr> nat_tbl := nat' \<rparr>)) = (binding_of (nat_tbl ?st))(tok := None)" using rb(2) by simp
    show "\<forall>t c. token_bound ?st t c \<and> t \<noteq> tok \<longrightarrow> token_bound (?st\<lparr> nat_tbl := nat' \<rparr>) t c"
      using rb(2) by (simp add: token_bound_def)
  qed
qed

text \<open>What removing a transaction leaves unchanged.\<close>

definition removed :: "flow_worker \<Rightarrow> dns_flow_transaction_key \<Rightarrow> dns_flow_transaction \<Rightarrow> flow_worker \<Rightarrow> bool" where
  "removed w key tx w' \<longleftrightarrow> fw_id w' = fw_id w \<and>
    hm_get (dns_by_key w') = (hm_get (dns_by_key w))(key := None) \<and>
    hm_get (dns_by_reverse w') = (hm_get (dns_by_reverse w))(tx_reverse tx := None) \<and>
    binding_of (nat_tbl (fw_sessions w')) = (binding_of (nat_tbl (fw_sessions w)))(dt_token tx := None) \<and>
    dns_completed_reverse w' = dns_completed_reverse w \<and> dns_completed_order w' = dns_completed_order w \<and>
    next_dns_completed_sequence w' = next_dns_completed_sequence w"

lemma remove_dns_run:
  assumes inv: "dns_inv_except X vip ports n w" and tx: "hm_get (dns_by_key w) key = Some tx"
  obtains w' where "remove_dns_transaction w key now = (w', Ok (Some tx))"
    and "dns_inv_except (X - {key}) vip ports n w'" and "removed w key tx w'"
proof -
  have wi: "worker_inv ports w" and core: "dns_core vip w" and ci: "completed_inv n w"
    and dl: "dl_inv (dns_deadlines w) (\<lambda>k. if k \<in> X then None else dns_deadline w k)"
    using inv by (simp_all add: dns_inv_except_def)
  obtain st' where st': "release_ephemeral_nat (fw_sessions w) (fw_id w) (dt_token tx) now = (st', Ok (dt_binding tx))"
    "table_inv ports st'" "owner_worker_id st' = fw_id w"
    "binding_of (nat_tbl st') = (binding_of (nat_tbl (fw_sessions w)))(dt_token tx := None)"
    "\<forall>t c. token_bound (fw_sessions w) t c \<and> t \<noteq> dt_token tx \<longrightarrow> token_bound st' t c"
    using release_token_run [OF wi dns_coreD(2) [OF core tx], of now] by blast
  define w' where "w' = w\<lparr> dns_by_key := hm_remove key (dns_by_key w),
      dns_deadlines := remove_deadline (dns_deadlines w) (dt_expires_at tx) key,
      dns_by_reverse := hm_remove (tx_reverse tx) (dns_by_reverse w), fw_sessions := st' \<rparr>"
  have run: "remove_dns_transaction w key now = (set_active w', Ok (Some tx))"
    using tx st'(1) by (simp add: remove_dns_transaction_def on_sessions_def w'_def tx_reverse_def)
  have "dns_core vip w'"
    unfolding dns_core_def
  proof (intro conjI allI impI)
    fix k t assume "hm_get (dns_by_key w') k = Some t"
    then have k: "k \<noteq> key" "hm_get (dns_by_key w) k = Some t" by (auto simp: w'_def hm_get_remove split: if_splits)
    then have ne: "dt_token t \<noteq> dt_token tx" "tx_reverse t \<noteq> tx_reverse tx"
      using tx_same [OF wi core k(2) tx] by blast+
    show "hm_get (dns_by_reverse w') (tx_reverse t) = Some k"
      using dns_coreD(1) [OF core k(2)] ne by (simp add: w'_def hm_get_remove)
    show "token_bound (fw_sessions w') (dt_token t) (dt_binding t)"
      using st'(5) dns_coreD(2) [OF core k(2)] ne(1) by (simp add: w'_def)
    show "dns_tx_ok vip t" by (rule dns_coreD(3) [OF core k(2)])
  next
    fix r k assume "hm_get (dns_by_reverse w') r = Some k"
    then have r: "r \<noteq> tx_reverse tx" "hm_get (dns_by_reverse w) r = Some k"
      by (auto simp: w'_def hm_get_remove split: if_splits)
    then obtain t where t: "hm_get (dns_by_key w) k = Some t" "tx_reverse t = r" using dns_coreD(4) [OF core] by blast
    then have "k \<noteq> key" using tx r(1) by auto
    then show "\<exists>t. hm_get (dns_by_key w') k = Some t \<and> tx_reverse t = r" using t by (simp add: w'_def hm_get_remove)
  qed
  moreover have "(if (if key \<in> X then None else dns_deadline w key) = Some (dt_expires_at tx)
      then (\<lambda>k. if k \<in> X then None else dns_deadline w k)(key := None)
      else (\<lambda>k. if k \<in> X then None else dns_deadline w k)) =
      (\<lambda>k. if k \<in> X - {key} then None else dns_deadline w' k)"
    using tx by (auto simp: fun_eq_iff dns_deadline_def w'_def hm_get_remove)
  then have "dl_inv (dns_deadlines w') (\<lambda>k. if k \<in> X - {key} then None else dns_deadline w' k)"
    using dl_inv_remove [OF dl, of "dt_expires_at tx" key] by (simp add: w'_def)
  moreover have "worker_inv ports w'" "completed_inv n w'"
    using st'(2,3) ci by (simp_all add: worker_inv_def completed_inv_def w'_def)
  ultimately have i': "dns_inv_except (X - {key}) vip ports n w'" by (simp add: dns_inv_except_def)
  have "removed w key tx (set_active w')"
    using st'(4) by (simp add: removed_def set_active_def bump_def w'_def fun_eq_iff hm_get_remove)
  then show ?thesis using that run i' by simp
qed

section \<open>The memory of completed transactions\<close>

lemma order_agrees_remove:
  assumes a: "order_agrees m order" and f: "hm_get m f = Some s"
  shows "order_agrees (hm_remove f m) (bt_remove s order)"
proof -
  have bij: "hm_get m g = Some r \<longleftrightarrow> map_of order r = Some g" for g r using a by (simp add: order_agrees_def)
  have "hm_get (hm_remove f m) g = Some r \<longleftrightarrow> map_of (bt_remove s order) r = Some g" for g r
    using bij [of g r] bij [of f s] f by (auto simp: hm_get_remove map_of_bt_remove)
  then show ?thesis using a by (auto simp: order_agrees_def)
qed

lemma order_agrees_insert:
  assumes a: "order_agrees m order" and f: "hm_get m f = None" and s: "map_of order s = None"
  shows "order_agrees (hm_insert f s m) (bt_insert s f order)"
proof -
  have bij: "hm_get m g = Some r \<longleftrightarrow> map_of order r = Some g" for g r using a by (simp add: order_agrees_def)
  have wf: "bt_wf order" using a by (simp add: order_agrees_def)
  have "hm_get (hm_insert f s m) g = Some r \<longleftrightarrow> map_of (bt_insert s f order) r = Some g" for g r
    using bij [of g r] bij [of f r] bij [of g s] f s wf by (auto simp: hm_get_insert map_of_bt_insert)
  then show ?thesis using wf by (auto simp: order_agrees_def)
qed

lemma order_agrees_empty: "order_agrees m [] \<Longrightarrow> hm_len m = 0"
  by (simp add: order_agrees_def hm_len_card dom_def)

lemma bt_remove_first: "bt_wf ((s, f) # order) \<Longrightarrow> bt_remove s ((s, f) # order) = order"
  by (auto simp: bt_remove_def filter_id_conv)

text \<open>With one entry too many, the loop drops the oldest entry and ends.\<close>

lemma trim_completed_run:
  assumes a: "order_agrees m order" and n: "hm_len m \<le> Suc DNS_COMPLETED_REVERSE_CAPACITY"
  obtains m' order' where "trim_completed m order = Some (m', order')" and "order_agrees m' order'"
    and "hm_len m' \<le> DNS_COMPLETED_REVERSE_CAPACITY"
    and "\<forall>s f. map_of order' s = Some f \<longrightarrow> map_of order s = Some f"
    and "\<forall>s f r g. map_of order s = Some f \<and> map_of order r = Some g \<and> r < s \<longrightarrow> map_of order' s = Some f"
proof (cases "hm_len m \<le> DNS_COMPLETED_REVERSE_CAPACITY")
  case True
  then have "trim_completed m order = Some (m, order)" by (cases order) auto
  then show ?thesis using that a True by blast
next
  case False
  then obtain s f rest where order: "order = (s, f) # rest"
    using order_agrees_empty a by (cases order) auto
  have f: "hm_get m f = Some s" and wf: "bt_wf order" using a by (simp_all add: order_agrees_def order)
  have rest: "rest = bt_remove s order" using bt_remove_first wf order by metis
  have len: "hm_len (hm_remove f m) \<le> DNS_COMPLETED_REVERSE_CAPACITY" using n f by (auto simp: hm_len_remove hm_has_def)
  have "trim_completed m order = trim_completed (hm_remove f m) rest" using False f by (simp add: order)
  also have "\<dots> = Some (hm_remove f m, rest)" using len by (cases rest) auto
  finally have run: "trim_completed m order = Some (hm_remove f m, rest)" .
  have min: "s \<le> r" if "map_of order r = Some g" for r g
    using map_of_SomeD [OF that] wf by (auto simp: order less_imp_le)
  show ?thesis
  proof (rule that [OF run])
    show "order_agrees (hm_remove f m) rest" unfolding rest by (rule order_agrees_remove [OF a f])
    show "hm_len (hm_remove f m) \<le> DNS_COMPLETED_REVERSE_CAPACITY" by (rule len)
    show "\<forall>s f. map_of rest s = Some f \<longrightarrow> map_of order s = Some f" by (simp add: rest map_of_bt_remove)
    show "\<forall>s f r g. map_of order s = Some f \<and> map_of order r = Some g \<and> r < s \<longrightarrow> map_of rest s = Some f"
      using min by (fastforce simp: rest map_of_bt_remove)
  qed
qed

text \<open>The number after the largest one used so far, while the counter has not wrapped around.\<close>

lemma next_number:
  fixes s :: u64
  assumes "unat s < 18446744073709551615"
  shows "unat (max (s + 1) 1) = Suc (unat s)" and "s < max (s + 1) 1"
proof -
  have u: "unat (s + 1) = Suc (unat s)" using assms by (simp add: unat_word_ariths)
  then have "1 \<le> s + 1" by (simp add: word_le_nat_alt)
  then have m: "max (s + 1) 1 = s + 1" by simp
  show "unat (max (s + 1) 1) = Suc (unat s)" by (simp only: m u)
  show "s < max (s + 1) 1" by (simp only: m word_less_nat_alt u)
qed

lemma forget_completed:
  assumes "completed_inv n w"
  shows "completed_inv n (forget_completed_dns_reverse w f)"
    and "\<exists>m order. forget_completed_dns_reverse w f = w\<lparr> dns_completed_reverse := m, dns_completed_order := order \<rparr>"
proof -
  show "\<exists>m order. forget_completed_dns_reverse w f = w\<lparr> dns_completed_reverse := m, dns_completed_order := order \<rparr>"
  proof (cases "hm_get (dns_completed_reverse w) f")
    case None
    then have "forget_completed_dns_reverse w f =
        w\<lparr> dns_completed_reverse := dns_completed_reverse w, dns_completed_order := dns_completed_order w \<rparr>"
      by (simp add: forget_completed_dns_reverse_def)
    then show ?thesis by blast
  qed (auto simp: forget_completed_dns_reverse_def)
  show "completed_inv n (forget_completed_dns_reverse w f)"
  proof (cases "hm_get (dns_completed_reverse w) f")
    case (Some s)
    then show ?thesis
      using assms order_agrees_remove [OF _ Some, of "dns_completed_order w"]
      by (auto simp: forget_completed_dns_reverse_def completed_inv_def map_of_bt_remove hm_len_remove)
  qed (simp add: forget_completed_dns_reverse_def assms)
qed

lemma remember_completed_run:
  assumes inv: "completed_inv n w" and n: "n < 18446744073709551614"
  obtains m order where "remember_completed_dns_reverse w f = Some (w\<lparr> next_dns_completed_sequence :=
        max (next_dns_completed_sequence w + 1) 1, dns_completed_reverse := m, dns_completed_order := order \<rparr>)"
    and "completed_inv (Suc n) (w\<lparr> next_dns_completed_sequence :=
        max (next_dns_completed_sequence w + 1) 1, dns_completed_reverse := m, dns_completed_order := order \<rparr>)"
    and "hm_has m f"
proof -
  let ?s = "next_dns_completed_sequence w" and ?m = "dns_completed_reverse w" and ?o = "dns_completed_order w"
  have a: "order_agrees ?m ?o" and lt: "\<And>s g. map_of ?o s = Some g \<Longrightarrow> s < ?s"
    and len: "hm_len ?m \<le> DNS_COMPLETED_REVERSE_CAPACITY" and nx: "unat ?s \<le> Suc n"
    using inv by (simp_all add: completed_inv_def)
  define o1 where "o1 = (case hm_get ?m f of None \<Rightarrow> ?o | Some previous \<Rightarrow> bt_remove previous ?o)"
  have a1: "order_agrees (hm_remove f ?m) o1"
  proof (cases "hm_get ?m f")
    case None
    then have "hm_get (hm_remove f ?m) = hm_get ?m" by (auto simp: hm_get_remove)
    then show ?thesis using a None by (simp add: o1_def order_agrees_def)
  next
    case (Some s)
    then show ?thesis using order_agrees_remove [OF a Some] by (simp add: o1_def)
  qed
  have lt1: "s < ?s" if "map_of o1 s = Some g" for s g
    using that lt by (auto simp: o1_def map_of_bt_remove split: option.splits if_splits)
  then have "map_of o1 ?s = None" by (cases "map_of o1 ?s") (auto dest: lt1)
  then have "order_agrees (hm_insert f ?s (hm_remove f ?m)) (bt_insert ?s f o1)"
    by (intro order_agrees_insert [OF a1]) (simp_all add: hm_get_remove)
  then have a2: "order_agrees (hm_insert f ?s ?m) (bt_insert ?s f o1)"
    by (simp add: order_agrees_def hm_get_insert hm_get_remove cong: if_cong)
  have wf: "bt_wf o1" using a1 by (simp add: order_agrees_def)
  have len2: "hm_len (hm_insert f ?s ?m) \<le> Suc DNS_COMPLETED_REVERSE_CAPACITY"
    using len by (simp add: hm_len_insert)
  obtain m order where t: "trim_completed (hm_insert f ?s ?m) (bt_insert ?s f o1) = Some (m, order)"
    and am: "order_agrees m order" and lm: "hm_len m \<le> DNS_COMPLETED_REVERSE_CAPACITY"
    and sub: "\<forall>s g. map_of order s = Some g \<longrightarrow> map_of (bt_insert ?s f o1) s = Some g"
    and kept: "\<forall>s g r h. map_of (bt_insert ?s f o1) s = Some g \<and> map_of (bt_insert ?s f o1) r = Some h \<and> r < s \<longrightarrow>
      map_of order s = Some g"
    using trim_completed_run [OF a2 len2] by blast
  show ?thesis
  proof (rule that)
    show "remember_completed_dns_reverse w f = Some (w\<lparr> next_dns_completed_sequence := max (?s + 1) 1,
        dns_completed_reverse := m, dns_completed_order := order \<rparr>)"
      using t by (simp add: remember_completed_dns_reverse_def Let_def o1_def)
    have "unat ?s < 18446744073709551615" using nx n by linarith
    note nn = next_number [OF this]
    have "s < max (?s + 1) 1" if "map_of order s = Some g" for s g
    proof -
      have "map_of (bt_insert ?s f o1) s = Some g" using sub that by blast
      then have "s = ?s \<or> s < ?s" using lt1 [of s g] wf by (auto simp: map_of_bt_insert split: if_splits)
      then show ?thesis using nn(2) by (meson less_trans)
    qed
    then show "completed_inv (Suc n) (w\<lparr> next_dns_completed_sequence := max (?s + 1) 1,
        dns_completed_reverse := m, dns_completed_order := order \<rparr>)"
      using am lm nn(1) nx by (simp add: completed_inv_def)
    have "map_of order ?s = Some f"
    proof (cases o1)
      case Nil
      then have "hm_len (hm_remove f ?m) = 0" using a1 order_agrees_empty by simp
      then have "hm_len (hm_insert f ?s ?m) \<le> DNS_COMPLETED_REVERSE_CAPACITY"
        by (auto simp: hm_len_insert hm_len_remove DNS_COMPLETED_REVERSE_CAPACITY_def split: if_splits)
      then show ?thesis using t Nil by auto
    next
      case (Cons e es)
      then have e: "map_of o1 (fst e) = Some (snd e)" by simp
      then have lte: "fst e < ?s" by (rule lt1)
      then have "map_of (bt_insert ?s f o1) ?s = Some f" "map_of (bt_insert ?s f o1) (fst e) = Some (snd e)"
        using e wf by (simp_all add: map_of_bt_insert)
      then show ?thesis using kept lte by blast
    qed
    then show "hm_has m f" using am by (auto simp: hm_has_def order_agrees_def)
  qed
qed

section \<open>Starting a transaction\<close>

lemma token_translation_fresh:
  assumes inv: "worker_inv ports w" and core: "dns_core vip w"
    and a: "allocate_ephemeral_nat (fw_sessions w) (fw_id w) tok f now = (st', Ok b)"
  shows "hm_get (dns_by_reverse w) (reverse (nb_translated b)) = None"
    and "token_bound st' tok b" and "nb_original b = f"
    and "\<And>t c. token_bound (fw_sessions w) t c \<Longrightarrow> token_bound st' t c"
    and "table_inv ports st' \<and> owner_worker_id st' = fw_id w"
proof -
  let ?st = "fw_sessions w"
  have ow: "owner_worker_id ?st = fw_id w" and ti: "table_inv ports ?st" and tc: "table_core ports ?st"
    using inv by (simp_all add: worker_inv_def table_inv_def)
  obtain nat' where al: "allocate_at (nat_tbl ?st) tok f (own_locator ?st tok) now = (nat', Ok b)"
    and st': "st' = ?st\<lparr> nat_tbl := nat' \<rparr>"
    using a ow by (auto simp: allocate_ephemeral_nat_def ensure_owner_def map_err_eq_Ok split: prod.splits)
  note ni = table_coreD(1) [OF tc]
  have bd: "binding_of (nat_tbl ?st) tok = None" "binding_of nat' = (binding_of (nat_tbl ?st))(tok \<mapsto> b)"
    using snat.alloc_Ok [OF ni al] by simp_all
  show tb: "token_bound st' tok b" "nb_original b = f"
    using fresh_session [OF tc al] bd(2) by (simp_all add: token_bound_def st')
  show "token_bound st' t c" if "token_bound ?st t c" for t c
    using that bd by (auto simp: token_bound_def st')
  show ti': "table_inv ports st' \<and> owner_worker_id st' = fw_id w"
    using table_inv_allocate_ephemeral [OF ti, of "fw_id w" tok f now] a ow by (simp add: st')
  show "hm_get (dns_by_reverse w) (reverse (nb_translated b)) = None"
  proof (rule ccontr)
    assume "hm_get (dns_by_reverse w) (reverse (nb_translated b)) \<noteq> None"
    then obtain k tx where tx: "hm_get (dns_by_key w) k = Some tx" "tx_reverse tx = reverse (nb_translated b)"
      using dns_coreD(4) [OF core] by blast
    have tok: "binding_of (nat_tbl ?st) (dt_token tx) = Some (dt_binding tx)"
      using dns_coreD(2) [OF core tx(1)] by (simp add: token_bound_def)
    then have ne: "dt_token tx \<noteq> tok" using bd(1) by auto
    have ni': "nat_inv ports nat'" using ti' by (simp add: table_inv_def table_core_def st')
    have "nat_key (dt_binding tx) = nat_key b" using tx(2) by (simp add: tx_reverse_def nat_key_def)
    then show False using snat.key_unique [OF ni', of "dt_token tx" "dt_binding tx" tok b] tok bd(2) ne by simp
  qed
qed

lemma insert_dns_inv:
  assumes inv: "dns_inv vip ports n w" and free: "hm_get (dns_by_key w) key = None"
    and rv: "hm_get (dns_by_reverse w) (tx_reverse tx) = None"
    and tb: "token_bound (fw_sessions w) (dt_token tx) (dt_binding tx)" and ok: "dns_tx_ok vip tx"
  shows "dns_inv vip ports n (insert_dns_transaction w key tx)"
proof -
  obtain m order where fg: "forget_completed_dns_reverse w (tx_reverse tx) =
      w\<lparr> dns_completed_reverse := m, dns_completed_order := order \<rparr>"
    and ci: "completed_inv n (w\<lparr> dns_completed_reverse := m, dns_completed_order := order \<rparr>)"
    using forget_completed [of n w "tx_reverse tx"] inv by (auto simp: dns_inv_except_def)
  define w' where "w' = w\<lparr> dns_completed_reverse := m, dns_completed_order := order,
      dns_by_reverse := hm_insert (tx_reverse tx) key (dns_by_reverse w),
      dns_by_key := hm_insert key tx (dns_by_key w),
      dns_deadlines := add_deadline (dns_deadlines w) (dt_expires_at tx) key \<rparr>"
  have wi: "worker_inv ports w" and core: "dns_core vip w" and dl: "dl_inv (dns_deadlines w) (dns_deadline w)"
    using inv by (simp_all add: dns_inv_except_def)
  have "dns_core vip w'"
    unfolding dns_core_def
  proof (intro conjI allI impI)
    fix k t assume k: "hm_get (dns_by_key w') k = Some t"
    show "hm_get (dns_by_reverse w') (tx_reverse t) = Some k"
      using k dns_coreD(1) [OF core, of k t] rv by (auto simp: w'_def hm_get_insert split: if_splits)
    show "token_bound (fw_sessions w') (dt_token t) (dt_binding t)" "dns_tx_ok vip t"
      using k dns_coreD(2,3) [OF core, of k t] tb ok by (auto simp: w'_def hm_get_insert split: if_splits)
  next
    fix r k assume "hm_get (dns_by_reverse w') r = Some k"
    then show "\<exists>t. hm_get (dns_by_key w') k = Some t \<and> tx_reverse t = r"
      using dns_coreD(4) [OF core, of r k] free by (auto simp: w'_def hm_get_insert split: if_splits)
  qed
  moreover have "dns_deadline w' = (dns_deadline w)(key \<mapsto> dt_expires_at tx)"
    by (auto simp: fun_eq_iff dns_deadline_def w'_def hm_get_insert)
  then have "dl_inv (dns_deadlines w') (dns_deadline w')"
    using dl_inv_add [OF dl, of key "dt_expires_at tx"] free by (simp add: w'_def dns_deadline_def)
  moreover have "worker_inv ports w'" "completed_inv n w'"
    using wi ci by (simp_all add: worker_inv_def completed_inv_def w'_def)
  ultimately have "dns_inv vip ports n w'" by (simp add: dns_inv_except_def)
  then show ?thesis
    using fg by (simp add: insert_dns_transaction_def Let_def w'_def tx_reverse_def)
qed

section \<open>Queries\<close>

text \<open>A packet that may become a transaction: to the virtual resolver, with a complete header.\<close>

definition dns_query_packet :: "socket_addr \<Rightarrow> bytes \<Rightarrow> flow_key \<Rightarrow> bytes \<Rightarrow> bool" where
  "dns_query_packet vip p f s \<longleftrightarrow> parse_flow_key p = Ok f \<and> protocol f = Udp \<and>
    destination f = sock_ip vip \<and> destination_port f = sock_port vip \<and>
    udp_payload p = Ok s \<and> 12 \<le> length s \<and> length s \<le> DNS_PAYLOAD_MAX"

lemma servfail_no_panic:
  assumes f: "parse_flow_key p = Ok f" and udp: "protocol f = Udp" and vip: "destination f = sock_ip vip"
  shows "dns_servfail_transmit_to_listen tgt p f vip \<noteq> Panic"
proof (cases "ensure_udp_payload_len p 12")
  case (Ok q)
  have "same_family (destination f) (sock_ip vip)" by (simp add: vip)
  from servfail_run [OF f udp this Ok, of tgt] show ?thesis by (metis result.distinct(3))
next
  case Panic
  then show ?thesis using ensure_no_panic by metis
qed (simp add: dns_servfail_transmit_to_listen_def)

lemma refuse_query_safe:
  assumes P: "P (bump count_servfail w)" and f: "parse_flow_key p = Ok f" and udp: "protocol f = Udp"
    and vip: "destination f = sock_ip (listen config)"
  shows "safe P (refuse_query w io p f config)"
  unfolding refuse_query_def dns_servfail_transmit_def
  by (rule safe_do_pkt, rule P, rule servfail_no_panic [OF f udp vip]) (simp add: safe_def P)

lemma rewrite_dns_query_no_panic [no_panic]: "rewrite_dns_query p tx \<noteq> Panic"
  by (simp add: rewrite_dns_query_def and_then_eq_Panic rewrite_packet_no_panic)

lemma alloc_token_no_panic: "snd (allocate_ephemeral_nat st caller tok f now) \<noteq> Panic"
  using snat.alloc_total [of "nat_tbl st" tok f "own_locator st tok" now]
  by (auto simp: allocate_ephemeral_nat_def ensure_owner_def map_err_eq_Panic split: prod.split)

lemma alloc_token_session_only:
  assumes inv: "worker_inv ports w" and core: "dns_core vip w"
  shows "session_only ports w (w\<lparr> fw_sessions := fst (allocate_ephemeral_nat (fw_sessions w) (fw_id w) tok f now) \<rparr>)"
proof (rule session_only_step [OF inv step_alloc_token])
  obtain st' r where a: "allocate_ephemeral_nat (fw_sessions w) (fw_id w) tok f now = (st', r)" by fastforce
  have ow: "owner_worker_id (fw_sessions w) = fw_id w" using inv by (simp add: worker_inv_def)
  have "token_kept (fw_sessions w) st'"
  proof (cases r)
    case (Ok b)
    then show ?thesis using token_translation_fresh(4) [OF inv core, of tok f now st' b] a by (simp add: token_kept_def)
  next
    case (Err e)
    then have "binding_of (nat_tbl st') = binding_of (nat_tbl (fw_sessions w))" "sessions st' = sessions (fw_sessions w)"
      using a ow snat.alloc_Err
      by (auto simp: allocate_ephemeral_nat_def ensure_owner_def map_err_eq_Err split: prod.splits)
    then show ?thesis by (simp add: token_kept_def token_bound_def)
  next
    case Panic
    then show ?thesis using a alloc_token_no_panic by (metis snd_conv)
  qed
  then show "token_kept (fw_sessions w) (fst (allocate_ephemeral_nat (fw_sessions w) (fw_id w) tok f now))"
    by (simp add: a)
qed

lemma next_token_inv:
  "dns_inv_except X vip ports n (fst (next_dns_session_token w)) = dns_inv_except X vip ports n w"
  by (simp add: next_dns_session_token_def dns_inv_except_def worker_inv_def dns_core_def
      completed_inv_def dns_deadline_def cong: if_cong)

lemma start_dns_inv:
  assumes inv: "dns_inv vip ports n w" and free: "hm_get (dns_by_key w) key = None"
    and q: "dns_query_packet vip p f s" and cfg: "listen config = vip"
  shows "safe (dns_inv vip ports n) (start_dns_transaction w io p f config key resolver is_remote now nat_now)"
proof -
  obtain w1 tok where nt: "next_dns_session_token w = (w1, tok)" by fastforce
  define sel where "sel = \<lparr> source = source f, destination = sock_ip resolver, source_port = source_port f,
      destination_port = sock_port resolver, protocol = Udp \<rparr>"
  obtain st' r where a: "allocate_ephemeral_nat (fw_sessions w1) (fw_id w1) tok sel nat_now = (st', r)"
    by fastforce
  have i1: "dns_inv vip ports n w1" using inv next_token_inv [of "{}" vip ports n w] nt by simp
  then have wi: "worker_inv ports w1" and core: "dns_core vip w1" by (simp_all add: dns_inv_except_def)
  have i2: "dns_inv vip ports n (w1\<lparr> fw_sessions := st' \<rparr>)"
    using dns_inv_session_only [OF i1 alloc_token_session_only [OF wi core, of tok sel nat_now]] a by simp
  have free1: "hm_get (dns_by_key w1) key = None" using free nt by (auto simp: next_dns_session_token_def)
  note fr = token_translation_fresh [OF wi core, of tok sel nat_now st']
  show ?thesis
  proof (cases r)
    case (Ok b)
    define tx where "tx = \<lparr> dt_token = tok, dt_client = \<lparr> sock_ip = source f, sock_port = source_port f \<rparr>,
      dt_vip = listen config, dt_binding = b, dt_target = io, dt_remote = is_remote,
      dt_created_at = now, dt_expires_at = now + query_timeout config, dt_packet = p \<rparr>"
    have run: "start_dns_transaction w io p f config key resolver is_remote now nat_now =
        pkt (insert_dns_transaction (w1\<lparr> fw_sessions := st' \<rparr>) key tx) (rewrite_dns_query p tx)"
      using nt a Ok by (simp add: start_dns_transaction_def on_sessions_def sel_def tx_def Let_def)
    have "dns_tx_ok vip tx"
      using q fr(3) [of b] a Ok by (simp add: dns_tx_ok_def dns_query_packet_def tx_def cfg sel_def)
    then have "dns_inv vip ports n (insert_dns_transaction (w1\<lparr> fw_sessions := st' \<rparr>) key tx)"
      using fr(1,2) [of b] a Ok free1 by (intro insert_dns_inv [OF i2]) (simp_all add: tx_def tx_reverse_def)
    then show ?thesis unfolding run by (intro safe_pkt rewrite_dns_query_no_panic)
  next
    case (Err e)
    have run: "start_dns_transaction w io p f config key resolver is_remote now nat_now =
        (if e = NatFailure PortRangeExhausted then refuse_query (bump (\<lambda>s. s\<lparr> dns_nat_exhausted :=
           dns_nat_exhausted s + 1 \<rparr>) (w1\<lparr> fw_sessions := st' \<rparr>)) io p f config
         else (w1\<lparr> fw_sessions := st' \<rparr>, Err (SessionFailure e)))"
      using nt a Err by (simp add: start_dns_transaction_def on_sessions_def sel_def)
    show ?thesis
      unfolding run using q i2 cfg
      by (auto intro!: refuse_query_safe safe_pair simp: dns_query_packet_def)
  next
    case Panic
    then show ?thesis using a alloc_token_no_panic by (metis snd_conv)
  qed
qed

lemma dns_inv_count_fallback [simp]:
  "dns_inv_except X vip ports n (count_fallback w route) = dns_inv_except X vip ports n w"
  by (simp add: count_fallback_def)

lemma admit_dns_inv:
  assumes inv: "dns_inv vip ports n w" and free: "hm_get (dns_by_key w) key = None"
    and q: "dns_query_packet vip p f s" and cfg: "listen config = vip"
  shows "safe (dns_inv vip ports n) (admit_dns_query w io p f config key route now nat_now)"
proof -
  have refuse: "safe (dns_inv vip ports n) (refuse_query w' io p f config)" if "dns_inv vip ports n w'" for w'
    using that q cfg by (intro refuse_query_safe) (simp_all add: dns_query_packet_def)
  have "hm_get (dns_by_key (count_fallback w route)) key = None" using free by (simp add: count_fallback_def bump_def)
  then have "safe (dns_inv vip ports n) (start_dns_transaction (count_fallback w route) io p f config key resolver is_remote now nat_now)"
    for resolver is_remote using inv by (intro start_dns_inv [OF _ _ q cfg]) simp_all
  then show ?thesis using refuse inv by (simp add: admit_dns_query_def Let_def split: prod.split)
qed

lemma route_dns_inv:
  assumes inv: "dns_inv vip ports n w" and q: "dns_query_packet vip p f s" and cfg: "listen config = vip"
  shows "safe (dns_inv vip ports n) (route_dns_query w io p s malformed f config now nat_now)"
  unfolding route_dns_query_def Let_def
proof (rule safe_do, rule inv, rule transaction_key_no_panic)
  fix dns
  let ?key = "\<lparr> dk_owner = io, dk_dns = dns \<rparr>"
  have new: "safe (dns_inv vip ports n) (st_then (w, if malformed then Ok LocalFallback
      else classify_query s (remote_domains config)) (\<lambda>w route. admit_dns_query w io p f config ?key route now nat_now))"
    if "hm_get (dns_by_key w) ?key = None"
    by (rule safe_do, rule inv) (simp_all add: classify_query_no_panic admit_dns_inv [OF inv that q cfg])
  show "safe (dns_inv vip ports n) (case hm_get (dns_by_key w) ?key of
      None \<Rightarrow> st_then (w, if malformed then Ok LocalFallback else classify_query s (remote_domains config))
        (\<lambda>w route. admit_dns_query w io p f config ?key route now nat_now)
    | Some tx \<Rightarrow> pkt w (rewrite_dns_query p tx))"
    using new inv by (cases "hm_get (dns_by_key w) ?key") (simp_all add: safe_pkt rewrite_dns_query_no_panic)
qed

lemma examine_dns_inv:
  assumes i: "dns_inv vip ports n w" and q: "parse_flow_key q = Ok f" "udp_payload q = Ok s"
    "length s \<le> DNS_PAYLOAD_MAX" and f: "protocol f = Udp" "destination f = sock_ip vip" "destination_port f = sock_port vip"
    and cfg: "listen config = vip"
  shows "safe (dns_inv vip ports n) (examine_dns_query w io q c f config now nat_now)"
proof (cases "parse_question s")
  case (Ok question)
  then have "12 \<le> length s" by (auto simp: parse_question_def and_then_eq_Ok dns_header_Ok)
  then show ?thesis
    using Ok q f i by (simp add: examine_dns_query_def route_dns_inv cfg dns_query_packet_def)
next
  case Panic
  then show ?thesis using parse_question_no_panic by metis
next
  case (Err e)
  then show ?thesis using q i f cfg by (simp add: examine_dns_query_def refuse_query_safe)
qed

lemma clamp_then_examine:
  assumes i: "dns_inv vip ports n w" and p: "parse_flow_key p = Ok f" "udp_payload p = Ok s"
    "length s \<le> DNS_PAYLOAD_MAX" and f: "protocol f = Udp" "destination f = sock_ip vip" "destination_port f = sock_port vip"
    and cfg: "listen config = vip"
  shows "safe (dns_inv vip ports n) (st_then (pkt w (edns_clamp_packet p)) (\<lambda>w (packet, clamped).
    examine_dns_query (count_clamped w clamped) io packet clamped f config now nat_now))"
proof (rule edns_clamp_run [OF p(1) f(1)])
  fix q c s'
  assume q: "edns_clamp_packet p = Ok (q, c)" "parse_flow_key q = Ok f" "udp_payload p = Ok s'"
    "udp_payload q = Ok (if c = Some True then fst (clamp_edns_udp_payload s') else s')"
  have "length (fst (clamp_edns_udp_payload s')) = length s'" using clamp_edns_length by (metis prod.collapse)
  then have "length (if c = Some True then fst (clamp_edns_udp_payload s') else s') \<le> DNS_PAYLOAD_MAX"
    using p q(3) by simp
  moreover have "dns_inv vip ports n (count_clamped w c)" using i by (simp add: count_clamped_def)
  ultimately show ?thesis using examine_dns_inv [OF _ q(2,4) _ f cfg] q(1) by simp
qed

lemma handle_dns_query_inv:
  assumes inv: "dns_inv vip ports n w" and cfg: "listen config = vip"
  shows "safe (dns_inv vip ports n) (handle_dns_query_at w io packet config now nat_now)"
  unfolding handle_dns_query_at_def
proof (rule safe_do_pkt, rule inv, rule prepare_no_panic, rule safe_do_pkt, rule inv, rule parse_flow_key_no_panic,
    rule safe_if, rule safe_pair, rule inv, simp)
  fix p f
  assume f: "parse_flow_key p = Ok f"
    and "\<not> (protocol f \<noteq> Udp \<or> destination f \<noteq> sock_ip (listen config) \<or> destination_port f \<noteq> sock_port (listen config))"
  then have fv: "protocol f = Udp" "destination f = sock_ip vip" "destination_port f = sock_port vip" by (simp_all add: cfg)
  have refuse: "safe (dns_inv vip ports n) (refuse_query w io p f config)"
    using f fv inv cfg by (intro refuse_query_safe) simp_all
  show "safe (dns_inv vip ports n) (st_then (pkt w (ip_packet_is_fragmented p)) (\<lambda>w fragmented.
          if fragmented then refuse_query w io p f config
          else st_then (pkt w (udp_payload p)) (\<lambda>w payload.
              if DNS_PAYLOAD_MAX < length payload then refuse_query w io p f config
              else st_then (pkt w (edns_clamp_packet p)) (\<lambda>w (packet, clamped).
                examine_dns_query (count_clamped w clamped) io packet clamped f config now nat_now))))"
    by (rule safe_do_pkt, rule inv, rule ip_packet_is_fragmented_no_panic, rule safe_if, rule refuse,
        rule safe_do_pkt, rule inv, rule udp_payload_no_panic, rule safe_if, rule refuse,
        rule clamp_then_examine [OF inv f _ _ fv cfg]) (simp_all add: not_less)
qed

end
