(* ===== verification/Dns_Worker.thy ===== *)
theory Dns_Worker
  imports Dns_Invariant
begin

text \<open>
  What the DNS handlers of a worker produce in a state that satisfies the invariant: answers
  to responses, SERVFAIL for expired and aborted transactions, and forwarded queries
  (\<open>flow_plane/worker.rs\<close>).
\<close>

section \<open>Answers to a stored query\<close>

text \<open>The flow of every packet that answers a transaction: from the virtual resolver to the client.\<close>

definition tx_answer :: "dns_flow_transaction \<Rightarrow> flow_key" where
  "tx_answer tx = \<lparr> source = sock_ip (dt_vip tx), destination = sock_ip (dt_client tx),
     source_port = sock_port (dt_vip tx), destination_port = sock_port (dt_client tx), protocol = Udp \<rparr>"

definition servfail_answer :: "dns_flow_transaction \<Rightarrow> bytes \<Rightarrow> bool" where
  "servfail_answer tx p \<longleftrightarrow> parse_flow_key p = Ok (tx_answer tx) \<and> validate_packet_checksums p = Ok () \<and>
    (\<exists>s s'. udp_payload (dt_packet tx) = Ok s \<and> servfail_payload s = Ok s' \<and> udp_payload p = Ok s')"

lemma ensure_enough:
  assumes f: "parse_flow_key p = Ok f" "protocol f = Udp" and s: "udp_payload p = Ok s" "n \<le> length s"
  shows "ensure_udp_payload_len p n = Ok p"
proof (rule parse_udp_meta [OF f])
  fix o' t
  assume m: "transport_metadata p = Ok (IP_PROTOCOL_UDP, o', t)" "validate_udp_layout p o' t = Ok (t - o')"
    and r: "udp_payload_range p = Ok (o' + 8, t)" "o' + 8 \<le> t" "t \<le> length p"
  have "length s = t - o' - 8" using s(1) r by (simp add: udp_payload_Ok)
  then show ?thesis using s(2) r(2) by (simp add: ensure_udp_payload_len_def m csub_in)
qed

lemma tx_servfail_run:
  assumes ok: "dns_tx_ok vip tx"
  obtains f t where "parse_flow_key (dt_packet tx) = Ok f"
    and "dns_servfail_transmit_to_listen (dt_target tx) (dt_packet tx) f vip = Ok t"
    and "target t = dt_target tx" and "servfail_answer tx (tx_packet t)"
proof -
  obtain f s where f: "parse_flow_key (dt_packet tx) = Ok f" "protocol f = Udp" "destination f = sock_ip vip"
    and c: "dt_client tx = \<lparr> sock_ip = source f, sock_port = source_port f \<rparr>" "dt_vip tx = vip"
    and s: "udp_payload (dt_packet tx) = Ok s" "12 \<le> length s"
    using ok by (auto simp: dns_tx_ok_def)
  have sf: "same_family (destination f) (sock_ip vip)" by (simp add: f(3))
  have an: "tx_answer tx = servfail_flow f vip" by (simp add: tx_answer_def servfail_flow_def c)
  show ?thesis
  proof (rule servfail_run [OF f(1,2) sf ensure_enough [OF f(1,2) s], of "dt_target tx"])
    fix t s1 s'
    assume t: "dns_servfail_transmit_to_listen (dt_target tx) (dt_packet tx) f vip = Ok t" "target t = dt_target tx"
      "parse_flow_key (tx_packet t) = Ok (servfail_flow f vip)" "validate_packet_checksums (tx_packet t) = Ok ()"
      "udp_payload (dt_packet tx) = Ok s1" "servfail_payload s1 = Ok s'" "udp_payload (tx_packet t) = Ok s'"
    have "servfail_answer tx (tx_packet t)" using t(3-7) an by (simp add: servfail_answer_def)
    then show ?thesis using that f(1) t(1,2) by blast
  qed
qed

lemma servfail_for_run:
  assumes "dns_tx_ok vip tx" and "listen config = vip"
  obtains e where "servfail_for_transaction tx config = Ok e" and "ex_binding e = dt_binding tx"
    and "ex_transaction e = dt_token tx" and "target (ex_transmit e) = dt_target tx"
    and "servfail_answer tx (tx_packet (ex_transmit e))"
proof (rule tx_servfail_run [OF assms(1)])
  fix f t
  assume "parse_flow_key (dt_packet tx) = Ok f"
    "dns_servfail_transmit_to_listen (dt_target tx) (dt_packet tx) f vip = Ok t"
    "target t = dt_target tx" "servfail_answer tx (tx_packet t)"
  then show ?thesis
    using that [of "\<lparr> ex_transmit = t, ex_binding = dt_binding tx, ex_transaction = dt_token tx \<rparr>"] assms(2)
    by (simp add: servfail_for_transaction_def dns_servfail_transmit_def)
qed

section \<open>Responses\<close>

text \<open>What a response packet turns into: itself readdressed, or SERVFAIL when it is too long.\<close>

definition answered :: "dns_flow_transaction \<Rightarrow> bytes \<Rightarrow> bytes \<Rightarrow> bool" where
  "answered tx payload out \<longleftrightarrow>
    (if DNS_PAYLOAD_MAX < length payload then servfail_answer tx out
     else parse_flow_key out = Ok (tx_answer tx) \<and> validate_packet_checksums out = Ok () \<and> udp_payload out = Ok payload)"

lemma binding_families:
  assumes inv: "nat_inv ports t" and b: "binding_of t i = Some b"
  shows "same_family (source (nb_original b)) (source (nb_translated b)) \<and>
    protocol (nb_translated b) = protocol (nb_original b)"
proof -
  have "binding_ok ports t b" using nat_invD(4) [OF inv] b by (simp add: binding_of_def)
  then obtain ip where ip: "snat_ip_for t (nb_original b) = Some ip"
    and tr: "nb_translated b = translate_flow ip (source_port (nb_translated b)) (nb_original b)"
    by (auto simp: binding_ok_def)
  have "same_family (source (nb_original b)) ip"
    using ip by (auto simp: snat_ip_for_def same_family_def split: ip_addr.splits)
  then show ?thesis by (subst (1 2) tr) (simp add: translate_flow_def)
qed

lemma response_translatable:
  assumes inv: "worker_inv ports w" and core: "dns_core vip w" and tx: "hm_get (dns_by_key w) key = Some tx"
    and p: "parse_flow_key p = Ok (tx_reverse tx)"
  shows "translatable (tx_reverse tx) (tx_answer tx)"
proof -
  obtain f where f: "parse_flow_key (dt_packet tx) = Ok f" "dt_vip tx = vip" "destination f = sock_ip vip"
    "dt_client tx = \<lparr> sock_ip = source f, sock_port = source_port f \<rparr>" "source (nb_original (dt_binding tx)) = source f"
    "protocol (nb_original (dt_binding tx)) = Udp"
    using dns_coreD(3) [OF core tx] by (auto simp: dns_tx_ok_def)
  have "same_family (source (nb_original (dt_binding tx))) (source (nb_translated (dt_binding tx))) \<and>
      protocol (nb_translated (dt_binding tx)) = protocol (nb_original (dt_binding tx))"
    using binding_families [of ports "nat_tbl (fw_sessions w)" "dt_token tx"] dns_coreD(2) [OF core tx] inv
    by (simp add: token_bound_def worker_inv_def table_inv_def table_core_def)
  moreover have "same_family (source f) (destination f)" "same_family (source (tx_reverse tx)) (destination (tx_reverse tx))"
    using parse_families [OF f(1)] parse_families [OF p] by simp_all
  ultimately show ?thesis using f
    by (auto simp: translatable_def tx_answer_def tx_reverse_def reverse_def same_family_def split: ip_addr.splits)
qed

lemma deliver_run:
  assumes ok: "dns_tx_ok vip tx" and p: "parse_flow_key p = Ok (tx_reverse tx)" "udp_payload p = Ok payload"
    and tr: "translatable (tx_reverse tx) (tx_answer tx)"
  obtains g h where "deliver_dns_response w p payload tx = (bump g w, Ok (Some h))" and "dr_target h = dt_target tx"
    and "dr_binding h = dt_binding tx" and "dr_transaction h = dt_token tx" and "answered tx payload (dr_packet h)"
proof (cases "DNS_PAYLOAD_MAX < length payload")
  case True
  have vip: "dt_vip tx = vip" using ok by (simp add: dns_tx_ok_def)
  show ?thesis
  proof (rule tx_servfail_run [OF ok])
    fix f t
    assume t: "parse_flow_key (dt_packet tx) = Ok f" "target t = dt_target tx" "servfail_answer tx (tx_packet t)"
      "dns_servfail_transmit_to_listen (dt_target tx) (dt_packet tx) f vip = Ok t"
    show ?thesis
      by (rule that [of count_servfail "\<lparr> dr_target = dt_target tx, dr_packet = tx_packet t,
            dr_binding = dt_binding tx, dr_transaction = dt_token tx \<rparr>"])
        (use True t vip in \<open>simp_all add: deliver_dns_response_def answered_def\<close>)
  qed
next
  case False
  obtain q where q: "rewrite_packet p (tx_answer tx) = Ok q" "rewritten p (tx_answer tx) q"
    using rewrite_packet_run [OF p(1) tr] by blast
  have "echo_kind (tx_answer tx)" "protocol (tx_answer tx) = Udp" by (simp_all add: echo_kind_def tx_answer_def)
  then have "answered tx payload q" using q(2) False p(2) by (simp add: rewritten_def answered_def)
  with False q(1) show ?thesis
    by (intro that [of _ "\<lparr> dr_target = dt_target tx, dr_packet = q, dr_binding = dt_binding tx, dr_transaction = dt_token tx \<rparr>"])
      (simp_all add: deliver_dns_response_def Let_def tx_answer_def)
qed

text \<open>The transaction is gone, and its return flow is remembered.\<close>

definition completed :: "flow_worker \<Rightarrow> dns_flow_transaction_key \<Rightarrow> dns_flow_transaction \<Rightarrow> flow_worker \<Rightarrow> bool" where
  "completed w key tx w' \<longleftrightarrow>
    hm_get (dns_by_key w') = (hm_get (dns_by_key w))(key := None) \<and>
    hm_get (dns_by_reverse w') = (hm_get (dns_by_reverse w))(tx_reverse tx := None) \<and>
    binding_of (nat_tbl (fw_sessions w')) (dt_token tx) = None \<and>
    hm_has (dns_completed_reverse w') (tx_reverse tx)"

lemma complete_dns_run:
  assumes inv: "dns_inv vip ports n w" and n: "n < 18446744073709551614"
    and tx: "hm_get (dns_by_key w) key = Some tx" and p: "parse_flow_key p = Ok (tx_reverse tx)" "udp_payload p = Ok payload"
  obtains w' h where "complete_dns_response w key (tx_reverse tx) p payload now = (w', Ok (Some h))"
    and "dns_inv vip ports (Suc n) w'" and "completed w key tx w'" and "dr_target h = dt_target tx"
    and "dr_binding h = dt_binding tx" and "dr_transaction h = dt_token tx" and "answered tx payload (dr_packet h)"
proof -
  have wi: "worker_inv ports w" and core: "dns_core vip w" using inv by (simp_all add: dns_inv_except_def)
  obtain w1 where r1: "remove_dns_transaction w key now = (w1, Ok (Some tx))" and i1: "dns_inv vip ports n w1"
    and rm: "removed w key tx w1"
    using remove_dns_run [OF inv tx, of now] by auto
  have ci: "completed_inv n w1" using i1 by (simp add: dns_inv_except_def)
  obtain m order where r2: "remember_completed_dns_reverse w1 (tx_reverse tx) = Some (w1\<lparr> next_dns_completed_sequence :=
        max (next_dns_completed_sequence w1 + 1) 1, dns_completed_reverse := m, dns_completed_order := order \<rparr>)"
    and c2: "completed_inv (Suc n) (w1\<lparr> next_dns_completed_sequence :=
        max (next_dns_completed_sequence w1 + 1) 1, dns_completed_reverse := m, dns_completed_order := order \<rparr>)"
    and has: "hm_has m (tx_reverse tx)"
    using remember_completed_run [OF ci n] by metis
  define w2 where "w2 = w1\<lparr> next_dns_completed_sequence := max (next_dns_completed_sequence w1 + 1) 1,
      dns_completed_reverse := m, dns_completed_order := order \<rparr>"
  have i2: "dns_inv vip ports (Suc n) w2"
    using i1 c2 unfolding w2_def
    by (simp add: dns_inv_except_def worker_inv_def dns_core_def dns_deadline_def cong: if_cong)
  obtain g h where d: "deliver_dns_response (set_active w2) p payload tx = (bump g (set_active w2), Ok (Some h))"
    "dr_target h = dt_target tx" "dr_binding h = dt_binding tx" "dr_transaction h = dt_token tx"
    "answered tx payload (dr_packet h)"
    using deliver_run [OF dns_coreD(3) [OF core tx] p response_translatable [OF wi core tx p(1)]] by metis
  show ?thesis
  proof (rule that [of "bump g (set_active w2)" h])
    show "complete_dns_response w key (tx_reverse tx) p payload now = (bump g (set_active w2), Ok (Some h))"
      using r1 r2 d(1) by (simp add: complete_dns_response_def w2_def)
    show "completed w key tx (bump g (set_active w2))"
      using rm has by (simp add: completed_def removed_def bump_def set_active_def w2_def)
  qed (use i2 d in simp_all)
qed

definition response_done ::
  "flow_worker \<Rightarrow> bytes \<Rightarrow> flow_worker \<Rightarrow> handled_dns_response \<Rightarrow> bool" where
  "response_done w packet w' h \<longleftrightarrow>
    (\<exists>key tx p payload query u. hm_get (dns_by_key w) key = Some tx \<and> prepare_forwarded_packet packet = Ok p \<and>
       parse_flow_key p = Ok (tx_reverse tx) \<and> udp_payload p = Ok payload \<and>
       udp_payload (dt_packet tx) = Ok query \<and> response_matches_query query payload = Ok u \<and>
       completed w key tx w' \<and> dr_target h = dt_target tx \<and> dr_binding h = dt_binding tx \<and>
       dr_transaction h = dt_token tx \<and> answered tx payload (dr_packet h))"

definition response_ok ::
  "socket_addr \<Rightarrow> u16 set \<Rightarrow> nat \<Rightarrow> flow_worker \<Rightarrow> bytes \<Rightarrow>
   flow_worker \<times> (handled_dns_response option, flow_worker_error) result \<Rightarrow> bool" where
  "response_ok vip ports n w packet m \<longleftrightarrow> safe (dns_inv vip ports (Suc n)) m \<and>
    (\<forall>h. snd m = Ok (Some h) \<longrightarrow> response_done w packet (fst m) h)"

lemma response_ok_do:
  assumes "dns_inv vip ports n w" and "r \<noteq> Panic" and "\<And>x. r = Ok x \<Longrightarrow> response_ok vip ports n w packet (f w x)"
  shows "response_ok vip ports n w packet (st_then (pkt w r) f)"
  using assms dns_inv_mono [OF assms(1), of "Suc n"] by (cases r) (simp_all add: response_ok_def safe_def)

lemma response_ok_drop:
  assumes "dns_inv vip ports n w"
  shows "response_ok vip ports n w packet (spoofed w)"
    and "response_ok vip ports n w packet (bump g w, Ok None)"
  using dns_inv_mono [OF assms, of "Suc n"] by (simp_all add: response_ok_def safe_def spoofed_def)

lemma matched_response:
  assumes inv: "dns_inv vip ports n w" and n: "n < 18446744073709551614"
    and p: "prepare_forwarded_packet packet = Ok p" "parse_flow_key p = Ok (tx_reverse tx)" "udp_payload p = Ok payload"
    and tx: "hm_get (dns_by_key w) key = Some tx" and q: "udp_payload (dt_packet tx) = Ok query"
  shows "response_ok vip ports n w packet (case response_matches_query query payload of
    Panic \<Rightarrow> (w, Panic) | Err _ \<Rightarrow> spoofed w
  | Ok _ \<Rightarrow> complete_dns_response w key (tx_reverse tx) p payload now)"
proof (cases "response_matches_query query payload")
  case (Ok u)
  show ?thesis
  proof (rule complete_dns_run [OF inv n tx p(2,3), of now])
    fix w' h
    assume "complete_dns_response w key (tx_reverse tx) p payload now = (w', Ok (Some h))"
      "dns_inv vip ports (Suc n) w'" "completed w key tx w'" "dr_target h = dt_target tx"
      "dr_binding h = dt_binding tx" "dr_transaction h = dt_token tx" "answered tx payload (dr_packet h)"
    moreover from this have "response_done w packet w' h"
      unfolding response_done_def using p tx q Ok by blast
    ultimately show ?thesis using Ok by (simp add: response_ok_def safe_def)
  qed
next
  case Panic
  then show ?thesis using response_matches_query_no_panic by metis
qed (simp add: response_ok_drop [OF inv])

lemma located_response:
  assumes inv: "dns_inv vip ports n w" and n: "n < 18446744073709551614"
    and p: "prepare_forwarded_packet packet = Ok p" "parse_flow_key p = Ok flow"
  shows "response_ok vip ports n w packet (case hm_get (dns_by_reverse w) flow of
      None \<Rightarrow>
        if hm_has (dns_completed_reverse w) flow
        then (bump (\<lambda>s. s\<lparr> dns_late_response_drop := dns_late_response_drop s + 1 \<rparr>) w, Ok None)
        else spoofed w
    | Some key \<Rightarrow>
       (case hm_get (dns_by_key w) key of
          None \<Rightarrow> spoofed w
        | Some tx \<Rightarrow>
            st_then (pkt w (udp_payload p)) (\<lambda>w payload.
            st_then (pkt w (udp_payload (dt_packet tx))) (\<lambda>w query.
              case response_matches_query query payload of
                Panic \<Rightarrow> (w, Panic)
              | Err _ \<Rightarrow> spoofed w
              | Ok _ \<Rightarrow> complete_dns_response w key flow p payload now))))"
proof (cases "hm_get (dns_by_reverse w) flow")
  case (Some key)
  have core: "dns_core vip w" using inv by (simp add: dns_inv_except_def)
  obtain tx where tx: "hm_get (dns_by_key w) key = Some tx" "tx_reverse tx = flow"
    using dns_coreD(4) [OF core Some] by blast
  have "response_ok vip ports n w packet (st_then (pkt w (udp_payload p)) (\<lambda>w payload.
      st_then (pkt w (udp_payload (dt_packet tx))) (\<lambda>w query.
        case response_matches_query query payload of Panic \<Rightarrow> (w, Panic) | Err _ \<Rightarrow> spoofed w
        | Ok _ \<Rightarrow> complete_dns_response w key flow p payload now)))"
    using p tx by (intro response_ok_do [OF inv] udp_payload_no_panic)
      (auto intro: matched_response [OF inv n p(1) _ _ tx(1)])
  then show ?thesis using Some tx(1) by simp
qed (simp add: response_ok_drop [OF inv])

lemma handle_dns_response_ok:
  assumes inv: "dns_inv vip ports n w" and n: "n < 18446744073709551614"
  shows "response_ok vip ports n w packet (handle_dns_response w packet now)"
  unfolding handle_dns_response_def
  by (rule response_ok_do [OF inv ip_packet_is_fragmented_no_panic], simp split: if_split,
      intro conjI impI response_ok_drop [OF inv], rule response_ok_do [OF inv prepare_no_panic],
      rule response_ok_do [OF inv parse_flow_key_no_panic], rule located_response [OF inv n])

section \<open>Expiry and abort\<close>

text \<open>The entry that the loop returns for a transaction.\<close>

definition tx_failed :: "dns_flow_transaction \<Rightarrow> expired_dns_transaction \<Rightarrow> bool" where
  "tx_failed tx e \<longleftrightarrow> ex_binding e = dt_binding tx \<and> ex_transaction e = dt_token tx \<and>
    target (ex_transmit e) = dt_target tx \<and> servfail_answer tx (tx_packet (ex_transmit e))"

text \<open>Transactions that are gone from the index, with their tokens released.\<close>

definition dropped :: "flow_worker \<Rightarrow> dns_flow_transaction_key set \<Rightarrow> flow_worker \<Rightarrow> bool" where
  "dropped w K w' \<longleftrightarrow>
    (\<forall>k. hm_get (dns_by_key w') k = (if k \<in> K then None else hm_get (dns_by_key w) k)) \<and>
    (\<forall>k tx. k \<in> K \<and> hm_get (dns_by_key w) k = Some tx \<longrightarrow> binding_of (nat_tbl (fw_sessions w')) (dt_token tx) = None) \<and>
    (\<forall>t. binding_of (nat_tbl (fw_sessions w)) t = None \<longrightarrow> binding_of (nat_tbl (fw_sessions w')) t = None)"

lemma dropped_step:
  assumes "removed w key tx w1" and "hm_get (dns_by_key w) key = Some tx" and "dropped w1 K w'" and "key \<notin> K"
  shows "dropped w (insert key K) w'"
proof -
  have r: "hm_get (dns_by_key w1) = (hm_get (dns_by_key w))(key := None)"
    "binding_of (nat_tbl (fw_sessions w1)) = (binding_of (nat_tbl (fw_sessions w)))(dt_token tx := None)"
    using assms(1) by (simp_all add: removed_def)
  have d: "hm_get (dns_by_key w') k = (if k \<in> K then None else hm_get (dns_by_key w1) k)"
    "k \<in> K \<Longrightarrow> hm_get (dns_by_key w1) k = Some t \<Longrightarrow> binding_of (nat_tbl (fw_sessions w')) (dt_token t) = None"
    "binding_of (nat_tbl (fw_sessions w1)) i = None \<Longrightarrow> binding_of (nat_tbl (fw_sessions w')) i = None" for k t i
    using assms(3) by (simp_all add: dropped_def)
  have "binding_of (nat_tbl (fw_sessions w')) (dt_token t) = None"
    if "k \<in> insert key K" "hm_get (dns_by_key w) k = Some t" for k t
    using that d(2) [of k t] d(3) [of "dt_token t"] assms(2,4) by (cases "k = key") (auto simp: r)
  then show ?thesis using d(1,3) by (auto simp: dropped_def r)
qed

lemma dropped_bump [simp]: "dropped (bump g w) K w' \<longleftrightarrow> dropped w K w'" "dropped w K (bump g w') \<longleftrightarrow> dropped w K w'"
  by (simp_all add: dropped_def bump_def)

lemma servfail_each_run:
  assumes "dns_inv_except X vip ports n w" and "distinct keys" and "listen config = vip"
    and "\<forall>k\<in>set keys. hm_get (dns_by_key w) k \<noteq> None"
  shows "\<exists>w' es. servfail_each count w config clk keys = (w', Ok es) \<and>
    dns_inv_except (X - set keys) vip ports n w' \<and> dropped w (set keys) w' \<and>
    list_all2 (\<lambda>k e. tx_failed (the (hm_get (dns_by_key w) k)) e) keys es"
  using assms
proof (induction keys arbitrary: w X)
  case (Cons key keys)
  obtain tx where tx: "hm_get (dns_by_key w) key = Some tx" using Cons.prems(4) by auto
  have core: "dns_core vip w" using Cons.prems(1) by (simp add: dns_inv_except_def)
  obtain w1 where r1: "remove_dns_transaction w key (clk key) = (w1, Ok (Some tx))"
    and i1: "dns_inv_except (X - {key}) vip ports n w1" and rm: "removed w key tx w1"
    using remove_dns_run [OF Cons.prems(1) tx, of "clk key"] by blast
  obtain e where e: "servfail_for_transaction tx config = Ok e" "tx_failed tx e"
    using servfail_for_run [OF dns_coreD(3) [OF core tx] Cons.prems(3)] by (metis tx_failed_def)
  have same: "hm_get (dns_by_key w1) k = hm_get (dns_by_key w) k" if "k \<in> set keys" for k
    using rm that Cons.prems(2) by (auto simp: removed_def)
  have i2: "dns_inv_except (X - {key}) vip ports n (bump count w1)" using i1 by simp
  have "\<forall>k\<in>set keys. hm_get (dns_by_key (bump count w1)) k \<noteq> None"
    using same Cons.prems(4) by (simp add: bump_def)
  then obtain w' es where IH: "servfail_each count (bump count w1) config clk keys = (w', Ok es)"
    "dns_inv_except (X - {key} - set keys) vip ports n w'" "dropped (bump count w1) (set keys) w'"
    "list_all2 (\<lambda>k e. tx_failed (the (hm_get (dns_by_key (bump count w1)) k)) e) keys es"
    using Cons.IH [OF i2 _ Cons.prems(3)] Cons.prems(2) by auto
  have "list_all2 (\<lambda>k e. tx_failed (the (hm_get (dns_by_key w) k)) e) keys es"
    using IH(4) same by (auto simp: list_all2_conv_all_nth bump_def)
  moreover have "dropped w (insert key (set keys)) w'"
    using dropped_step [OF rm tx] IH(3) Cons.prems(2) by simp
  moreover have "X - {key} - set keys = X - set (key # keys)" by auto
  ultimately show ?case using r1 e IH(1,2) tx by simp
qed (simp add: dropped_def)

lemma expire_dns_run:
  assumes inv: "dns_inv vip ports n w" and cfg: "listen config = vip"
  obtains w' keys es where "expire_dns_transactions w now config clk = (w', Ok es)" and "dns_inv vip ports n w'"
    and "distinct keys" and "set keys = {k. \<exists>tx. hm_get (dns_by_key w) k = Some tx \<and> dt_expires_at tx \<le> now}"
    and "dropped w (set keys) w'" and "list_all2 (\<lambda>k e. tx_failed (the (hm_get (dns_by_key w) k)) e) keys es"
proof -
  have dl: "dl_inv (dns_deadlines w) (dns_deadline w)" using inv by (simp add: dns_inv_except_def)
  define keys where "keys = concat (map snd (filter (\<lambda>e. fst e \<le> now) (dns_deadlines w)))"
  define w0 where "w0 = w\<lparr> dns_deadlines := filter (\<lambda>e. now < fst e) (dns_deadlines w) \<rparr>"
  have pop: "pop_due now (dns_deadlines w) = (keys, dns_deadlines w0)"
    unfolding keys_def w0_def using pop_due_eq [OF dl_invD(1) [OF dl]] by simp
  have dist: "distinct keys" unfolding keys_def by (rule distinct_due [OF dl])
  have sk: "set keys = {k. \<exists>tx. hm_get (dns_by_key w) k = Some tx \<and> dt_expires_at tx \<le> now}"
    unfolding keys_def set_due [OF dl] by (auto simp: dns_deadline_def)
  have "not_due now (dns_deadline w) = (\<lambda>k. if k \<in> set keys then None else dns_deadline w0 k)"
    by (auto simp: fun_eq_iff not_due_def sk dns_deadline_def w0_def split: option.split)
  then have "dl_inv (dns_deadlines w0) (\<lambda>k. if k \<in> set keys then None else dns_deadline w0 k)"
    using dl_inv_rest [OF dl, of now] by (simp add: w0_def)
  then have i0: "dns_inv_except (set keys) vip ports n w0"
  proof -
    have "worker_inv ports w0 \<and> dns_core vip w0 \<and> completed_inv n w0"
      using inv by (simp add: dns_inv_except_def worker_inv_def dns_core_def completed_inv_def w0_def)
    with \<open>dl_inv (dns_deadlines w0) _\<close> show ?thesis by (simp add: dns_inv_except_def)
  qed
  have "\<forall>k\<in>set keys. hm_get (dns_by_key w0) k \<noteq> None" using sk by (auto simp: w0_def)
  then obtain w' es where r: "servfail_each count_timeout w0 config clk keys = (w', Ok es)"
    "dns_inv vip ports n w'" "dropped w0 (set keys) w'"
    "list_all2 (\<lambda>k e. tx_failed (the (hm_get (dns_by_key w0) k)) e) keys es"
    using servfail_each_run [OF i0 dist cfg, of count_timeout clk] by auto
  show ?thesis
  proof (rule that [of "set_active w'" es keys])
    show "expire_dns_transactions w now config clk = (set_active w', Ok es)"
      using pop r(1) by (simp add: expire_dns_transactions_def w0_def)
    show "dropped w (set keys) (set_active w')" using r(3) by (simp add: dropped_def set_active_def bump_def w0_def)
    show "list_all2 (\<lambda>k e. tx_failed (the (hm_get (dns_by_key w) k)) e) keys es" using r(4) by (simp add: w0_def)
  qed (use r dist sk in simp_all)
qed

lemma abort_dns_run:
  assumes inv: "dns_inv vip ports n w" and cfg: "listen config = vip"
  shows "safe (dns_inv vip ports n) (abort_dns_transaction w b config now) \<and>
    is_ok (snd (abort_dns_transaction w b config now))"
proof (cases "hm_get (dns_by_reverse w) (reverse (nb_translated b))")
  case (Some key)
  have core: "dns_core vip w" using inv by (simp add: dns_inv_except_def)
  obtain tx where tx: "hm_get (dns_by_key w) key = Some tx" using dns_coreD(4) [OF core Some] by blast
  obtain w1 where "remove_dns_transaction w key now = (w1, Ok (Some tx))" "dns_inv vip ports n w1"
    using remove_dns_run [OF inv tx, of now] by auto
  moreover obtain e where "servfail_for_transaction tx config = Ok e"
    using servfail_for_run [OF dns_coreD(3) [OF core tx] cfg] by metis
  ultimately show ?thesis using Some by (simp add: abort_dns_transaction_def safe_def)
qed (simp add: abort_dns_transaction_def safe_def inv)

lemma distinct_entry_keys: "distinct (map fst (filter P (hm_entries m)))"
proof -
  have "distinct (map fst (hm_entries m))" using distinct_hm_keys [of m] by (simp add: hm_keys_def)
  then show ?thesis by (rule distinct_map_filter)
qed

lemma abort_remote_run:
  assumes inv: "dns_inv vip ports n w" and cfg: "listen config = vip"
  obtains w' keys es where "abort_remote_dns_transactions w config clk = (w', Ok es)" and "dns_inv vip ports n w'"
    and "distinct keys" and "set keys = {k. \<exists>tx. hm_get (dns_by_key w) k = Some tx \<and> dt_remote tx}"
    and "dropped w (set keys) w'" and "list_all2 (\<lambda>k e. tx_failed (the (hm_get (dns_by_key w) k)) e) keys es"
proof -
  define keys where "keys = map fst (filter (\<lambda>e. dt_remote (snd e)) (hm_entries (dns_by_key w)))"
  have sk: "set keys = {k. \<exists>tx. hm_get (dns_by_key w) k = Some tx \<and> dt_remote tx}"
    by (force simp: keys_def hm_entries_iff [symmetric])
  then have "\<forall>k\<in>set keys. hm_get (dns_by_key w) k \<noteq> None" by auto
  moreover have "distinct keys" unfolding keys_def by (rule distinct_entry_keys)
  ultimately show ?thesis
    using servfail_each_run [OF inv _ cfg, of keys count_servfail clk] sk that [of _ _ keys]
    by (auto simp: abort_remote_dns_transactions_def keys_def)
qed

lemma release_each_run:
  assumes "worker_inv ports w" and "distinct (map dt_token txs)"
    and "\<forall>tx\<in>set txs. token_bound (fw_sessions w) (dt_token tx) (dt_binding tx)"
  shows "\<exists>st'. release_each w clk txs = (w\<lparr> fw_sessions := st' \<rparr>, Ok (map dt_binding txs)) \<and>
    worker_inv ports (w\<lparr> fw_sessions := st' \<rparr>) \<and>
    (\<forall>tx\<in>set txs. binding_of (nat_tbl st') (dt_token tx) = None) \<and>
    (\<forall>t. binding_of (nat_tbl (fw_sessions w)) t = None \<longrightarrow> binding_of (nat_tbl st') t = None)"
  using assms
proof (induction txs arbitrary: w)
  case Nil
  have "w\<lparr> fw_sessions := fw_sessions w \<rparr> = w" by simp
  then show ?case using Nil by (intro exI [of _ "fw_sessions w"]) simp
next
  case (Cons tx txs)
  obtain st1 where st1: "release_ephemeral_nat (fw_sessions w) (fw_id w) (dt_token tx) (clk (dt_token tx)) = (st1, Ok (dt_binding tx))"
    "table_inv ports st1" "owner_worker_id st1 = fw_id w"
    "binding_of (nat_tbl st1) = (binding_of (nat_tbl (fw_sessions w)))(dt_token tx := None)"
    "\<forall>t c. token_bound (fw_sessions w) t c \<and> t \<noteq> dt_token tx \<longrightarrow> token_bound st1 t c"
    using release_token_run [OF Cons.prems(1), of "dt_token tx" "dt_binding tx" "clk (dt_token tx)"] Cons.prems(3) by auto
  let ?w = "w\<lparr> fw_sessions := st1 \<rparr>"
  have wi: "worker_inv ports ?w" using st1(2,3) by (simp add: worker_inv_def)
  have "\<forall>tx\<in>set txs. token_bound (fw_sessions ?w) (dt_token tx) (dt_binding tx)"
    using Cons.prems(2,3) st1(5) by (auto simp: image_iff)
  then obtain st' where "release_each ?w clk txs = (?w\<lparr> fw_sessions := st' \<rparr>, Ok (map dt_binding txs))"
    "worker_inv ports (?w\<lparr> fw_sessions := st' \<rparr>)" "\<forall>tx\<in>set txs. binding_of (nat_tbl st') (dt_token tx) = None"
    "\<forall>t. binding_of (nat_tbl (fw_sessions ?w)) t = None \<longrightarrow> binding_of (nat_tbl st') t = None"
    using Cons.IH [OF wi] Cons.prems(2) by auto
  then show ?case using st1(1,4) by (intro exI [of _ st']) (simp add: on_sessions_def)
qed

lemma remove_all_run:
  assumes inv: "dns_inv vip ports n w"
  shows "safe (dns_inv vip ports n) (remove_dns_transactions w clk) \<and>
    snd (remove_dns_transactions w clk) = Ok (map dt_binding (hm_vals (dns_by_key w))) \<and>
    dropped w UNIV (fst (remove_dns_transactions w clk))"
proof -
  let ?txs = "hm_vals (dns_by_key w)"
  let ?w = "w\<lparr> dns_by_key := hm_empty, dns_by_reverse := hm_empty, dns_deadlines := [],
      dns_completed_reverse := hm_empty, dns_completed_order := [] \<rparr>"
  have wi: "worker_inv ports w" and core: "dns_core vip w" and ci: "completed_inv n w"
    using inv by (simp_all add: dns_inv_except_def)
  have "inj_on (\<lambda>e. dt_token (snd e)) (set (hm_entries (dns_by_key w)))"
  proof (rule inj_onI)
    fix x y
    assume "x \<in> set (hm_entries (dns_by_key w))" "y \<in> set (hm_entries (dns_by_key w))" "dt_token (snd x) = dt_token (snd y)"
    moreover from this have "fst x = fst y"
      using tx_same [OF wi core, of "fst x" "snd x" "fst y" "snd y"] by (simp add: hm_entries_iff [symmetric])
    ultimately show "x = y" by (metis hm_entries_iff option.inject prod.collapse)
  qed
  moreover have "distinct (hm_entries (dns_by_key w))"
    using distinct_hm_keys [of "dns_by_key w"] by (simp add: hm_keys_def distinct_map)
  ultimately have "distinct (map dt_token ?txs)"
    by (simp add: hm_vals_def distinct_map comp_def)
  moreover have "\<forall>tx\<in>set ?txs. token_bound (fw_sessions ?w) (dt_token tx) (dt_binding tx)"
    using dns_coreD(2) [OF core] by (auto simp: set_hm_vals)
  moreover have "worker_inv ports ?w" using wi by (simp add: worker_inv_def)
  ultimately obtain st' where st': "release_each ?w clk ?txs = (?w\<lparr> fw_sessions := st' \<rparr>, Ok (map dt_binding ?txs))"
    "worker_inv ports (?w\<lparr> fw_sessions := st' \<rparr>)" "\<forall>tx\<in>set ?txs. binding_of (nat_tbl st') (dt_token tx) = None"
    "\<forall>t. binding_of (nat_tbl (fw_sessions w)) t = None \<longrightarrow> binding_of (nat_tbl st') t = None"
    using release_each_run [of ports ?w ?txs clk] by auto
  have "dns_inv vip ports n (?w\<lparr> fw_sessions := st' \<rparr>)"
    using st'(2) ci by (simp add: dns_inv_except_def dns_core_def completed_inv_def order_agrees_def dns_deadline_def)
  moreover have "dropped w UNIV (?w\<lparr> fw_sessions := st' \<rparr>)" using st'(3,4) by (auto simp: dropped_def set_hm_vals)
  ultimately show ?thesis using st'(1) by (simp add: remove_dns_transactions_def safe_def)
qed

section \<open>What a handled query turns into\<close>

definition pending :: "flow_worker \<Rightarrow> nat_binding \<Rightarrow> session_id \<Rightarrow> bool \<Rightarrow> bool" where
  "pending w b tok rem \<longleftrightarrow>
    (\<exists>key tx. hm_get (dns_by_key w) key = Some tx \<and> dt_binding tx = b \<and> dt_token tx = tok \<and> dt_remote tx = rem \<and>
       hm_get (dns_by_reverse w) (reverse (nb_translated b)) = Some key)"

definition carries :: "bytes \<Rightarrow> flow_key \<Rightarrow> bool" where
  "carries p f \<longleftrightarrow> parse_flow_key p = Ok f \<and> validate_packet_checksums p = Ok ()"

text \<open>
  A forwarded query belongs to a pending transaction and carries its translated flow; a
  refused one is answered with SERVFAIL from the virtual resolver on the queue it came from.
\<close>

definition query_out :: "io_owner_key \<Rightarrow> flow_key \<Rightarrow> socket_addr \<Rightarrow> flow_worker \<Rightarrow> handled_dns_query \<Rightarrow> bool" where
  "query_out io f vip w h \<longleftrightarrow>
    (case h of
       DnsLocal t b tok \<Rightarrow> pending w b tok False \<and> carries (tx_packet t) (nb_translated b)
     | DnsRemote p b tok \<Rightarrow> pending w b tok True \<and> carries p (nb_translated b)
     | DnsServfail t \<Rightarrow> target t = io \<and> carries (tx_packet t) (servfail_flow f vip))"

definition query_result ::
  "io_owner_key \<Rightarrow> flow_key \<Rightarrow> socket_addr \<Rightarrow> flow_worker \<times> (handled_dns_query, flow_worker_error) result \<Rightarrow> bool" where
  "query_result io f vip m \<longleftrightarrow> (\<forall>h. snd m = Ok h \<longrightarrow> query_out io f vip (fst m) h)"

lemma query_result_do: "(\<And>x. r = Ok x \<Longrightarrow> query_result io f vip (g w x)) \<Longrightarrow> query_result io f vip (st_then (pkt w r) g)"
  by (cases r) (simp_all add: query_result_def)

lemma refuse_out:
  assumes f: "parse_flow_key p = Ok f" "protocol f = Udp" "destination f = sock_ip vip" and cfg: "listen config = vip"
  shows "query_result io f vip (refuse_query w io p f config)"
  unfolding refuse_query_def
proof (rule query_result_do)
  fix t
  assume t: "dns_servfail_transmit io p f config = Ok t"
  then obtain q where q: "ensure_udp_payload_len p 12 = Ok q"
    by (auto simp: dns_servfail_transmit_def dns_servfail_transmit_to_listen_def and_then_eq_Ok)
  have sf: "same_family (destination f) (sock_ip vip)" by (simp add: f(3))
  have "target t = io \<and> carries (tx_packet t) (servfail_flow f vip)"
    by (rule servfail_run [OF f(1,2) sf q, of io]) (use t cfg in \<open>auto simp: dns_servfail_transmit_def carries_def\<close>)
  then show "query_result io f vip (bump count_servfail w, Ok (DnsServfail t))"
    by (simp add: query_result_def query_out_def)
qed

lemma forward_out:
  assumes core: "dns_core vip w" and tx: "hm_get (dns_by_key w) key = Some tx"
    and udp: "protocol (nb_translated (dt_binding tx)) = Udp"
  shows "query_result io f vip (pkt w (rewrite_dns_query p tx))"
proof -
  have "pending w (dt_binding tx) (dt_token tx) (dt_remote tx)"
    using tx dns_coreD(1) [OF core tx] by (auto simp: pending_def tx_reverse_def)
  moreover have "carries q (nb_translated (dt_binding tx))" if "rewrite_packet p (nb_translated (dt_binding tx)) = Ok q" for q
  proof -
    have "rewritten p (nb_translated (dt_binding tx)) q" using that by (elim rewrite_packet_OkD)
    then show ?thesis using udp by (simp add: rewritten_def carries_def echo_kind_def)
  qed
  ultimately show ?thesis
    by (auto simp: query_result_def query_out_def rewrite_dns_query_def and_then_eq_Ok map_err_eq_Ok split: if_splits)
qed

lemma pending_udp:
  assumes inv: "dns_inv vip ports n w" and tx: "hm_get (dns_by_key w) key = Some tx"
  shows "protocol (nb_translated (dt_binding tx)) = Udp"
proof -
  have "worker_inv ports w" and core: "dns_core vip w" using inv by (simp_all add: dns_inv_except_def)
  then have "nat_inv ports (nat_tbl (fw_sessions w))" by (simp add: worker_inv_def table_inv_def table_core_def)
  then show ?thesis
    using binding_families [of ports "nat_tbl (fw_sessions w)" "dt_token tx"] dns_coreD(2,3) [OF core tx]
    by (auto simp: token_bound_def dns_tx_ok_def)
qed

lemma start_out:
  assumes inv: "dns_inv vip ports n w" and free: "hm_get (dns_by_key w) key = None"
    and q: "dns_query_packet vip p f s" and cfg: "listen config = vip"
  shows "query_result io f vip (start_dns_transaction w io p f config key resolver is_remote now nat_now)"
proof -
  let ?m = "start_dns_transaction w io p f config key resolver is_remote now nat_now"
  have i': "dns_inv vip ports n (fst ?m)" using start_dns_inv [OF inv free q cfg] by (simp add: safe_def)
  obtain w1 tok where nt: "next_dns_session_token w = (w1, tok)" by fastforce
  define sel where "sel = \<lparr> source = source f, destination = sock_ip resolver, source_port = source_port f,
      destination_port = sock_port resolver, protocol = Udp \<rparr>"
  obtain st' r where a: "allocate_ephemeral_nat (fw_sessions w1) (fw_id w1) tok sel nat_now = (st', r)"
    by fastforce
  have refuse: "query_result io f vip (refuse_query w' io p f config)" for w'
    by (rule refuse_out) (use q cfg in \<open>simp_all add: dns_query_packet_def\<close>)
  show ?thesis
  proof (cases r)
    case (Ok b)
    define tx where "tx = \<lparr> dt_token = tok, dt_client = \<lparr> sock_ip = source f, sock_port = source_port f \<rparr>,
      dt_vip = listen config, dt_binding = b, dt_target = io, dt_remote = is_remote,
      dt_created_at = now, dt_expires_at = now + query_timeout config, dt_packet = p \<rparr>"
    let ?w' = "insert_dns_transaction (w1\<lparr> fw_sessions := st' \<rparr>) key tx"
    have run: "?m = pkt ?w' (rewrite_dns_query p tx)"
      using nt a Ok by (simp add: start_dns_transaction_def on_sessions_def sel_def tx_def Let_def)
    have tx: "hm_get (dns_by_key ?w') key = Some tx"
      by (simp add: insert_dns_transaction_def Let_def bump_def set_active_def hm_get_insert)
    have i2: "dns_inv vip ports n ?w'" using i' run by simp
    then have "dns_core vip ?w'" by (simp add: dns_inv_except_def)
    from forward_out [OF this tx pending_udp [OF i2 tx]] show ?thesis unfolding run .
  next
    case (Err e)
    then show ?thesis
      using nt a refuse by (simp add: start_dns_transaction_def on_sessions_def sel_def query_result_def Let_def)
  next
    case Panic
    then show ?thesis
      using nt a by (simp add: start_dns_transaction_def on_sessions_def sel_def query_result_def)
  qed
qed

lemma admit_out:
  assumes inv: "dns_inv vip ports n w" and free: "hm_get (dns_by_key w) key = None"
    and q: "dns_query_packet vip p f s" and cfg: "listen config = vip"
  shows "query_result io f vip (admit_dns_query w io p f config key route now nat_now)"
proof -
  have refuse: "query_result io f vip (refuse_query w' io p f config)" for w'
    by (rule refuse_out) (use q cfg in \<open>simp_all add: dns_query_packet_def\<close>)
  have "hm_get (dns_by_key (count_fallback w route)) key = None" using free by (simp add: count_fallback_def bump_def)
  then have "query_result io f vip (start_dns_transaction (count_fallback w route) io p f config key resolver is_remote now nat_now)"
    for resolver is_remote using inv by (intro start_out [OF _ _ q cfg]) simp_all
  then show ?thesis using refuse by (simp add: admit_dns_query_def Let_def split: prod.split)
qed

lemma route_out:
  assumes inv: "dns_inv vip ports n w" and q: "dns_query_packet vip p f s" and cfg: "listen config = vip"
  shows "query_result io f vip (route_dns_query w io p s malformed f config now nat_now)"
proof (cases "transaction_key \<lparr> sock_ip = source f, sock_port = source_port f \<rparr> s :: (_, flow_worker_error) result")
  case (Ok dns)
  let ?key = "\<lparr> dk_owner = io, dk_dns = dns \<rparr>"
  have core: "dns_core vip w" using inv by (simp add: dns_inv_except_def)
  show ?thesis
  proof (cases "hm_get (dns_by_key w) ?key")
    case None
    have "query_result io f vip (st_then (w, r) (\<lambda>w route. admit_dns_query w io p f config ?key route now nat_now))"
      for r using admit_out [OF inv None q cfg] by (cases r) (simp_all add: query_result_def)
    then show ?thesis using Ok None by (simp add: route_dns_query_def Let_def)
  next
    case (Some tx)
    then show ?thesis
      using Ok forward_out [OF core Some pending_udp [OF inv Some]] by (simp add: route_dns_query_def Let_def)
  qed
qed (simp_all add: route_dns_query_def query_result_def)

lemma examine_out:
  assumes i: "dns_inv vip ports n w" and q: "parse_flow_key q = Ok f" "udp_payload q = Ok s"
    "length s \<le> DNS_PAYLOAD_MAX" and f: "protocol f = Udp" "destination f = sock_ip vip" "destination_port f = sock_port vip"
    and cfg: "listen config = vip"
  shows "query_result io f vip (examine_dns_query w io q c f config now nat_now)"
proof (cases "parse_question s")
  case (Ok question)
  then have "12 \<le> length s" by (auto simp: parse_question_def and_then_eq_Ok dns_header_Ok)
  then show ?thesis
    using Ok q f i by (simp add: examine_dns_query_def route_out cfg dns_query_packet_def)
next
  case (Err e)
  then show ?thesis using q f cfg by (simp add: examine_dns_query_def refuse_out)
qed (use q in \<open>simp add: examine_dns_query_def query_result_def\<close>)

lemma clamp_out:
  assumes i: "dns_inv vip ports n w" and p: "parse_flow_key p = Ok f" "udp_payload p = Ok s"
    "length s \<le> DNS_PAYLOAD_MAX" and f: "protocol f = Udp" "destination f = sock_ip vip" "destination_port f = sock_port vip"
    and cfg: "listen config = vip"
  shows "query_result io f vip (st_then (pkt w (edns_clamp_packet p)) (\<lambda>w (packet, edns).
    examine_dns_query (count_clamped w edns) io packet edns f config now nat_now))"
proof (rule edns_clamp_run [OF p(1) f(1)])
  fix q c s'
  assume q: "edns_clamp_packet p = Ok (q, c)" "parse_flow_key q = Ok f" "udp_payload p = Ok s'"
    "udp_payload q = Ok (if c = Some True then fst (clamp_edns_udp_payload s') else s')"
  have "length (fst (clamp_edns_udp_payload s')) = length s'" using clamp_edns_length by (metis prod.collapse)
  then have "length (if c = Some True then fst (clamp_edns_udp_payload s') else s') \<le> DNS_PAYLOAD_MAX"
    using p q(3) by simp
  moreover have "dns_inv vip ports n (count_clamped w c)" using i by (simp add: count_clamped_def)
  ultimately show ?thesis using examine_out [OF _ q(2,4) _ f cfg] q(1) by simp
qed

lemma handle_dns_query_out:
  assumes inv: "dns_inv vip ports n w" and cfg: "listen config = vip"
    and h: "handle_dns_query_at w io packet config now nat_now = (w', Ok h)"
  shows "\<exists>f. ok (parse_flow_key packet) = Some f \<and> protocol f = Udp \<and> destination f = sock_ip vip \<and>
    destination_port f = sock_port vip \<and> query_out io f vip w' h"
proof -
  obtain p f where p: "prepare_forwarded_packet packet = Ok p" "parse_flow_key p = Ok f"
    and f: "protocol f = Udp" "destination f = sock_ip vip" "destination_port f = sock_port vip"
    using h by (auto simp: handle_dns_query_at_def st_then_eq_Ok map_err_eq_Ok cfg split: if_splits)
  have refuse: "query_result io f vip (refuse_query w io p f config)" by (rule refuse_out [OF p(2) f(1,2) cfg])
  have "query_result io f vip (st_then (pkt w (ip_packet_is_fragmented p)) (\<lambda>w fragmented.
          if fragmented then refuse_query w io p f config
          else st_then (pkt w (udp_payload p)) (\<lambda>w payload.
              if DNS_PAYLOAD_MAX < length payload then refuse_query w io p f config
              else st_then (pkt w (edns_clamp_packet p)) (\<lambda>w (packet, edns).
                examine_dns_query (count_clamped w edns) io packet edns f config now nat_now))))" (is "query_result _ _ _ ?tail")
  proof (rule query_result_do)
    fix fragmented
    have "query_result io f vip (st_then (pkt w (udp_payload p)) (\<lambda>w payload.
              if DNS_PAYLOAD_MAX < length payload then refuse_query w io p f config
              else st_then (pkt w (edns_clamp_packet p)) (\<lambda>w (packet, edns).
                examine_dns_query (count_clamped w edns) io packet edns f config now nat_now)))"
      by (rule query_result_do) (simp add: refuse clamp_out [OF inv p(2) _ _ f cfg])
    then show "query_result io f vip (if fragmented then refuse_query w io p f config
          else st_then (pkt w (udp_payload p)) (\<lambda>w payload.
              if DNS_PAYLOAD_MAX < length payload then refuse_query w io p f config
              else st_then (pkt w (edns_clamp_packet p)) (\<lambda>w (packet, edns).
                examine_dns_query (count_clamped w edns) io packet edns f config now nat_now)))"
      using refuse by simp
  qed
  moreover have "handle_dns_query_at w io packet config now nat_now = ?tail"
    using p f cfg by (simp add: handle_dns_query_at_def)
  ultimately have "query_result io f vip (handle_dns_query_at w io packet config now nat_now)" by simp
  moreover have "ok (parse_flow_key packet) = Some f" using prepare_keeps_flow [OF p(1)] p(2) by simp
  ultimately show ?thesis using f h by (auto simp: query_result_def)
qed

end
