(* ===== verification/Worker_Reach.thy ===== *)
theory Worker_Reach
  imports Dns_Worker
begin

text \<open>
  The workers that calls of their handlers can produce, in any order, and the theorems that
  hold of all of them (\<open>FlowWorkerState\<close> of \<open>flow_plane/worker.rs\<close>).
\<close>

section \<open>Reachable workers\<close>

text \<open>One call of a handler, in any state it may leave behind; the configuration always names the same virtual resolver.\<close>

inductive worker_step :: "socket_addr \<Rightarrow> flow_worker \<Rightarrow> flow_worker \<Rightarrow> bool" for vip where
  step_intercept: "worker_step vip w (fst (handle_intercept w io packet quic tgt now nat_now))"
| step_server_inner: "worker_step vip w (fst (handle_server_inner w io packet quic now nat_now))"
| step_reverse: "worker_step vip w (fst (handle_reverse w packet now))"
| step_reverse_for: "worker_step vip w (fst (handle_reverse_for w packet loc now))"
| step_server_reverse: "worker_step vip w (fst (handle_server_reverse w observed packet loc now))"
| step_rebind_flow: "worker_step vip w (fst (worker_rebind_quic_flow w old new))"
| step_remove_by_flow: "worker_step vip w (fst (worker_remove_by_quic_flow w q clk))"
| step_remove_session: "worker_step vip w (fst (remove_session w i now))"
| step_expire_sessions: "worker_step vip w (fst (expire_idle_sessions w now clk))"
| step_query: "listen config = vip \<Longrightarrow> worker_step vip w (fst (handle_dns_query_at w io packet config now nat_now))"
| step_response: "worker_step vip w (fst (handle_dns_response w packet now))"
| step_expire_dns: "listen config = vip \<Longrightarrow> worker_step vip w (fst (expire_dns_transactions w now config kclk))"
| step_abort: "listen config = vip \<Longrightarrow> worker_step vip w (fst (abort_dns_transaction w b config now))"
| step_abort_remote: "listen config = vip \<Longrightarrow> worker_step vip w (fst (abort_remote_dns_transactions w config kclk))"
| step_remove_dns: "worker_step vip w (fst (remove_dns_transactions w clk))"

text \<open>A worker after at most \<open>n\<close> calls.\<close>

inductive worker_reach :: "socket_addr \<Rightarrow> u16 \<Rightarrow> u16 \<Rightarrow> nat \<Rightarrow> flow_worker \<Rightarrow> bool" for vip first_port last_port where
  reach_new: "new_worker i v4 v6 first_port last_port = Ok w \<Longrightarrow> worker_reach vip first_port last_port 0 w"
| reach_step: "worker_reach vip first_port last_port n w \<Longrightarrow> worker_step vip w w' \<Longrightarrow>
    worker_reach vip first_port last_port (Suc n) w'"

lemma new_worker_inv:
  assumes "new_worker i v4 v6 a b = Ok w"
  shows "dns_inv vip (set (port_range a b)) 0 w"
proof -
  obtain table where t: "new_table i v4 v6 a b = Ok table"
    and w: "w = \<lparr> fw_id = i, fw_sessions = table, next_dns_token = 1, dns_by_key = hm_empty,
           dns_by_reverse = hm_empty, dns_deadlines = [], dns_completed_reverse = hm_empty,
           dns_completed_order = [], next_dns_completed_sequence = 1, fw_stats = default_stats \<rparr>"
    using assms by (auto simp: new_worker_def and_then_eq_Ok)
  show ?thesis
    using table_inv_new [OF t]
    by (simp add: w dns_inv_except_def worker_inv_def dns_core_def completed_inv_def order_agrees_def dns_deadline_def)
qed

text \<open>Every handler is safe in every state that satisfies the invariant.\<close>

lemma session_handler_safe:
  assumes inv: "dns_inv vip ports n w" and s: "safe (session_only ports w) m"
  shows "safe (dns_inv vip ports n) m"
  using s dns_inv_session_only [OF inv] by (simp add: safe_def)

lemma session_handlers_safe:
  assumes inv: "dns_inv vip ports n w"
  shows "safe (dns_inv vip ports n) (handle_intercept w io packet quic tgt now nat_now)"
    and "safe (dns_inv vip ports n) (handle_server_inner w io packet quic now nat_now)"
    and "safe (dns_inv vip ports n) (handle_reverse w packet now)"
    and "safe (dns_inv vip ports n) (handle_reverse_for w packet loc now)"
    and "safe (dns_inv vip ports n) (handle_server_reverse w observed packet loc now)"
    and "safe (dns_inv vip ports n) (worker_rebind_quic_flow w old new)"
    and "safe (dns_inv vip ports n) (worker_remove_by_quic_flow w q clk)"
    and "safe (dns_inv vip ports n) (remove_session w i now)"
    and "safe (dns_inv vip ports n) (expire_idle_sessions w now clk)"
proof -
  have wi: "worker_inv ports w" using inv by (simp add: dns_inv_except_def)
  show "safe (dns_inv vip ports n) (handle_reverse_for w packet loc now)"
    "safe (dns_inv vip ports n) (handle_server_reverse w observed packet loc now)"
    unfolding handle_reverse_for_def handle_server_reverse_def
    by (rule session_handler_safe [OF inv handle_reverse_for_inner_safe [OF wi]])+
qed (rule session_handler_safe [OF inv],
     simp add: handle_intercept_safe handle_server_inner_safe handle_reverse_safe session_ops_safe
       inv [unfolded dns_inv_except_def])+

lemma expire_abort_safe:
  assumes inv: "dns_inv vip ports n w" and cfg: "listen config = vip"
  shows "safe (dns_inv vip ports n) (expire_dns_transactions w now config kclk)"
    and "safe (dns_inv vip ports n) (abort_remote_dns_transactions w config kclk)"
    and "safe (dns_inv vip ports n) (abort_dns_transaction w b config now)"
proof -
  show "safe (dns_inv vip ports n) (expire_dns_transactions w now config kclk)"
    by (rule expire_dns_run [OF inv cfg, of now kclk]) (simp add: safe_def)
  show "safe (dns_inv vip ports n) (abort_remote_dns_transactions w config kclk)"
    by (rule abort_remote_run [OF inv cfg, of kclk]) (simp add: safe_def)
  show "safe (dns_inv vip ports n) (abort_dns_transaction w b config now)"
    using abort_dns_run [OF inv cfg] by simp
qed

lemma response_safe:
  assumes "dns_inv vip ports n w" and "n < 18446744073709551614"
  shows "safe (dns_inv vip ports (Suc n)) (handle_dns_response w packet now)"
  using handle_dns_response_ok [OF assms] by (simp add: response_ok_def)

lemma dns_inv_step:
  assumes inv: "dns_inv vip ports n w" and n: "n < 18446744073709551614" and s: "worker_step vip w w'"
  shows "dns_inv vip ports (Suc n) w'"
proof -
  have up: "dns_inv vip ports (Suc n) (fst m)" if "safe (dns_inv vip ports n) m"
    for m :: "flow_worker \<times> ('a, 'b) result" using that dns_inv_mono [of "{}" vip ports n "fst m" "Suc n"] by (simp add: safe_def)
  note ups = session_handlers_safe [OF inv, THEN up] handle_dns_query_inv [OF inv, THEN up]
    expire_abort_safe [OF inv, THEN up] remove_all_run [OF inv, THEN conjunct1, THEN up]
  show ?thesis
    using s by cases (simp_all add: ups response_safe [OF inv n, unfolded safe_def])
qed

lemma worker_reach_inv:
  "worker_reach vip a b n w \<Longrightarrow> n < 18446744073709551615 \<Longrightarrow> dns_inv vip (set (port_range a b)) n w"
proof (induction rule: worker_reach.induct)
  case (reach_step n w w')
  then show ?case using dns_inv_step by simp
qed (rule new_worker_inv)

section \<open>Return packets\<close>

text \<open>A return packet that the worker has a session for, and that can be read to the end.\<close>

definition reverse_accepted :: "flow_worker \<Rightarrow> bytes \<Rightarrow> bool" where
  "reverse_accepted w packet \<longleftrightarrow>
    (\<exists>i s p ret p2 m flags. hm_get (sessions (fw_sessions w)) i = Some s \<and> prepare_forwarded_packet packet = Ok p \<and>
       parse_flow_key packet = Ok ret \<and> answers ret (nb_translated (sess_nat s)) \<and>
       clamp_tcp_mss p TCP_MAX_SAFE_MSS = Ok (p2, m) \<and> parse_tcp_flags p2 = Ok flags)"

lemma reverse_accepted_run:
  assumes inv: "worker_inv ports w" and acc: "reverse_accepted w packet"
  shows "\<exists>w' h. handle_reverse w packet now = (w', Ok (Some h))"
proof -
  obtain i s p ret p2 m flags where s: "hm_get (sessions (fw_sessions w)) i = Some s"
    and p: "prepare_forwarded_packet packet = Ok p" "parse_flow_key packet = Ok ret"
    and ans: "answers ret (nb_translated (sess_nat s))"
    and c: "clamp_tcp_mss p TCP_MAX_SAFE_MSS = Ok (p2, m)" "parse_tcp_flags p2 = Ok flags"
    using acc by (auto simp: reverse_accepted_def)
  have core: "table_core ports (fw_sessions w)" and ow: "owner_worker_id (fw_sessions w) = fw_id w"
    using inv by (simp_all add: worker_inv_def table_inv_def)
  have l: "lookup_reverse_locator (fw_sessions w) ret = Some (own_locator (fw_sessions w) i)"
    by (rule session_nat_lookup [OF core s ans])
  have p1: "parse_flow_key p = Ok ret"
    using prepare_keeps_flow [OF p(1)] p(2) by (cases "parse_flow_key p") simp_all
  have p2: "parse_flow_key p2 = Ok ret" by (rule clamp_tcp_mss_flow(2) [OF p1 c(1)])
  obtain w' h where "finish_reverse w i flags p2 ret now = (w', Ok (Some h))"
    by (rule finish_reverse_run [OF inv s ans p2, of flags now]) (rule that)
  then have "handle_reverse w packet now = (w', Ok (Some h))"
    using p p1 l c ow
    by (simp add: handle_reverse_def handle_reverse_for_def handle_reverse_for_inner_def own_locator_def)
  then show ?thesis by blast
qed

lemma handle_reverse_out:
  assumes inv: "worker_inv ports w" and h: "handle_reverse w packet now = (w', Ok (Some h))"
  shows "\<exists>loc. restored_out w packet loc h"
proof -
  obtain loc where "handle_reverse_for_inner w packet loc None now = (w', Ok (Some h))"
    using h by (auto simp: handle_reverse_def handle_reverse_for_def st_then_eq_Ok map_err_eq_Ok split: option.splits)
  then show ?thesis using handle_reverse_inner_out [OF inv] by blast
qed

section \<open>Responses that are accepted\<close>

definition response_accepted :: "flow_worker \<Rightarrow> bytes \<Rightarrow> bool" where
  "response_accepted w packet \<longleftrightarrow>
    (\<exists>key tx p payload query u. ip_packet_is_fragmented packet = Ok False \<and> prepare_forwarded_packet packet = Ok p \<and>
       hm_get (dns_by_key w) key = Some tx \<and> parse_flow_key p = Ok (tx_reverse tx) \<and> udp_payload p = Ok payload \<and>
       udp_payload (dt_packet tx) = Ok query \<and> response_matches_query query payload = Ok u)"

lemma response_accepted_run:
  assumes inv: "dns_inv vip ports n w" and n: "n < 18446744073709551614" and acc: "response_accepted w packet"
  shows "\<exists>w' h. handle_dns_response w packet now = (w', Ok (Some h))"
proof -
  obtain key tx p payload query u where f: "ip_packet_is_fragmented packet = Ok False"
    and p: "prepare_forwarded_packet packet = Ok p" "parse_flow_key p = Ok (tx_reverse tx)" "udp_payload p = Ok payload"
    and tx: "hm_get (dns_by_key w) key = Some tx" and q: "udp_payload (dt_packet tx) = Ok query"
    and m: "response_matches_query query payload = Ok u"
    using acc by (auto simp: response_accepted_def)
  have "dns_core vip w" using inv by (simp add: dns_inv_except_def)
  then have rv: "hm_get (dns_by_reverse w) (tx_reverse tx) = Some key" using tx by (rule dns_coreD(1))
  have run: "handle_dns_response w packet now = complete_dns_response w key (tx_reverse tx) p payload now"
    using f p rv tx q m by (simp add: handle_dns_response_def)
  show ?thesis
    by (rule complete_dns_run [OF inv n tx p(2,3), of now]) (auto simp: run)
qed

section \<open>A sample worker\<close>

definition sample_worker :: flow_worker where
  "sample_worker = \<lparr> fw_id = 0, fw_sessions = sample_sessions, next_dns_token = 1, dns_by_key = hm_empty,
     dns_by_reverse = hm_empty, dns_deadlines = [], dns_completed_reverse = hm_empty,
     dns_completed_order = [], next_dns_completed_sequence = 1, fw_stats = default_stats \<rparr>"

definition sample_vip :: socket_addr where
  "sample_vip = \<lparr> sock_ip = V4 0x0a000001, sock_port = 53 \<rparr>"

definition sample_dns_config :: dns_flow_config where
  "sample_dns_config = \<lparr> listen = sample_vip, local_resolver = \<lparr> sock_ip = V4 0x08080808, sock_port = 53 \<rparr>,
     remote_resolver = \<lparr> sock_ip = V4 0x01010101, sock_port = 53 \<rparr>, remote_domains = [],
     transaction_capacity = 4, query_timeout = 5, remote_available = False \<rparr>"

definition sample_dns_query :: bytes where
  "sample_dns_query = [69, 0, 0, 47, 0, 0, 0, 0, 64, 17, 102, 188, 10, 0, 0, 2, 10, 0, 0, 1, 20, 233, 0, 53,
     0, 27, 210, 46, 0, 7, 1, 0, 0, 1, 0, 0, 0, 0, 0, 0, 1, 97, 0, 0, 1, 0, 1]"

definition sample_dns_response :: bytes where
  "sample_dns_response = [69, 0, 0, 47, 0, 0, 0, 0, 64, 17, 46, 173, 8, 8, 8, 8, 203, 0, 113, 1, 0, 53, 78, 32,
     0, 27, 224, 103, 0, 7, 129, 128, 0, 1, 0, 0, 0, 0, 0, 0, 1, 97, 0, 0, 1, 0, 1]"

definition sample_dns_worker :: flow_worker where
  "sample_dns_worker = fst (handle_dns_query_at sample_worker sample_io sample_dns_query sample_dns_config 100 100)"

definition sample_dns_key :: dns_flow_transaction_key where
  "sample_dns_key = \<lparr> dk_owner = sample_io,
     dk_dns = Question \<lparr> sock_ip = V4 0x0a000002, sock_port = 5353 \<rparr> 7 ''a'' 1 1 \<rparr>"

definition sample_dns_tx :: dns_flow_transaction where
  "sample_dns_tx = \<lparr> dt_token = 0x8000000000000001, dt_client = \<lparr> sock_ip = V4 0x0a000002, sock_port = 5353 \<rparr>,
     dt_vip = sample_vip,
     dt_binding = \<lparr> nb_original = \<lparr> source = V4 0x0a000002, destination = V4 0x08080808, source_port = 5353,
                        destination_port = 53, protocol = Udp \<rparr>,
                    nb_translated = \<lparr> source = V4 0xCB007101, destination = V4 0x08080808, source_port = 20000,
                        destination_port = 53, protocol = Udp \<rparr> \<rparr>,
     dt_target = sample_io, dt_remote = False, dt_created_at = 100, dt_expires_at = 105,
     dt_packet = [69, 0, 0, 47, 0, 0, 0, 0, 63, 17, 103, 188, 10, 0, 0, 2, 10, 0, 0, 1, 20, 233, 0, 53,
       0, 27, 210, 46, 0, 7, 1, 0, 0, 1, 0, 0, 0, 0, 0, 0, 1, 97, 0, 0, 1, 0, 1] \<rparr>"

definition sample_quic :: quic_flow where
  "sample_quic = \<lparr> qf_id = 9, qf_worker = 0, tunnel_queue_id = 0 \<rparr>"

definition sample_flow_worker :: flow_worker where
  "sample_flow_worker = fst (handle_intercept sample_worker sample_io sample_udp sample_quic sample_io 100 100)"

definition sample_reply :: bytes where
  "sample_reply = [69, 0, 0, 28, 0, 0, 0, 0, 64, 17, 52, 206, 10, 0, 0, 2, 203, 0, 113, 1, 0, 53, 78, 32, 0, 8, 0, 0]"

lemma sample_worker_reach: "worker_reach sample_vip 20000 20001 0 sample_worker"
  by (rule worker_reach.reach_new [of 0 "Some 0xCB007101" None])
    (simp add: new_worker_def new_table_def sample_table_new sample_worker_def sample_sessions_def)

lemma sample_dns_reach: "worker_reach sample_vip 20000 20001 1 sample_dns_worker"
  using worker_reach.reach_step [OF sample_worker_reach worker_step.step_query, of sample_dns_config]
  unfolding sample_dns_worker_def by (simp add: sample_dns_config_def)

lemma sample_flow_reach: "worker_reach sample_vip 20000 20001 1 sample_flow_worker"
  using worker_reach.reach_step [OF sample_worker_reach worker_step.step_intercept]
  unfolding sample_flow_worker_def by simp

lemma sample_dns_pending: "hm_get (dns_by_key sample_dns_worker) sample_dns_key = Some sample_dns_tx"
  by code_simp

lemma sample_response_accepted: "response_accepted sample_dns_worker sample_dns_response"
proof -
  have "ip_packet_is_fragmented sample_dns_response = Ok False" by code_simp
  moreover have "ok (prepare_forwarded_packet sample_dns_response) = Some (sample_dns_response [8 := 63, 10 := 47])"
    by code_simp
  then have "prepare_forwarded_packet sample_dns_response = Ok (sample_dns_response [8 := 63, 10 := 47])"
    by (cases "prepare_forwarded_packet sample_dns_response") simp_all
  moreover have "parse_flow_key (sample_dns_response [8 := 63, 10 := 47]) = Ok (tx_reverse sample_dns_tx)" by code_simp
  moreover have "udp_payload (sample_dns_response [8 := 63, 10 := 47]) = Ok (drop 28 sample_dns_response)" by code_simp
  moreover have "udp_payload (dt_packet sample_dns_tx) = Ok (drop 28 sample_dns_query)" by code_simp
  moreover have "response_matches_query (drop 28 sample_dns_query) (drop 28 sample_dns_response) = Ok ()" by code_simp
  ultimately show ?thesis unfolding response_accepted_def using sample_dns_pending by blast
qed

lemma sample_reverse_accepted: "reverse_accepted sample_flow_worker sample_reply"
proof -
  have "map_option (\<lambda>s. nb_translated (sess_nat s)) (hm_get (sessions (fw_sessions sample_flow_worker)) 1) =
      Some \<lparr> source = V4 0xCB007101, destination = V4 0x0a000002, source_port = 20000, destination_port = 53, protocol = Udp \<rparr>"
    by code_simp
  then obtain s where s: "hm_get (sessions (fw_sessions sample_flow_worker)) 1 = Some s"
    and tr: "nb_translated (sess_nat s) =
      \<lparr> source = V4 0xCB007101, destination = V4 0x0a000002, source_port = 20000, destination_port = 53, protocol = Udp \<rparr>"
    by (cases "hm_get (sessions (fw_sessions sample_flow_worker)) 1") auto
  have "answers \<lparr> source = V4 0x0a000002, destination = V4 0xCB007101, source_port = 53, destination_port = 20000,
      protocol = Udp \<rparr> (nb_translated (sess_nat s))" by (simp add: tr answers_def)
  moreover have "ok (prepare_forwarded_packet sample_reply) = Some (sample_reply [8 := 63, 10 := 53])" by code_simp
  then have "prepare_forwarded_packet sample_reply = Ok (sample_reply [8 := 63, 10 := 53])"
    by (cases "prepare_forwarded_packet sample_reply") simp_all
  moreover have "parse_flow_key sample_reply = Ok \<lparr> source = V4 0x0a000002, destination = V4 0xCB007101,
      source_port = 53, destination_port = 20000, protocol = Udp \<rparr>" by code_simp
  moreover have "clamp_tcp_mss (sample_reply [8 := 63, 10 := 53]) TCP_MAX_SAFE_MSS = Ok (sample_reply [8 := 63, 10 := 53], False)"
    by code_simp
  moreover have "parse_tcp_flags (sample_reply [8 := 63, 10 := 53]) = Ok None" by code_simp
  ultimately show ?thesis using s unfolding reverse_accepted_def by blast
qed

section \<open>Transactions that are cleared\<close>

text \<open>The transactions of a set of keys are gone, and each of them has been answered with SERVFAIL.\<close>

definition cleared ::
  "flow_worker \<Rightarrow> dns_flow_transaction_key set \<Rightarrow> flow_worker \<Rightarrow> expired_dns_transaction list \<Rightarrow> bool" where
  "cleared w K w' es \<longleftrightarrow> dropped w K w' \<and>
    (\<exists>keys. distinct keys \<and> set keys = K \<and> list_all2 (\<lambda>k e. tx_failed (the (hm_get (dns_by_key w) k)) e) keys es)"

lemma clear_run:
  assumes inv: "dns_inv vip ports n w" and cfg: "listen config = vip"
  shows "\<exists>w' es. expire_dns_transactions w now config clk = (w', Ok es) \<and>
      cleared w {k. \<exists>tx. hm_get (dns_by_key w) k = Some tx \<and> dt_expires_at tx \<le> now} w' es"
    and "\<exists>w' es. abort_remote_dns_transactions w config clk = (w', Ok es) \<and>
      cleared w {k. \<exists>tx. hm_get (dns_by_key w) k = Some tx \<and> dt_remote tx} w' es"
proof -
  show "\<exists>w' es. expire_dns_transactions w now config clk = (w', Ok es) \<and>
      cleared w {k. \<exists>tx. hm_get (dns_by_key w) k = Some tx \<and> dt_expires_at tx \<le> now} w' es"
    by (rule expire_dns_run [OF inv cfg, of now clk]) (metis cleared_def)
  show "\<exists>w' es. abort_remote_dns_transactions w config clk = (w', Ok es) \<and>
      cleared w {k. \<exists>tx. hm_get (dns_by_key w) k = Some tx \<and> dt_remote tx} w' es"
    by (rule abort_remote_run [OF inv cfg, of clk]) (metis cleared_def)
qed

section \<open>Theorems\<close>

text \<open>
  C1: After any sequence of calls of its handlers (fewer than \<open>2 ^ 64 - 1\<close>), with any packets,
  clocks and configurations of one virtual resolver, the parts of a flow worker agree: its
  session table is consistent and owned by it; the DNS transactions are indexed by key, by
  return flow and by deadline without a stale or missing entry; each of them holds the NAT
  binding of its own token, which no session uses, and stores a query that can still be
  answered; and the memory of completed transactions stays within its capacity.
\<close>

theorem worker_reach_invariant:
  assumes "worker_reach vip first_port last_port n w" and "n < 18446744073709551615"
  shows "dns_inv vip (set (port_range first_port last_port)) n w"
  by (rule worker_reach_inv [OF assms])

theorem worker_reach_invariant_witness:
  "dns_inv sample_vip (set (port_range 20000 20001)) 2 (fst (handle_dns_response sample_dns_worker sample_dns_response 101))"
  using worker_reach_invariant [OF worker_reach.reach_step [OF sample_dns_reach worker_step.step_response]]
  by (simp add: numeral_2_eq_2)

text \<open>
  C17: No handler of a reachable worker panics, whatever bytes it is given: the sessions it has
  just looked up are there, the reverse index points to existing transactions, and the loop
  that trims the completed transactions ends.
\<close>

theorem worker_handlers_total:
  assumes reach: "worker_reach vip first_port last_port n w" and n: "n < 18446744073709551614"
    and cfg: "listen config = vip"
  shows "snd (handle_intercept w io packet quic tgt now nat_now) \<noteq> Panic \<and>
    snd (handle_server_inner w io packet quic now nat_now) \<noteq> Panic \<and>
    snd (handle_reverse w packet now) \<noteq> Panic \<and> snd (handle_reverse_for w packet loc now) \<noteq> Panic \<and>
    snd (handle_server_reverse w io packet loc now) \<noteq> Panic \<and>
    snd (handle_dns_query_at w io packet config now nat_now) \<noteq> Panic \<and>
    snd (handle_dns_response w packet now) \<noteq> Panic \<and>
    snd (expire_dns_transactions w now config kclk) \<noteq> Panic \<and>
    snd (abort_dns_transaction w b config now) \<noteq> Panic \<and>
    snd (abort_remote_dns_transactions w config kclk) \<noteq> Panic \<and>
    snd (remove_dns_transactions w clk) \<noteq> Panic \<and> snd (expire_idle_sessions w now clk) \<noteq> Panic"
proof -
  have "n < 18446744073709551615" using n by simp
  note inv = worker_reach_inv [OF reach this]
  show ?thesis
    using session_handlers_safe [OF inv] handle_dns_query_inv [OF inv cfg] response_safe [OF inv n]
      expire_abort_safe [OF inv cfg] remove_all_run [OF inv]
    by (simp add: safe_def)
qed

theorem worker_handlers_total_witness:
  "snd (handle_dns_response sample_dns_worker sample_dns_response 101) \<noteq> Panic"
  using worker_handlers_total [OF sample_dns_reach, of sample_dns_config]
  by (simp add: sample_dns_config_def)

text \<open>
  C3: A packet that a worker forwards into the tunnel (\<open>handle_intercept\<close>) or out of it
  (\<open>handle_server_inner\<close>) belongs to a session of its flow, carries the session's translated
  flow with valid checksums, and every packet that answers it is located at that session.
  The former goes to the queue of the tunnel, the latter to the interface it was meant for.
\<close>

theorem forwarded_packet_translated:
  assumes reach: "worker_reach vip first_port last_port n w" and n: "n < 18446744073709551615"
  shows "(\<forall>w' h. handle_intercept w io packet quic tgt now nat_now = (w', Ok h) \<longrightarrow>
      target (hi_transmit h) = tgt \<and> translated_out w' (hi_session h) packet (tx_packet (hi_transmit h))) \<and>
    (\<forall>w' h. handle_server_inner w io packet quic now nat_now = (w', Ok h) \<longrightarrow>
      ifindex (target (hi_transmit h)) = ifindex io \<and>
      translated_out w' (hi_session h) packet (tx_packet (hi_transmit h)))"
proof -
  have inv: "worker_inv (set (port_range first_port last_port)) w"
    using worker_reach_inv [OF reach n] by (simp add: dns_inv_except_def)
  show ?thesis using handle_intercept_out [OF inv] handle_server_inner_out [OF inv] by blast
qed

theorem forwarded_packet_translated_witness:
  "\<exists>i p. translated_out sample_flow_worker i sample_udp p"
proof -
  have "is_ok (snd (handle_intercept sample_worker sample_io sample_udp sample_quic sample_io 100 100))" by code_simp
  then obtain h where "handle_intercept sample_worker sample_io sample_udp sample_quic sample_io 100 100 = (sample_flow_worker, Ok h)"
    by (auto simp: is_ok_iff sample_flow_worker_def prod_eq_iff)
  then show ?thesis
    using forwarded_packet_translated [OF sample_worker_reach, of sample_io sample_udp sample_quic sample_io 100 100] by auto
qed




lemma sample_query_ok: "is_ok (snd (handle_dns_query_at sample_worker sample_io sample_dns_query sample_dns_config 100 100))"
  by code_simp




text \<open>
  C14: No DNS query waits for ever.  \<open>expire_dns_transactions\<close> never fails: it removes exactly the
  transactions whose deadline has passed, each of which is answered once, with SERVFAIL to
  its client on the queue of its query, and whose NAT binding is released; all the others
  stay.  \<open>abort_remote_dns_transactions\<close> does the same to exactly the remote transactions.
\<close>

theorem dns_transactions_cleared:
  assumes reach: "worker_reach vip first_port last_port n w" and n: "n < 18446744073709551615"
    and cfg: "listen config = vip"
  shows "(\<exists>w' es. expire_dns_transactions w now config clk = (w', Ok es) \<and>
      cleared w {k. \<exists>tx. hm_get (dns_by_key w) k = Some tx \<and> dt_expires_at tx \<le> now} w' es) \<and>
    (\<exists>w' es. abort_remote_dns_transactions w config clk = (w', Ok es) \<and>
      cleared w {k. \<exists>tx. hm_get (dns_by_key w) k = Some tx \<and> dt_remote tx} w' es)"
  using clear_run [OF worker_reach_inv [OF reach n] cfg] by blast

theorem dns_transactions_cleared_witness:
  "\<exists>w' es. expire_dns_transactions sample_dns_worker 200 sample_dns_config (\<lambda>_. 200) = (w', Ok es) \<and>
    hm_get (dns_by_key w') sample_dns_key = None"
proof -
  have "listen sample_dns_config = sample_vip" by (simp add: sample_dns_config_def)
  then obtain w' es where "expire_dns_transactions sample_dns_worker 200 sample_dns_config (\<lambda>_. 200) = (w', Ok es)"
    and c: "cleared sample_dns_worker {k. \<exists>tx. hm_get (dns_by_key sample_dns_worker) k = Some tx \<and> dt_expires_at tx \<le> 200} w' es"
    using dns_transactions_cleared [OF sample_dns_reach, of sample_dns_config 200 "\<lambda>_. 200"] by auto
  moreover have "hm_get (dns_by_key w') sample_dns_key = None"
    using c sample_dns_pending by (auto simp: cleared_def dropped_def sample_dns_tx_def)
  ultimately show ?thesis by blast
qed

end
