(* ===== verification/Dispatcher.thy ===== *)
theory Dispatcher
  imports Flow_Worker "HOL-Library.Sublist"
begin

text \<open>
  The bounded channels from the I/O threads to the flow workers (\<open>FlowDispatcher\<close> and
  \<open>bounded_flow_channels\<close> of \<open>flow_plane/worker.rs\<close>).  A channel is the queue of a
  \<open>mpsc::sync_channel\<close>: a full queue rejects \<open>try_send\<close> and blocks \<open>send\<close>, a dropped receiver
  fails both.
\<close>

section \<open>Model\<close>

datatype flow_message =
    InterceptIngress io_owner_key bytes "session_locator option"
  | TunnelIngress io_owner_key bytes socket_addr ip_addr bytes
  | ReloadPolicies "string list option"

datatype dispatch_result = Accepted | DroppedFull | DroppedDisconnected | InvalidWorker

record dispatch_stats =
  channel_full_drops :: u64
  channel_disconnected_drops :: u64
  invalid_worker_drops :: u64

datatype flow_channel_error = ZeroChannelWorkers | ZeroCapacity

record channel =
  ch_capacity :: nat
  ch_queue :: "flow_message list"
  ch_connected :: bool

record dispatcher =
  senders :: "channel list"
  counters :: dispatch_stats

definition sync_channel :: "nat \<Rightarrow> channel" where
  "sync_channel capacity = \<lparr> ch_capacity = capacity, ch_queue = [], ch_connected = True \<rparr>"

definition bounded_flow_channels :: "nat \<Rightarrow> nat \<Rightarrow> (dispatcher, flow_channel_error) result" where
  "bounded_flow_channels worker_count capacity =
    guard_err (worker_count = 0) ZeroChannelWorkers
     (guard_err (capacity = 0) ZeroCapacity
      (Ok \<lparr> senders = replicate worker_count (sync_channel capacity),
            counters = \<lparr> channel_full_drops = 0, channel_disconnected_drops = 0, invalid_worker_drops = 0 \<rparr> \<rparr>))"

text \<open>\<open>SyncSender::try_send\<close>, and \<open>SyncSender::send\<close> with a blocked sender as \<open>None\<close>.\<close>

definition try_send :: "channel \<Rightarrow> flow_message \<Rightarrow> channel \<times> dispatch_result" where
  "try_send ch message =
    (if \<not> ch_connected ch then (ch, DroppedDisconnected)
     else if ch_capacity ch \<le> length (ch_queue ch) then (ch, DroppedFull)
     else (ch\<lparr> ch_queue := ch_queue ch @ [message] \<rparr>, Accepted))"

definition send :: "channel \<Rightarrow> flow_message \<Rightarrow> channel option" where
  "send ch message =
    (case try_send ch message of (ch', DroppedFull) \<Rightarrow> None | (ch', _) \<Rightarrow> Some ch')"

definition count_drop :: "dispatch_result \<Rightarrow> dispatch_stats \<Rightarrow> dispatch_stats" where
  "count_drop outcome s =
    (case outcome of
       Accepted \<Rightarrow> s
     | DroppedFull \<Rightarrow> s\<lparr> channel_full_drops := channel_full_drops s + 1 \<rparr>
     | DroppedDisconnected \<Rightarrow> s\<lparr> channel_disconnected_drops := channel_disconnected_drops s + 1 \<rparr>
     | InvalidWorker \<Rightarrow> s\<lparr> invalid_worker_drops := invalid_worker_drops s + 1 \<rparr>)"

definition dispatch_to :: "dispatcher \<Rightarrow> worker_id \<Rightarrow> flow_message \<Rightarrow> dispatcher \<times> dispatch_result" where
  "dispatch_to d worker message =
    (if length (senders d) \<le> worker then (d\<lparr> counters := count_drop InvalidWorker (counters d) \<rparr>, InvalidWorker)
     else
       let (ch, outcome) = try_send (senders d ! worker) message
       in (d\<lparr> senders := (senders d)[worker := ch], counters := count_drop outcome (counters d) \<rparr>, outcome))"

text \<open>
  The broadcast loop from sender \<open>k\<close> on: the dispatcher when it is done, or the sender at
  which it waits, with the dispatcher as it is then.
\<close>

function broadcast_from :: "nat \<Rightarrow> dispatcher \<Rightarrow> flow_message \<Rightarrow> nat option \<times> dispatcher" where
  "broadcast_from k d message =
    (if length (senders d) \<le> k then (None, d)
     else
       case send (senders d ! k) message of
         None \<Rightarrow> (Some k, d)
       | Some ch \<Rightarrow> broadcast_from (Suc k) (d\<lparr> senders := (senders d)[k := ch] \<rparr>) message)"
  by pat_completeness auto
termination by (relation "measure (\<lambda>(k, d, m). length (senders d) - k)") auto

declare broadcast_from.simps [simp del]

definition broadcast :: "dispatcher \<Rightarrow> flow_message \<Rightarrow> nat option \<times> dispatcher" where
  "broadcast d message = broadcast_from 0 d message"

text \<open>The other ends: \<open>Receiver::try_recv\<close> and a dropped receiver.\<close>

definition receive :: "dispatcher \<Rightarrow> worker_id \<Rightarrow> dispatcher \<times> flow_message option" where
  "receive d worker =
    (if length (senders d) \<le> worker then (d, None)
     else
       case ch_queue (senders d ! worker) of
         [] \<Rightarrow> (d, None)
       | message # rest \<Rightarrow>
           (d\<lparr> senders := (senders d)[worker := (senders d ! worker)\<lparr> ch_queue := rest \<rparr>] \<rparr>, Some message))"

definition drop_receiver :: "dispatcher \<Rightarrow> worker_id \<Rightarrow> dispatcher" where
  "drop_receiver d worker =
    (if length (senders d) \<le> worker then d
     else d\<lparr> senders := (senders d)[worker := (senders d ! worker)\<lparr> ch_queue := [], ch_connected := False \<rparr>] \<rparr>)"

section \<open>Interleavings\<close>

text \<open>What the threads do to the channels, in the order in which it takes effect.\<close>

datatype channel_event = Dispatch worker_id flow_message | Receive worker_id | DropReceiver worker_id

text \<open>The dispatcher with, for each worker, the messages accepted for it and those it has received.\<close>

record channel_log =
  log_dispatcher :: dispatcher
  accepted :: "worker_id \<Rightarrow> flow_message list"
  received :: "worker_id \<Rightarrow> flow_message list"
  dropped_count :: nat

fun channel_step :: "channel_log \<Rightarrow> channel_event \<Rightarrow> channel_log" where
  "channel_step l (Dispatch k m) =
    (let (d, outcome) = dispatch_to (log_dispatcher l) k m
     in if outcome = Accepted
        then l\<lparr> log_dispatcher := d, accepted := (accepted l)(k := accepted l k @ [m]) \<rparr>
        else l\<lparr> log_dispatcher := d, dropped_count := Suc (dropped_count l) \<rparr>)"
| "channel_step l (Receive k) =
    (let (d, r) = receive (log_dispatcher l) k
     in case r of
          None \<Rightarrow> l\<lparr> log_dispatcher := d \<rparr>
        | Some m \<Rightarrow> l\<lparr> log_dispatcher := d, received := (received l)(k := received l k @ [m]) \<rparr>)"
| "channel_step l (DropReceiver k) = l\<lparr> log_dispatcher := drop_receiver (log_dispatcher l) k \<rparr>"

definition start_log :: "dispatcher \<Rightarrow> channel_log" where
  "start_log d = \<lparr> log_dispatcher = d, accepted = (\<lambda>_. []), received = (\<lambda>_. []), dropped_count = 0 \<rparr>"

definition run_channels :: "dispatcher \<Rightarrow> channel_event list \<Rightarrow> channel_log" where
  "run_channels d events = foldl channel_step (start_log d) events"

section \<open>Invariant\<close>

definition drops :: "dispatch_stats \<Rightarrow> u64" where
  "drops s = channel_full_drops s + channel_disconnected_drops s + invalid_worker_drops s"

definition chan_ok :: "nat \<Rightarrow> flow_message list \<Rightarrow> flow_message list \<Rightarrow> channel \<Rightarrow> bool" where
  "chan_ok capacity acc rec ch \<longleftrightarrow> ch_capacity ch = capacity \<and> length (ch_queue ch) \<le> capacity \<and>
     (if ch_connected ch then acc = rec @ ch_queue ch else ch_queue ch = [] \<and> prefix rec acc)"

definition channels_inv :: "nat \<Rightarrow> nat \<Rightarrow> channel_log \<Rightarrow> bool" where
  "channels_inv worker_count capacity l \<longleftrightarrow>
    length (senders (log_dispatcher l)) = worker_count \<and>
    drops (counters (log_dispatcher l)) = word_of_nat (dropped_count l) \<and>
    (\<forall>k<worker_count. chan_ok capacity (accepted l k) (received l k) (senders (log_dispatcher l) ! k))"

lemma drops_count: "outcome \<noteq> Accepted \<Longrightarrow> drops (count_drop outcome s) = drops s + 1"
  by (cases outcome) (simp_all add: drops_def count_drop_def)

lemma count_drop_Accepted [simp]: "count_drop Accepted s = s"
  by (simp add: count_drop_def)

lemma try_send_cases:
  obtains (full) "ch_connected ch" "ch_capacity ch \<le> length (ch_queue ch)" "try_send ch m = (ch, DroppedFull)"
  | (gone) "\<not> ch_connected ch" "try_send ch m = (ch, DroppedDisconnected)"
  | (sent) "ch_connected ch" "length (ch_queue ch) < ch_capacity ch"
      "try_send ch m = (ch\<lparr> ch_queue := ch_queue ch @ [m] \<rparr>, Accepted)"
  by (cases "ch_connected ch"; cases "ch_capacity ch \<le> length (ch_queue ch)") (auto simp: try_send_def)

lemma chan_ok_sent:
  "chan_ok cap acc rec ch \<Longrightarrow> ch_connected ch \<Longrightarrow> length (ch_queue ch) < ch_capacity ch \<Longrightarrow>
   chan_ok cap (acc @ [m]) rec (ch\<lparr> ch_queue := ch_queue ch @ [m] \<rparr>)"
  by (simp add: chan_ok_def)

lemma chan_ok_received:
  "chan_ok cap acc rec ch \<Longrightarrow> ch_queue ch = m # ms \<Longrightarrow> chan_ok cap acc (rec @ [m]) (ch\<lparr> ch_queue := ms \<rparr>)"
  by (simp add: chan_ok_def split: if_splits)

lemma chan_ok_dropped:
  "chan_ok cap acc rec ch \<Longrightarrow> chan_ok cap acc rec (ch\<lparr> ch_queue := [], ch_connected := False \<rparr>)"
  by (auto simp: chan_ok_def split: if_splits)

lemma channels_inv_step:
  assumes inv: "channels_inv n cap l"
  shows "channels_inv n cap (channel_step l e)"
proof -
  let ?d = "log_dispatcher l"
  have len: "length (senders ?d) = n" and ok: "\<And>k. k < n \<Longrightarrow> chan_ok cap (accepted l k) (received l k) (senders ?d ! k)"
    and dr: "drops (counters ?d) = word_of_nat (dropped_count l)"
    using inv by (simp_all add: channels_inv_def)
  show ?thesis
  proof (cases e)
    case (Dispatch k m)
    show ?thesis
    proof (cases "k < n")
      case True
      show ?thesis
        by (rule try_send_cases [of "senders ?d ! k" m])
          (use Dispatch len True ok dr in
            \<open>auto simp: channels_inv_def dispatch_to_def nth_list_update drops_count intro!: chan_ok_sent\<close>)
    qed (use Dispatch len ok dr in \<open>simp add: channels_inv_def dispatch_to_def drops_count\<close>)
  next
    case (Receive k)
    then show ?thesis
      using len ok dr by (cases "k < n"; cases "ch_queue (senders ?d ! k)")
        (auto simp: channels_inv_def receive_def nth_list_update intro: chan_ok_received)
  next
    case (DropReceiver k)
    then show ?thesis
      using len ok dr by (auto simp: channels_inv_def drop_receiver_def nth_list_update intro: chan_ok_dropped)
  qed
qed

lemma channels_inv_start:
  assumes "bounded_flow_channels n cap = Ok d"
  shows "channels_inv n cap (start_log d)"
  using assms by (auto simp: bounded_flow_channels_def guard_err_eq_Ok channels_inv_def chan_ok_def start_log_def sync_channel_def drops_def)

lemma channels_inv_run:
  assumes "bounded_flow_channels n cap = Ok d"
  shows "channels_inv n cap (run_channels d es)"
  unfolding run_channels_def
  by (induction es rule: rev_induct) (simp_all add: channels_inv_start [OF assms] channels_inv_step)

section \<open>Broadcast\<close>

definition has_room :: "channel \<Rightarrow> bool" where
  "has_room ch \<longleftrightarrow> (ch_connected ch \<longrightarrow> length (ch_queue ch) < ch_capacity ch)"

definition pushed :: "flow_message \<Rightarrow> channel \<Rightarrow> channel" where
  "pushed m ch = (if ch_connected ch then ch\<lparr> ch_queue := ch_queue ch @ [m] \<rparr> else ch)"

lemma send_eq: "send ch m = (if has_room ch then Some (pushed m ch) else None)"
  by (rule try_send_cases [of ch m]) (auto simp: send_def has_room_def pushed_def)

lemma broadcast_from_run:
  assumes "\<forall>ch\<in>set (drop k (senders d)). has_room ch"
  shows "broadcast_from k d m =
    (None, d\<lparr> senders := take k (senders d) @ map (pushed m) (drop k (senders d)) \<rparr>)"
  using assms
proof (induction k d m rule: broadcast_from.induct)
  case (1 k d m)
  show ?case
  proof (cases "length (senders d) \<le> k")
    case False
    let ?d = "d\<lparr> senders := (senders d)[k := pushed m (senders d ! k)] \<rparr>"
    have dr: "drop k (senders d) = senders d ! k # drop (Suc k) (senders d)"
      using False by (simp add: Cons_nth_drop_Suc)
    then have room: "has_room (senders d ! k)" using 1(2) by simp
    have "broadcast_from k d m = broadcast_from (Suc k) ?d m"
      using False room by (subst broadcast_from.simps) (simp add: send_eq)
    also have "\<dots> = (None, ?d\<lparr> senders := take (Suc k) (senders ?d) @ map (pushed m) (drop (Suc k) (senders ?d)) \<rparr>)"
      using 1 False room dr by (intro 1(1) [of "pushed m (senders d ! k)"]) (simp_all add: send_eq)
    finally show ?thesis
      using False dr by (simp add: take_Suc_conv_app_nth take_update_cancel)
  qed (simp add: broadcast_from.simps)
qed

section \<open>Theorems\<close>

text \<open>
  C18: However dispatching, receiving and dropping of receivers interleave, each channel is a
  bounded first-in first-out queue: the messages accepted for a worker are those it has
  received, in order, followed by those still queued (and nothing is received that was not
  accepted once its receiver is gone); no queue exceeds its capacity; and every message that
  was not accepted is counted as one drop.  A broadcast that finds room in every connected
  channel ends and appends its message to each of them once.
\<close>

theorem channels_fifo:
  assumes "bounded_flow_channels worker_count capacity = Ok d"
  shows "channels_inv worker_count capacity (run_channels d events) \<and>
    (\<forall>d'. (\<forall>ch\<in>set (senders d'). has_room ch) \<longrightarrow>
       broadcast d' m = (None, d'\<lparr> senders := map (pushed m) (senders d') \<rparr>))"
  using channels_inv_run [OF assms] broadcast_from_run [of 0] by (simp add: broadcast_def)

theorem channels_fifo_witness:
  "channels_inv 2 1 (run_channels \<lparr> senders = replicate 2 (sync_channel 1),
      counters = \<lparr> channel_full_drops = 0, channel_disconnected_drops = 0, invalid_worker_drops = 0 \<rparr> \<rparr>
      [Dispatch 0 (ReloadPolicies None), Dispatch 0 (ReloadPolicies None), Receive 0, Dispatch 7 (ReloadPolicies None)])"
  using channels_fifo [of 2 1] by (simp add: bounded_flow_channels_def)

end
