(* ===== verification/Io_Worker.thy ===== *)
theory Io_Worker
  imports Dispatcher Dns_Message
begin

text \<open>
  Classification of Ethernet frames by an I/O thread (\<open>xdp_datapath/io_worker.rs\<close>): every frame
  is left to the kernel, dropped, or dispatched to one flow worker.  Parameters of the model:
  \<open>net_contains\<close> is \<open>IpNet::contains\<close> of the \<open>ipnet\<close> crate, and \<open>dns_hash\<close> is the hash of an I/O owner
  and a transaction key by \<open>DefaultHasher\<close>, whose algorithm the standard library leaves open.
\<close>

section \<open>Model\<close>

definition ETHERNET_HEADER_LEN :: nat where [simp]: "ETHERNET_HEADER_LEN = 14"
definition ETH_P_IPV4 :: u16 where [simp]: "ETH_P_IPV4 = 0x0800"
definition ETH_P_IPV6 :: u16 where [simp]: "ETH_P_IPV6 = 0x86dd"

datatype 'n intercept_policy = TunnelPrefixes "'n list" | DirectPrefixes "'n list" | All

record dns_local_response_classifier =
  resolver :: socket_addr
  nat_ip :: ip_addr
  nat_ports :: "u16 \<times> u16"

record 'n io_classifier_config =
  io_owner :: io_owner_key
  tunnel :: bool
  intercept :: bool
  tunnel_port :: u16
  tunnel_local_ips :: "ip_addr list"
  nat_return_ips :: "ip_addr list"
  dns_listen :: "socket_addr option"
  dns_local_response :: "dns_local_response_classifier option"
  dcid_len :: nat
  flow_worker_count :: nat
  policy :: "'n intercept_policy"

datatype drop_reason =
    MalformedEthernet
  | MalformedIp
  | MalformedUdp
  | InvalidQuic
  | UnknownDcid
  | UnknownDnsTransaction
  | UnknownNatTuple
  | FragmentedDns
  | InvalidFlow
  | DispatchRejected dispatch_result

datatype ingress_outcome = Passed | Dispatched worker_id | Dropped drop_reason

record parsed_ip_frame =
  ip_packet :: bytes
  pf_source :: ip_addr
  pf_destination :: ip_addr
  pf_protocol :: u8
  transport_offset :: nat
  fragmented :: bool

record outer_quic =
  oq_dcid :: bytes
  oq_remote :: socket_addr
  oq_local_ip :: ip_addr
  oq_payload :: bytes
  bootstrap :: bool

subsection \<open>Parsing\<close>

definition parse_ipv4_frame :: "bytes \<Rightarrow> (parsed_ip_frame, drop_reason) result" where
  "parse_ipv4_frame packet =
    and_then (ok_or (slice_get packet 0 20) MalformedIp) (\<lambda>header.
    and_then (rd8 header 0) (\<lambda>b0.
    guard_err (drop_bit 4 b0 \<noteq> 4) MalformedIp
     (and_then (rd16 header 2) (\<lambda>w.
      let header_len = unat (b0 AND 0x0f) * 4; total_len = unat w in
      guard_err (header_len < 20 \<or> total_len < header_len \<or> length packet < total_len) MalformedIp
       (and_then (rd16 header 6) (\<lambda>fragment.
        and_then (slice_at packet 0 total_len) (\<lambda>ip.
        and_then (slice_at header 12 16) (\<lambda>src.
        and_then (slice_at header 16 20) (\<lambda>dst.
        and_then (rd8 header 9) (\<lambda>proto.
          Ok \<lparr> ip_packet = ip, pf_source = V4 (from_be_bytes src), pf_destination = V4 (from_be_bytes dst),
               pf_protocol = proto, transport_offset = header_len,
               fragmented = (fragment AND 0x3fff \<noteq> 0) \<rparr>))))))))))"

text \<open>One extension header: its successor and the offset behind it.\<close>

definition io_extension :: "bytes \<Rightarrow> nat \<Rightarrow> nat \<Rightarrow> nat \<Rightarrow> (u8 \<Rightarrow> nat) \<Rightarrow> (u8 \<times> nat, drop_reason) result" where
  "io_extension packet total_len offset need octets =
    and_then (ok_or (slice_get packet offset (offset + need)) MalformedIp) (\<lambda>header.
    and_then (rd8 header 0) (\<lambda>next_header.
    and_then (rd8 header 1) (\<lambda>units.
      guard_err (total_len < offset + octets units) MalformedIp (Ok (next_header, offset + octets units)))))"

fun io_transport_offset ::
  "nat \<Rightarrow> bytes \<Rightarrow> nat \<Rightarrow> u8 \<Rightarrow> nat \<Rightarrow> bool \<Rightarrow> (u8 \<times> nat \<times> bool, drop_reason) result" where
  "io_transport_offset 0 packet total_len next_header offset frag = Err MalformedIp"
| "io_transport_offset (Suc n) packet total_len next_header offset frag =
    (if next_header = IP_PROTOCOL_HOP_BY_HOP \<or> next_header = IP_PROTOCOL_ROUTING \<or>
        next_header = IP_PROTOCOL_DESTINATION_OPTIONS
     then and_then (io_extension packet total_len offset 2 (\<lambda>units. (unat units + 1) * 8)) (\<lambda>(next_header, offset).
            io_transport_offset n packet total_len next_header offset frag)
     else if next_header = IP_PROTOCOL_FRAGMENT
     then and_then (io_extension packet total_len offset 8 (\<lambda>_. 8)) (\<lambda>(next_header, offset).
            io_transport_offset n packet total_len next_header offset True)
     else if next_header = IP_PROTOCOL_AH
     then and_then (io_extension packet total_len offset 2 (\<lambda>units. (unat units + 2) * 4)) (\<lambda>(next_header, offset).
            io_transport_offset n packet total_len next_header offset frag)
     else Ok (next_header, offset, frag))"

definition parse_ipv6_frame :: "bytes \<Rightarrow> (parsed_ip_frame, drop_reason) result" where
  "parse_ipv6_frame packet =
    and_then (ok_or (slice_get packet 0 40) MalformedIp) (\<lambda>header.
    and_then (rd8 header 0) (\<lambda>b0.
    guard_err (drop_bit 4 b0 \<noteq> 6) MalformedIp
     (and_then (rd16 header 4) (\<lambda>w.
      let total_len = 40 + unat w in
      guard_err (length packet < total_len) MalformedIp
       (and_then (rd8 header 6) (\<lambda>next_header.
        and_then (io_transport_offset 8 packet total_len next_header 40 False) (\<lambda>(proto, offset, frag).
        and_then (slice_at packet 0 total_len) (\<lambda>ip.
        and_then (slice_at header 8 24) (\<lambda>src.
        and_then (slice_at header 24 40) (\<lambda>dst.
          Ok \<lparr> ip_packet = ip, pf_source = V6 (from_be_bytes src), pf_destination = V6 (from_be_bytes dst),
               pf_protocol = proto, transport_offset = offset, fragmented = frag \<rparr>))))))))))"

definition parse_ip_frame :: "bytes \<Rightarrow> (parsed_ip_frame, drop_reason) result" where
  "parse_ip_frame frame =
    and_then (ok_or (slice_get frame 0 ETHERNET_HEADER_LEN) MalformedEthernet) (\<lambda>ethernet.
    and_then (rd16 ethernet 12) (\<lambda>ether_type.
    and_then (slice_at frame ETHERNET_HEADER_LEN (length frame)) (\<lambda>packet.
      if ether_type = ETH_P_IPV4 then parse_ipv4_frame packet
      else if ether_type = ETH_P_IPV6 then parse_ipv6_frame packet
      else Err MalformedIp)))"

definition parse_quic_dcid :: "bytes \<Rightarrow> nat \<Rightarrow> (bytes \<times> bool, drop_reason) result" where
  "parse_quic_dcid packet fixed_len =
    and_then (ok_or (byte_get packet 0) InvalidQuic) (\<lambda>b0.
    guard_err (fixed_len = 0 \<or> 20 < fixed_len) InvalidQuic
     (if b0 AND 0x80 \<noteq> 0 then
        and_then (ok_or (slice_get packet 1 5) InvalidQuic) (\<lambda>_.
        and_then (ok_or (byte_get packet 5) InvalidQuic) (\<lambda>len.
        guard_err (unat len = 0 \<or> 20 < unat len) InvalidQuic
         (and_then (ok_or (slice_get packet 6 (6 + unat len)) InvalidQuic) (\<lambda>dcid.
            Ok (dcid, drop_bit 4 b0 AND 0x03 = 0)))))
      else
        and_then (ok_or (slice_get packet 1 (1 + fixed_len)) InvalidQuic) (\<lambda>dcid. Ok (dcid, False))))"

text \<open>The UDP datagram of a frame: its header and what its length field leaves of the rest.\<close>

definition io_udp :: "parsed_ip_frame \<Rightarrow> (bytes \<times> bytes, drop_reason) result" where
  "io_udp frame =
    and_then (ok_or (slice_get (ip_packet frame) (transport_offset frame) (length (ip_packet frame))) MalformedUdp) (\<lambda>udp.
    and_then (ok_or (slice_get udp 0 8) MalformedUdp) (\<lambda>header. Ok (udp, header)))"

definition io_udp_body :: "bytes \<Rightarrow> bytes \<Rightarrow> (bytes, drop_reason) result" where
  "io_udp_body udp header =
    and_then (rd16 header 4) (\<lambda>w.
      ok_or (if 8 \<le> unat w then slice_get udp 8 (unat w) else None) MalformedUdp)"

definition io_udp_payload :: "parsed_ip_frame \<Rightarrow> (bytes, drop_reason) result" where
  "io_udp_payload frame = and_then (io_udp frame) (\<lambda>(udp, header). io_udp_body udp header)"

definition parse_outer_quic :: "parsed_ip_frame \<Rightarrow> u16 \<Rightarrow> nat \<Rightarrow> (outer_quic option, drop_reason) result" where
  "parse_outer_quic frame port fixed_dcid_len =
    (if pf_protocol frame \<noteq> IP_PROTOCOL_UDP then Ok None
     else
       and_then (io_udp frame) (\<lambda>(udp, header).
       and_then (rd16 header 0) (\<lambda>src_port.
       and_then (rd16 header 2) (\<lambda>dst_port.
         if dst_port \<noteq> port then Ok None
         else
           and_then (io_udp_body udp header) (\<lambda>payload.
           and_then (parse_quic_dcid payload fixed_dcid_len) (\<lambda>(dcid, boot).
             Ok (Some \<lparr> oq_dcid = dcid, oq_remote = \<lparr> sock_ip = pf_source frame, sock_port = src_port \<rparr>,
                        oq_local_ip = pf_destination frame, oq_payload = payload, bootstrap = boot \<rparr>)))))))"

definition destination_ip :: "bytes \<Rightarrow> ip_addr option" where
  "destination_ip packet =
    Option.bind (byte_get packet 0) (\<lambda>b0.
      if drop_bit 4 b0 = 4 then map_option (\<lambda>b. V4 (from_be_bytes b)) (slice_get packet 16 20)
      else if drop_bit 4 b0 = 6 then map_option (\<lambda>b. V6 (from_be_bytes b)) (slice_get packet 24 40)
      else None)"

subsection \<open>Policy\<close>

definition octet :: "nat \<Rightarrow> u32 \<Rightarrow> u8" where
  "octet i address = ucast (drop_bit (24 - 8 * i) address)"

definition segment :: "nat \<Rightarrow> 128 word \<Rightarrow> u16" where
  "segment i address = ucast (drop_bit (112 - 16 * i) address)"

text \<open>\<open>Ipv4Addr\<close> and \<open>Ipv6Addr\<close> of the standard library.\<close>

definition is_loopback4 :: "u32 \<Rightarrow> bool" where "is_loopback4 a \<longleftrightarrow> octet 0 a = 127"
definition is_private4 :: "u32 \<Rightarrow> bool" where
  "is_private4 a \<longleftrightarrow> octet 0 a = 10 \<or> octet 0 a = 172 \<and> 16 \<le> octet 1 a \<and> octet 1 a \<le> 31 \<or>
     octet 0 a = 192 \<and> octet 1 a = 168"
definition is_link_local4 :: "u32 \<Rightarrow> bool" where "is_link_local4 a \<longleftrightarrow> octet 0 a = 169 \<and> octet 1 a = 254"
definition is_multicast4 :: "u32 \<Rightarrow> bool" where "is_multicast4 a \<longleftrightarrow> 224 \<le> octet 0 a \<and> octet 0 a \<le> 239"
definition is_broadcast4 :: "u32 \<Rightarrow> bool" where "is_broadcast4 a \<longleftrightarrow> a = 0xffffffff"

definition is_public_destination :: "ip_addr \<Rightarrow> bool" where
  "is_public_destination dst =
    (case dst of
       V4 address \<Rightarrow>
         let a = octet 0 address; b = octet 1 address; c = octet 2 address in
         a \<noteq> 0 \<and> \<not> is_loopback4 address \<and> \<not> is_private4 address \<and> \<not> is_link_local4 address \<and>
         \<not> is_multicast4 address \<and> \<not> is_broadcast4 address \<and>
         \<not> (a = 100 \<and> 64 \<le> b \<and> b \<le> 127) \<and>
         \<not> (a = 192 \<and> b = 0 \<and> c = 0) \<and> \<not> (a = 192 \<and> b = 0 \<and> c = 2) \<and>
         \<not> (a = 192 \<and> b = 31 \<and> c = 196) \<and> \<not> (a = 192 \<and> b = 52 \<and> c = 193) \<and>
         \<not> (a = 192 \<and> b = 88 \<and> c = 99) \<and> \<not> (a = 192 \<and> b = 175 \<and> c = 48) \<and>
         \<not> (a = 198 \<and> (b = 18 \<or> b = 19)) \<and> \<not> (a = 198 \<and> b = 51 \<and> c = 100) \<and>
         \<not> (a = 203 \<and> b = 0 \<and> c = 113) \<and> a < 240
     | V6 address \<Rightarrow>
         let s = (\<lambda>i. segment i address) in
         address \<noteq> 0 \<and> address \<noteq> 1 \<and> s 0 AND 0xff00 \<noteq> 0xff00 \<and>
         s 0 AND 0xffc0 \<noteq> 0xfe80 \<and> s 0 AND 0xffc0 \<noteq> 0xfec0 \<and> s 0 AND 0xfe00 \<noteq> 0xfc00 \<and>
         \<not> (s 0 = 0 \<and> s 1 = 0 \<and> s 2 = 0 \<and> s 3 = 0 \<and> s 4 = 0 \<and> s 5 = 0xffff) \<and>
         \<not> (s 0 = 0x0100 \<and> s 1 = 0 \<and> s 2 = 0 \<and> s 3 = 0) \<and>
         \<not> (s 0 = 0x2001 \<and> s 1 = 0x0db8) \<and> \<not> (s 0 = 0x2001 \<and> s 1 = 0x0002 \<and> s 2 = 0))"

definition intercept_allowed :: "('n \<Rightarrow> ip_addr \<Rightarrow> bool) \<Rightarrow> 'n io_classifier_config \<Rightarrow> bytes \<Rightarrow> bool" where
  "intercept_allowed net_contains config packet =
    (case policy config of
       All \<Rightarrow> True
     | TunnelPrefixes nets \<Rightarrow>
         (case destination_ip packet of
            None \<Rightarrow> False
          | Some dst \<Rightarrow> \<exists>net\<in>set nets. net_contains net dst)
     | DirectPrefixes nets \<Rightarrow>
         (case destination_ip packet of
            None \<Rightarrow> False
          | Some dst \<Rightarrow> is_public_destination dst \<and> \<not> (\<exists>net\<in>set nets. net_contains net dst)))"

text \<open>The first four bytes of the transport header, where both ports are.\<close>

definition frame_ports :: "parsed_ip_frame \<Rightarrow> (u16 \<times> u16) option" where
  "frame_ports parsed =
    map_option (\<lambda>udp. (be16 (udp ! 0) (udp ! 1), be16 (udp ! 2) (udp ! 3)))
      (slice_get (ip_packet parsed) (transport_offset parsed) (transport_offset parsed + 4))"

definition is_dns_vip_query :: "'n io_classifier_config \<Rightarrow> parsed_ip_frame \<Rightarrow> bool" where
  "is_dns_vip_query config parsed =
    (case dns_listen config of
       None \<Rightarrow> False
     | Some vip \<Rightarrow>
         pf_destination parsed = sock_ip vip \<and> pf_protocol parsed = IP_PROTOCOL_UDP \<and>
         (case frame_ports parsed of None \<Rightarrow> False | Some (_, dst_port) \<Rightarrow> dst_port = sock_port vip))"

definition is_dns_local_resolver_response :: "'n io_classifier_config \<Rightarrow> parsed_ip_frame \<Rightarrow> bool" where
  "is_dns_local_resolver_response config parsed =
    (case dns_local_response config of
       None \<Rightarrow> False
     | Some c \<Rightarrow>
         pf_source parsed = sock_ip (resolver c) \<and> pf_destination parsed = nat_ip c \<and>
         pf_protocol parsed = IP_PROTOCOL_UDP \<and>
         (case frame_ports parsed of
            None \<Rightarrow> False
          | Some (src_port, dst_port) \<Rightarrow>
              src_port = sock_port (resolver c) \<and> fst (nat_ports c) \<le> dst_port \<and> dst_port \<le> snd (nat_ports c)))"

subsection \<open>Owners\<close>

fun ip_octets :: "ip_addr \<Rightarrow> bytes" where
  "ip_octets (V4 address) = to_be_bytes 4 address"
| "ip_octets (V6 address) = to_be_bytes 16 address"

fun protocol_code :: "transport_protocol \<Rightarrow> u8" where
  "protocol_code Tcp = 0"
| "protocol_code Udp = 1"
| "protocol_code Icmp = 2"
| "protocol_code Icmpv6 = 3"

definition stable_flow_owner :: "flow_key \<Rightarrow> nat \<Rightarrow> worker_id" where
  "stable_flow_owner flow worker_count =
    (if worker_count = 0 then 0
     else
       let bs = ip_octets (source flow) @ ip_octets (destination flow) @ to_be_bytes 2 (source_port flow) @
                to_be_bytes 2 (destination_port flow) @ [protocol_code (protocol flow)];
           hash = foldl (\<lambda>hash byte. (hash XOR ucast byte) * 0x100000001b3) (0xcbf29ce484222325 :: u64) bs
       in unat hash mod worker_count)"

definition stable_dns_owner ::
  "(io_owner_key \<Rightarrow> dns_transaction_key \<Rightarrow> u64) \<Rightarrow> io_owner_key \<Rightarrow> flow_key \<Rightarrow> bytes \<Rightarrow> nat \<Rightarrow>
   (worker_id, drop_reason) result" where
  "stable_dns_owner dns_hash owner flow payload worker_count =
    (if worker_count = 0 then Ok 0
     else
       and_then (transaction_key \<lparr> sock_ip = source flow, sock_port = source_port flow \<rparr> payload) (\<lambda>key.
         Ok (unat (dns_hash owner key) mod worker_count)))"

subsection \<open>Classification\<close>

text \<open>What to do with a frame that is not dropped.\<close>

datatype frame_action = Pass | Send worker_id flow_message

definition classify_tunnel ::
  "'n io_classifier_config \<Rightarrow> active_dcid_index \<Rightarrow> parsed_ip_frame \<Rightarrow> (frame_action, drop_reason) result" where
  "classify_tunnel config active_dcids parsed =
    and_then (parse_outer_quic parsed (tunnel_port config) (dcid_len config)) (\<lambda>found.
      case found of
        None \<Rightarrow> Ok Pass
      | Some oq \<Rightarrow>
          and_then (case resolve active_dcids (oq_dcid oq) of
                      Some owner \<Rightarrow> Ok (owner_worker owner)
                    | None \<Rightarrow>
                        if bootstrap oq
                        then map_err (\<lambda>_. InvalidQuic) (bootstrap_owner (oq_dcid oq) (flow_worker_count config))
                        else Err UnknownDcid) (\<lambda>worker.
            Ok (Send worker (TunnelIngress (io_owner config) (oq_dcid oq) (oq_remote oq)
                               (oq_local_ip oq) (oq_payload oq)))))"

definition classify_dns_query ::
  "(io_owner_key \<Rightarrow> dns_transaction_key \<Rightarrow> u64) \<Rightarrow> 'n io_classifier_config \<Rightarrow> parsed_ip_frame \<Rightarrow>
   (frame_action, drop_reason) result" where
  "classify_dns_query dns_hash config parsed =
    guard_err (fragmented parsed) FragmentedDns
     (and_then (map_err (\<lambda>_. InvalidFlow) (parse_flow_key (ip_packet parsed))) (\<lambda>flow.
      and_then (io_udp_payload parsed) (\<lambda>payload.
      and_then (stable_dns_owner dns_hash (io_owner config) flow payload (flow_worker_count config)) (\<lambda>worker.
        Ok (Send worker (InterceptIngress (io_owner config) (ip_packet parsed) None))))))"

definition send_located :: "'n io_classifier_config \<Rightarrow> parsed_ip_frame \<Rightarrow> session_locator \<Rightarrow> frame_action" where
  "send_located config parsed locator =
    Send (flow_worker_id locator) (InterceptIngress (io_owner config) (ip_packet parsed) (Some locator))"

definition classify_dns_response ::
  "'n io_classifier_config \<Rightarrow> reverse_nat_directory \<Rightarrow> parsed_ip_frame \<Rightarrow> (frame_action, drop_reason) result" where
  "classify_dns_response config reverse_nat parsed =
    guard_err (fragmented parsed) FragmentedDns
     (and_then (map_err (\<lambda>_. InvalidFlow) (parse_flow_key (ip_packet parsed))) (\<lambda>flow.
        case lookup reverse_nat flow of
          None \<Rightarrow> Err UnknownDnsTransaction
        | Some locator \<Rightarrow> Ok (send_located config parsed locator)))"

definition classify_flow ::
  "('n \<Rightarrow> ip_addr \<Rightarrow> bool) \<Rightarrow> 'n io_classifier_config \<Rightarrow> reverse_nat_directory \<Rightarrow> parsed_ip_frame \<Rightarrow>
   (frame_action, drop_reason) result" where
  "classify_flow net_contains config reverse_nat parsed =
    and_then (map_err (\<lambda>_. InvalidFlow) (parse_flow_key (ip_packet parsed))) (\<lambda>flow.
      case lookup reverse_nat flow of
        Some locator \<Rightarrow> Ok (send_located config parsed locator)
      | None \<Rightarrow>
          if pf_destination parsed \<in> set (nat_return_ips config) then Err UnknownNatTuple
          else if \<not> intercept_allowed net_contains config (ip_packet parsed) then Ok Pass
          else Ok (Send (stable_flow_owner flow (flow_worker_count config))
                     (InterceptIngress (io_owner config) (ip_packet parsed) None)))"

definition classify_frame ::
  "('n \<Rightarrow> ip_addr \<Rightarrow> bool) \<Rightarrow> (io_owner_key \<Rightarrow> dns_transaction_key \<Rightarrow> u64) \<Rightarrow> 'n io_classifier_config \<Rightarrow>
   active_dcid_index \<Rightarrow> reverse_nat_directory \<Rightarrow> bytes \<Rightarrow> (frame_action, drop_reason) result" where
  "classify_frame net_contains dns_hash config active_dcids reverse_nat frame =
    and_then (parse_ip_frame frame) (\<lambda>parsed.
      if tunnel config \<and> pf_destination parsed \<in> set (tunnel_local_ips config)
      then classify_tunnel config active_dcids parsed
      else if \<not> intercept config then Ok Pass
      else if is_dns_vip_query config parsed then classify_dns_query dns_hash config parsed
      else if is_dns_local_resolver_response config parsed then classify_dns_response config reverse_nat parsed
      else classify_flow net_contains config reverse_nat parsed)"

definition dispatch_outcome :: "worker_id \<Rightarrow> dispatch_result \<Rightarrow> ingress_outcome" where
  "dispatch_outcome worker outcome =
    (if outcome = Accepted then Dispatched worker else Dropped (DispatchRejected outcome))"

definition handle_frame ::
  "('n \<Rightarrow> ip_addr \<Rightarrow> bool) \<Rightarrow> (io_owner_key \<Rightarrow> dns_transaction_key \<Rightarrow> u64) \<Rightarrow> 'n io_classifier_config \<Rightarrow>
   dispatcher \<Rightarrow> bytes \<Rightarrow> active_dcid_index \<Rightarrow> reverse_nat_directory \<Rightarrow> dispatcher \<times> (ingress_outcome, unit) result" where
  "handle_frame net_contains dns_hash config d frame active_dcids reverse_nat =
    (case classify_frame net_contains dns_hash config active_dcids reverse_nat frame of
       Panic \<Rightarrow> (d, Panic)
     | Err reason \<Rightarrow> (d, Ok (Dropped reason))
     | Ok Pass \<Rightarrow> (d, Ok Passed)
     | Ok (Send worker message) \<Rightarrow>
         let (d', outcome) = dispatch_to d worker message in (d', Ok (dispatch_outcome worker outcome)))"

section \<open>Parsing is total\<close>

lemma io_extension_no_panic [no_panic]: "2 \<le> need \<Longrightarrow> io_extension p t off need octets \<noteq> Panic"
  by (auto simp: io_extension_def res_simps buf_simps)

lemma io_transport_offset_no_panic [no_panic]: "io_transport_offset n p t nh off frag \<noteq> Panic"
  by (induction n arbitrary: nh off frag) (auto simp: and_then_eq_Panic no_panic split: prod.splits)

lemma parse_ip_frame_no_panic [no_panic]: "parse_ip_frame frame \<noteq> Panic"
proof -
  have "parse_ipv4_frame p \<noteq> Panic" for p
    by (auto simp: parse_ipv4_frame_def Let_def res_simps buf_simps)
  moreover have "parse_ipv6_frame p \<noteq> Panic" for p
    by (auto simp: parse_ipv6_frame_def Let_def res_simps buf_simps no_panic split: prod.splits)
  ultimately show ?thesis
    by (auto simp: parse_ip_frame_def res_simps buf_simps)
qed

lemma io_udp_Ok: "io_udp f = Ok (udp, header) \<Longrightarrow> length header = 8"
  by (auto simp: io_udp_def res_simps buf_simps)

lemma io_udp_no_panic [no_panic]: "io_udp f \<noteq> Panic"
  by (auto simp: io_udp_def res_simps buf_simps)

lemma io_udp_body_no_panic: "length header = 8 \<Longrightarrow> io_udp_body udp header \<noteq> Panic"
  by (auto simp: io_udp_body_def res_simps buf_simps)

lemma parse_quic_dcid_no_panic [no_panic]: "parse_quic_dcid p n \<noteq> Panic"
  by (auto simp: parse_quic_dcid_def res_simps)

lemma io_udp_payload_no_panic [no_panic]: "io_udp_payload f \<noteq> Panic"
  using io_udp_body_no_panic io_udp_Ok [of f] by (auto simp: io_udp_payload_def and_then_eq_Panic no_panic)

lemma parse_outer_quic_no_panic [no_panic]: "parse_outer_quic f port n \<noteq> Panic"
  using io_udp_body_no_panic io_udp_Ok [of f]
  by (auto simp: parse_outer_quic_def and_then_eq_Panic rd16_eq_Panic no_panic split: prod.splits)

section \<open>Agreement with the flow parser\<close>

lemma io_extension_agree:
  assumes "skip_extension (take t p) t off octets = Ok x" and "io_extension p t off 2 octets = Ok y"
  shows "y = x"
  using assms by (auto simp: skip_extension_def io_extension_def res_simps buf_simps Let_def)

lemma io_transport_offset_agree:
  assumes "ipv6_transport_offset n (take t p) t nh off = Ok (proto, o')"
    and "io_transport_offset n p t nh off frag = Ok x"
  shows "x = (proto, o', frag)"
  using assms
proof (induction n arbitrary: nh off)
  case (Suc n)
  have oc: "(\<lambda>units. 8 + unat units * 8) = option_len" "(\<lambda>units. 8 + unat units * 4) = ah_len"
    by (simp_all add: fun_eq_iff option_len_def ah_len_def)
  have ext: "x = (proto, o', frag)"
    if s: "and_then (skip_extension (take t p) t off octets) (\<lambda>(nh, off). ipv6_transport_offset n (take t p) t nh off) = Ok (proto, o')"
      and e: "and_then (io_extension p t off 2 octets) (\<lambda>(nh, off). io_transport_offset n p t nh off frag) = Ok x" for octets
  proof -
    obtain y z where "skip_extension (take t p) t off octets = Ok (y, z)" "ipv6_transport_offset n (take t p) t y z = Ok (proto, o')"
      using s by (auto simp: and_then_eq_Ok)
    moreover obtain y' z' where "io_extension p t off 2 octets = Ok (y', z')" "io_transport_offset n p t y' z' frag = Ok x"
      using e by (auto simp: and_then_eq_Ok)
    ultimately show ?thesis using io_extension_agree [of t p off octets "(y, z)" "(y', z')"] Suc.IH by simp
  qed
  show ?case
    using Suc.prems ext [of option_len] ext [of ah_len]
    by (auto simp: oc res_simps simp del: IP_PROTOCOL_HOP_BY_HOP_def split: if_splits)
qed simp

lemma parse_ipv4_frame_OkD:
  assumes "parse_ipv4_frame p = Ok pf"
  defines "h \<equiv> unat (p ! 0 AND 0x0f) * 4" and "t \<equiv> unat (be16 (p ! 2) (p ! 3))"
  shows "drop_bit 4 (p ! 0) = 4 \<and> 20 \<le> h \<and> h \<le> t \<and> t \<le> length p \<and>
    pf = \<lparr> ip_packet = take t p, pf_source = V4 (from_be_bytes (take 4 (drop 12 p))),
           pf_destination = V4 (from_be_bytes (take 4 (drop 16 p))), pf_protocol = p ! 9, transport_offset = h,
           fragmented = (be16 (p ! 6) (p ! 7) AND 0x3fff \<noteq> 0) \<rparr>"
  using assms(1) unfolding h_def t_def
  by (auto simp: parse_ipv4_frame_def Let_def res_simps buf_simps drop_take)

lemma parse_ipv6_frame_OkD:
  assumes "parse_ipv6_frame p = Ok pf"
  defines "t \<equiv> 40 + unat (be16 (p ! 4) (p ! 5))"
  obtains proto off frag where "io_transport_offset 8 p t (p ! 6) 40 False = Ok (proto, off, frag)"
    and "drop_bit 4 (p ! 0) = 6" and "t \<le> length p"
    and "pf = \<lparr> ip_packet = take t p, pf_source = V6 (from_be_bytes (take 16 (drop 8 p))),
           pf_destination = V6 (from_be_bytes (take 16 (drop 24 p))), pf_protocol = proto, transport_offset = off,
           fragmented = frag \<rparr>"
  using assms(1) unfolding t_def
  by (auto simp: parse_ipv6_frame_def Let_def res_simps buf_simps drop_take split: prod.splits)

lemma frame_packet:
  assumes "parse_ip_frame frame = Ok pf"
  shows "parse_ipv4_frame (drop 14 frame) = Ok pf \<or> parse_ipv6_frame (drop 14 frame) = Ok pf"
  using assms by (auto simp: parse_ip_frame_def res_simps buf_simps split: if_splits)

text \<open>A frame whose packet has a flow: both parsers read the same fields.\<close>

lemma frame_flow4:
  assumes pf: "parse_ipv4_frame p = Ok pf" and f: "parse_flow_key (ip_packet pf) = Ok f"
  shows "source f = pf_source pf \<and> destination f = pf_destination pf \<and> \<not> fragmented pf \<and>
    transport_ports (pf_protocol pf) (drop (transport_offset pf) (ip_packet pf)) = Ok (source_port f, destination_port f, protocol f) \<and>
    destination_ip (ip_packet pf) = Some (destination f)"
proof -
  let ?h = "unat (p ! 0 AND 0x0f) * 4" and ?t = "unat (be16 (p ! 2) (p ! 3))"
  have v: "drop_bit 4 (p ! 0) = 4" and le: "20 \<le> ?h" "?h \<le> ?t" "?t \<le> length p"
    and pf': "pf = \<lparr> ip_packet = take ?t p, pf_source = V4 (from_be_bytes (take 4 (drop 12 p))),
           pf_destination = V4 (from_be_bytes (take 4 (drop 16 p))), pf_protocol = p ! 9, transport_offset = ?h,
           fragmented = (be16 (p ! 6) (p ! 7) AND 0x3fff \<noteq> 0) \<rparr>"
    using parse_ipv4_frame_OkD [OF pf] by simp_all
  have t20: "20 \<le> ?t" using le by linarith
  then have nth: "take ?t p ! k = p ! k" if "k < 20" for k using that by simp
  have sl: "take 4 (drop 12 (take ?t p)) = take 4 (drop 12 p)" "take 4 (drop 16 (take ?t p)) = take 4 (drop 16 p)"
    using t20 by (simp_all add: drop_take min_def)
  have m: "transport_metadata (take ?t p) = Ok (p ! 9, ?h, ?t)"
    using v le t20 by (auto simp: transport_metadata_def ip_version_def ipv4_lengths_def Let_def guard_err_def buf_simps)
  have v': "drop_bit 4 (take ?t p ! 0) = 4" using v nth [of 0] by simp
  have pp: "parse_flow_key (take ?t p) = Ok f" using f by (simp add: pf')
  note fields = iffD1 [OF parse_flow_key_ipv4 [OF m v'] pp]
  have "destination_ip (take ?t p) = Some (destination f)"
    using fields v' t20 le by (simp add: destination_ip_def byte_get_def slice_get_def)
  then show ?thesis using fields sl nth [of 6] nth [of 7] le by (simp add: pf')
qed

lemma frame_flow6:
  assumes pf: "parse_ipv6_frame p = Ok pf" and f: "parse_flow_key (ip_packet pf) = Ok f"
  shows "source f = pf_source pf \<and> destination f = pf_destination pf \<and> \<not> fragmented pf \<and>
    transport_ports (pf_protocol pf) (drop (transport_offset pf) (ip_packet pf)) = Ok (source_port f, destination_port f, protocol f) \<and>
    destination_ip (ip_packet pf) = Some (destination f)"
proof (rule parse_ipv6_frame_OkD [OF pf])
  let ?t = "40 + unat (be16 (p ! 4) (p ! 5))"
  fix proto off frag
  assume io: "io_transport_offset 8 p ?t (p ! 6) 40 False = Ok (proto, off, frag)"
    and v: "drop_bit 4 (p ! 0) = 6" and le: "?t \<le> length p"
    and pf': "pf = \<lparr> ip_packet = take ?t p, pf_source = V6 (from_be_bytes (take 16 (drop 8 p))),
           pf_destination = V6 (from_be_bytes (take 16 (drop 24 p))), pf_protocol = proto, transport_offset = off,
           fragmented = frag \<rparr>"
  have nth: "take ?t p ! k = p ! k" if "k < 40" for k using that by simp
  have sl: "take 16 (drop 8 (take ?t p)) = take 16 (drop 8 p)" "take 16 (drop 24 (take ?t p)) = take 16 (drop 24 p)"
    by (simp_all add: drop_take min_def)
  have pp: "parse_flow_key (take ?t p) = Ok f" using f by (simp add: pf')
  then obtain proto' a b where m: "transport_metadata (take ?t p) = Ok (proto', a, b)" by (rule parse_flow_key_meta)
  have v': "drop_bit 4 (take ?t p ! 0) = 6" using v nth [of 0] by simp
  have "ipv6_transport_offset 8 (take ?t p) b (p ! 6) 40 = Ok (proto', a) \<and> b = ?t"
    using m v' nth le by (auto simp: transport_metadata_def ip_version_def ipv6_length_def Let_def res_simps buf_simps split: if_splits)
  then have b: "b = ?t" and agree: "(proto, off, frag) = (proto', a, False)"
    using io_transport_offset_agree io by blast+
  note fields = iffD1 [OF parse_flow_key_ipv6 [OF m v'] pp]
  have "destination_ip (take ?t p) = Some (destination f)"
    using fields v' le by (simp add: destination_ip_def byte_get_def slice_get_def)
  then show ?thesis using fields sl agree b le by (simp add: pf')
qed

lemma frame_flow:
  assumes "parse_ip_frame frame = Ok pf" and "parse_flow_key (ip_packet pf) = Ok f"
  shows "source f = pf_source pf \<and> destination f = pf_destination pf \<and> \<not> fragmented pf \<and>
    transport_ports (pf_protocol pf) (drop (transport_offset pf) (ip_packet pf)) = Ok (source_port f, destination_port f, protocol f) \<and>
    destination_ip (ip_packet pf) = Some (destination f)"
  using frame_packet [OF assms(1)] frame_flow4 [OF _ assms(2)] frame_flow6 [OF _ assms(2)] by blast

lemma frame_ports_flow:
  assumes "transport_ports (pf_protocol pf) (drop (transport_offset pf) (ip_packet pf)) = Ok (sp, dp, tp)"
    and "tp = Tcp \<or> tp = Udp"
  shows "frame_ports pf = Some (sp, dp)"
proof -
  have "4 \<le> length (drop (transport_offset pf) (ip_packet pf))"
    using assms by (auto simp: transport_ports_Ok)
  then show ?thesis
    using assms by (auto simp: transport_ports_Ok frame_ports_def slice_get_def sport_at_def dport_at_def numeral_eq_Suc)
qed

lemma frame_protocol:
  assumes "transport_ports proto s = Ok (sp, dp, tp)"
  shows "proto = IP_PROTOCOL_UDP \<longleftrightarrow> tp = Udp"
  using assms by (cases tp) (auto simp: transport_ports_Ok)

text \<open>What the DNS tests look at, on a flow.\<close>

definition to_dns_vip :: "'n io_classifier_config \<Rightarrow> flow_key \<Rightarrow> bool" where
  "to_dns_vip config f \<longleftrightarrow> protocol f = Udp \<and>
     dns_listen config = Some \<lparr> sock_ip = destination f, sock_port = destination_port f \<rparr>"

definition from_local_resolver :: "'n io_classifier_config \<Rightarrow> flow_key \<Rightarrow> bool" where
  "from_local_resolver config f \<longleftrightarrow> protocol f = Udp \<and>
     (case dns_local_response config of
        None \<Rightarrow> False
      | Some c \<Rightarrow> resolver c = \<lparr> sock_ip = source f, sock_port = source_port f \<rparr> \<and> nat_ip c = destination f \<and>
          fst (nat_ports c) \<le> destination_port f \<and> destination_port f \<le> snd (nat_ports c))"

lemma is_dns_vip_query_flow:
  assumes "parse_ip_frame frame = Ok pf" and "parse_flow_key (ip_packet pf) = Ok f"
  shows "is_dns_vip_query config pf \<longleftrightarrow> to_dns_vip config f"
proof -
  note g = frame_flow [OF assms]
  have u: "pf_protocol pf = IP_PROTOCOL_UDP \<longleftrightarrow> protocol f = Udp" using g frame_protocol by blast
  moreover have "protocol f = Udp \<Longrightarrow> frame_ports pf = Some (source_port f, destination_port f)"
    using g frame_ports_flow by blast
  ultimately show ?thesis
    using g by (auto simp: is_dns_vip_query_def to_dns_vip_def simp del: IP_PROTOCOL_UDP_def split: option.splits)
qed

lemma is_dns_local_resolver_response_flow:
  assumes "parse_ip_frame frame = Ok pf" and "parse_flow_key (ip_packet pf) = Ok f"
  shows "is_dns_local_resolver_response config pf \<longleftrightarrow> from_local_resolver config f"
proof -
  note g = frame_flow [OF assms]
  have u: "pf_protocol pf = IP_PROTOCOL_UDP \<longleftrightarrow> protocol f = Udp" using g frame_protocol by blast
  moreover have "protocol f = Udp \<Longrightarrow> frame_ports pf = Some (source_port f, destination_port f)"
    using g frame_ports_flow by blast
  ultimately show ?thesis
    using g by (auto simp: is_dns_local_resolver_response_def from_local_resolver_def simp del: IP_PROTOCOL_UDP_def split: option.splits)
qed

section \<open>What is dispatched, and to whom\<close>

definition policy_allows :: "('n \<Rightarrow> ip_addr \<Rightarrow> bool) \<Rightarrow> 'n intercept_policy \<Rightarrow> ip_addr \<Rightarrow> bool" where
  "policy_allows net_contains pol dst =
    (case pol of
       All \<Rightarrow> True
     | TunnelPrefixes nets \<Rightarrow> \<exists>net\<in>set nets. net_contains net dst
     | DirectPrefixes nets \<Rightarrow> is_public_destination dst \<and> (\<forall>net\<in>set nets. \<not> net_contains net dst))"

definition worker_for :: "nat \<Rightarrow> worker_id \<Rightarrow> bool" where
  "worker_for count k \<longleftrightarrow> (if count = 0 then k = 0 else k < count)"

text \<open>Where the packet of a flow that is not tunnel traffic belongs: a DNS query to the virtual
  address on any worker, a flow known to the directory with its session, and any other flow on
  the worker its key selects, when the policy takes its destination.\<close>

definition flow_route ::
  "('n \<Rightarrow> ip_addr \<Rightarrow> bool) \<Rightarrow> 'n io_classifier_config \<Rightarrow> reverse_nat_directory \<Rightarrow> flow_key \<Rightarrow> worker_id \<Rightarrow>
   session_locator option \<Rightarrow> bool" where
  "flow_route net_contains config reverse_nat f k loc \<longleftrightarrow>
    (if to_dns_vip config f then loc = None \<and> worker_for (flow_worker_count config) k
     else case lookup reverse_nat f of
            Some l \<Rightarrow> loc = Some l \<and> k = flow_worker_id l
          | None \<Rightarrow> loc = None \<and> \<not> from_local_resolver config f \<and> destination f \<notin> set (nat_return_ips config) \<and>
              policy_allows net_contains (policy config) (destination f) \<and>
              k = stable_flow_owner f (flow_worker_count config))"

definition tunnel_route :: "'n io_classifier_config \<Rightarrow> active_dcid_index \<Rightarrow> dcid \<Rightarrow> worker_id \<Rightarrow> bool" where
  "tunnel_route config active_dcids dcid k \<longleftrightarrow>
    (case resolve active_dcids dcid of
       Some owner \<Rightarrow> k = owner_worker owner
     | None \<Rightarrow> bootstrap_owner dcid (flow_worker_count config) = Ok k)"

lemma intercept_allowed_flow:
  assumes "parse_ip_frame frame = Ok pf" and "parse_flow_key (ip_packet pf) = Ok f"
  shows "intercept_allowed net_contains config (ip_packet pf) = policy_allows net_contains (policy config) (destination f)"
  using frame_flow [OF assms] by (simp add: intercept_allowed_def policy_allows_def split: intercept_policy.split)

lemma stable_dns_owner_Ok:
  "stable_dns_owner h o' f p n = Ok k \<Longrightarrow> worker_for n k"
  by (auto simp: stable_dns_owner_def worker_for_def and_then_eq_Ok split: if_splits)

lemma stable_flow_owner_range: "worker_for n (stable_flow_owner f n)"
  by (simp add: stable_flow_owner_def worker_for_def Let_def)

lemma classify_frame_intercept:
  assumes pf: "parse_ip_frame frame = Ok pf" and f: "parse_flow_key (ip_packet pf) = Ok f"
    and "\<not> (tunnel config \<and> destination f \<in> set (tunnel_local_ips config))" and "intercept config"
  shows "classify_frame nc h config dcids rn frame =
    (if to_dns_vip config f then classify_dns_query h config pf
     else case lookup rn f of
            Some l \<Rightarrow> Ok (Send (flow_worker_id l) (InterceptIngress (io_owner config) (ip_packet pf) (Some l)))
          | None \<Rightarrow>
              if from_local_resolver config f then Err UnknownDnsTransaction
              else if destination f \<in> set (nat_return_ips config) then Err UnknownNatTuple
              else if policy_allows nc (policy config) (destination f)
              then Ok (Send (stable_flow_owner f (flow_worker_count config)) (InterceptIngress (io_owner config) (ip_packet pf) None))
              else Ok Pass)"
  using assms frame_flow [OF pf f]
  by (auto simp: classify_frame_def is_dns_vip_query_flow [OF pf f] is_dns_local_resolver_response_flow [OF pf f]
      intercept_allowed_flow [OF pf f] classify_dns_response_def classify_flow_def send_located_def guard_err_def split: option.split)

lemma parse_outer_quic_local: "parse_outer_quic pf port n = Ok (Some oq) \<Longrightarrow> oq_local_ip oq = pf_destination pf"
  by (auto simp: parse_outer_quic_def and_then_eq_Ok split: if_splits prod.splits)

lemma classify_tunnel_send:
  assumes "classify_tunnel config dcids pf = Ok (Send k m)"
  obtains dcid remote payload where "m = TunnelIngress (io_owner config) dcid remote (pf_destination pf) payload"
    "tunnel_route config dcids dcid k"
proof -
  obtain oq where oq: "parse_outer_quic pf (tunnel_port config) (dcid_len config) = Ok (Some oq)"
    using assms by (auto simp: classify_tunnel_def and_then_eq_Ok split: option.splits)
  have "m = TunnelIngress (io_owner config) (oq_dcid oq) (oq_remote oq) (pf_destination pf) (oq_payload oq) \<and>
      tunnel_route config dcids (oq_dcid oq) k"
    using assms unfolding classify_tunnel_def oq
    by (cases "resolve dcids (oq_dcid oq)")
      (auto simp: tunnel_route_def and_then_eq_Ok map_err_eq_Ok parse_outer_quic_local [OF oq] split: if_splits)
  then show ?thesis using that by blast
qed

lemma classify_frame_send:
  assumes "classify_frame nc h config dcids rn frame = Ok (Send k m)"
  obtains pf where "parse_ip_frame frame = Ok pf"
    "(\<exists>dcid remote payload. m = TunnelIngress (io_owner config) dcid remote (pf_destination pf) payload \<and> tunnel config \<and>
        pf_destination pf \<in> set (tunnel_local_ips config) \<and> tunnel_route config dcids dcid k) \<or>
     (\<exists>f loc. m = InterceptIngress (io_owner config) (ip_packet pf) loc \<and> intercept config \<and>
        parse_flow_key (ip_packet pf) = Ok f \<and> flow_route nc config rn f k loc)"
proof -
  obtain pf where pf: "parse_ip_frame frame = Ok pf" using assms by (auto simp: classify_frame_def and_then_eq_Ok)
  show ?thesis
  proof (cases "tunnel config \<and> pf_destination pf \<in> set (tunnel_local_ips config)")
    case True
    then have "classify_tunnel config dcids pf = Ok (Send k m)" using assms pf by (simp add: classify_frame_def)
    then obtain dcid remote payload where "m = TunnelIngress (io_owner config) dcid remote (pf_destination pf) payload"
      "tunnel_route config dcids dcid k" by (rule classify_tunnel_send)
    then show ?thesis using that [OF pf] True by blast
  next
    case False
    then have i: "intercept config" using assms pf by (auto simp: classify_frame_def split: if_splits)
    obtain f where f: "parse_flow_key (ip_packet pf) = Ok f"
      using assms pf False i by (auto simp: classify_frame_def classify_dns_query_def classify_dns_response_def classify_flow_def
        and_then_eq_Ok map_err_eq_Ok guard_err_eq_Ok split: if_splits)
    have nt: "\<not> (tunnel config \<and> destination f \<in> set (tunnel_local_ips config))" using False frame_flow [OF pf f] by simp
    have "\<exists>loc. m = InterceptIngress (io_owner config) (ip_packet pf) loc \<and> flow_route nc config rn f k loc"
    proof (cases "to_dns_vip config f")
      case True
      then show ?thesis
        using assms stable_dns_owner_Ok unfolding classify_frame_intercept [OF pf f nt i]
        by (auto simp: flow_route_def classify_dns_query_def and_then_eq_Ok guard_err_eq_Ok)
    next
      case False
      then show ?thesis
        using assms unfolding classify_frame_intercept [OF pf f nt i]
        by (auto simp: flow_route_def split: option.splits if_splits)
    qed
    then show ?thesis using that [OF pf] i f by blast
  qed
qed

lemma classify_frame_no_panic [no_panic]: "classify_frame nc h config dcids rn frame \<noteq> Panic"
proof -
  have "classify_tunnel config dcids pf \<noteq> Panic" for pf
    by (auto simp: classify_tunnel_def and_then_eq_Panic map_err_eq_Panic bootstrap_owner_def no_panic split: option.splits)
  moreover have "classify_dns_query h config pf \<noteq> Panic" for pf
    by (auto simp: classify_dns_query_def stable_dns_owner_def and_then_eq_Panic guard_err_eq_Panic map_err_eq_Panic no_panic)
  moreover have "classify_dns_response config rn pf \<noteq> Panic" for pf
    by (auto simp: classify_dns_response_def and_then_eq_Panic guard_err_eq_Panic map_err_eq_Panic no_panic split: option.splits)
  moreover have "classify_flow nc config rn pf \<noteq> Panic" for pf
    by (auto simp: classify_flow_def and_then_eq_Panic map_err_eq_Panic no_panic split: option.splits)
  ultimately show ?thesis by (auto simp: classify_frame_def and_then_eq_Panic no_panic)
qed

definition delivered :: "dispatcher \<Rightarrow> worker_id \<Rightarrow> flow_message \<Rightarrow> dispatcher \<Rightarrow> bool" where
  "delivered d k m d' \<longleftrightarrow> k < length (senders d) \<and> ch_connected (senders d ! k) \<and> has_room (senders d ! k) \<and>
     d' = d\<lparr> senders := (senders d)[k := pushed m (senders d ! k)] \<rparr>"

lemma dispatch_to_cases:
  obtains (sent) d' where "dispatch_to d k m = (d', Accepted)" "delivered d k m d'"
  | (kept) r where "r \<noteq> Accepted" "dispatch_to d k m = (d\<lparr> counters := count_drop r (counters d) \<rparr>, r)"
proof (cases "k < length (senders d)")
  case True
  then show ?thesis
    by (cases rule: try_send_cases [of "senders d ! k" m])
      (auto simp: dispatch_to_def delivered_def has_room_def pushed_def intro: that)
qed (auto simp: dispatch_to_def intro: that)

section \<open>Special-purpose prefixes\<close>

definition in_prefix :: "nat \<Rightarrow> nat \<Rightarrow> nat \<times> nat \<Rightarrow> bool" where
  "in_prefix width a net \<longleftrightarrow> a div 2 ^ (width - snd net) = fst net div 2 ^ (width - snd net)"

text \<open>The special-purpose address blocks, as network and prefix length.\<close>

definition special4 :: "(nat \<times> nat) list" where
  "special4 = [(0x00000000, 8), (0x7f000000, 8), (0x0a000000, 8), (0xac100000, 12), (0xc0a80000, 16), (0xa9fe0000, 16),
     (0xe0000000, 4), (0xffffffff, 32), (0x64400000, 10), (0xc0000000, 24), (0xc0000200, 24), (0xc01fc400, 24),
     (0xc034c100, 24), (0xc0586300, 24), (0xc0af3000, 24), (0xc6120000, 15), (0xc6336400, 24), (0xcb007100, 24), (0xf0000000, 4)]"

definition special6 :: "(nat \<times> nat) list" where
  "special6 = [(0, 128), (1, 128), (0xff00 * 2 ^ 112, 8), (0xfe80 * 2 ^ 112, 10), (0xfec0 * 2 ^ 112, 10), (0xfc00 * 2 ^ 112, 7),
     (0xffff * 2 ^ 32, 96), (0x0100 * 2 ^ 112, 64), (0x20010db8 * 2 ^ 96, 32), (0x20010002 * 2 ^ 96, 48)]"

lemma unat_octet: "unat (octet i a) = unat a div 2 ^ (24 - 8 * i) mod 256"
  using unat_u32_less [of a]
  by (simp add: octet_def unsigned_ucast_eq unat_drop_bit_eq drop_bit_eq_div [where 'a = nat] take_bit_eq_mod [where 'a = nat])

lemma unat_segment: "unat (segment i a) = unat a div 2 ^ (112 - 16 * i) mod 65536"
  by (simp add: segment_def unsigned_ucast_eq unat_drop_bit_eq drop_bit_eq_div [where 'a = nat] take_bit_eq_mod [where 'a = nat])

lemma u8_le_iff: "(x :: u8) \<le> y \<longleftrightarrow> unat x \<le> unat y" and u8_less_iff: "x < y \<longleftrightarrow> unat x < unat y"
  by (simp_all add: word_le_nat_alt word_less_nat_alt)

text \<open>The address as its leading octets.\<close>

lemma octets_prefix:
  assumes "(n :: nat) < 2 ^ 32"
  defines "A \<equiv> n div 2 ^ 24 mod 256" and "B \<equiv> n div 2 ^ 16 mod 256" and "C \<equiv> n div 2 ^ 8 mod 256"
  shows "n div 2 ^ 24 = A \<and> n div 2 ^ 28 = A div 16 \<and> n div 2 ^ 16 = A * 256 + B \<and> n div 2 ^ 17 = A * 128 + B div 2 \<and>
    n div 2 ^ 20 = A * 16 + B div 16 \<and> n div 2 ^ 22 = A * 4 + B div 64 \<and> n div 2 ^ 8 = (A * 256 + B) * 256 + C"
proof -
  have d: "n div 2 ^ (j + k) = n div 2 ^ j div 2 ^ k" for j k by (simp add: power_add div_mult2_eq)
  have A: "n div 2 ^ 24 = A" using assms(1) by (simp add: A_def less_mult_imp_div_less)
  have B: "n div 2 ^ 16 = A * 256 + B"
    using d [of 16 8] div_mult_mod_eq [of "n div 2 ^ 16" 256] by (simp add: A [symmetric] B_def)
  have C: "n div 2 ^ 8 = (A * 256 + B) * 256 + C"
    using d [of 8 8] div_mult_mod_eq [of "n div 2 ^ 8" 256] by (simp add: B [symmetric] C_def)
  have "(A * 256 + B) div 2 = A * 128 + B div 2" "(A * 256 + B) div 16 = A * 16 + B div 16" "(A * 256 + B) div 64 = A * 4 + B div 64"
    by presburger+
  then show ?thesis
    using A B C d [of 24 4] d [of 16 1] d [of 16 4] d [of 16 6] by simp
qed

lemma digit_eq:
  fixes x :: nat
  assumes "r < m" and "s < m"
  shows "x * m + r = k * m + s \<longleftrightarrow> x = k \<and> r = s"
proof
  assume e: "x * m + r = k * m + s"
  have "(x * m + r) div m = x" "(x * m + r) mod m = r" "(k * m + s) div m = k" "(k * m + s) mod m = s" using assms by simp_all
  then show "x = k \<and> r = s" using e by metis
qed simp

lemma block_eq: "0 < m \<Longrightarrow> b div m = q \<longleftrightarrow> m * q \<le> b \<and> b < m * Suc q" for b :: nat
  by (auto simp: div_nat_eqI dividend_less_times_div)

lemma public4: "is_public_destination (V4 a) \<longleftrightarrow> (\<forall>net\<in>set special4. \<not> in_prefix 32 (unat a) net)"
proof -
  define A B C where "A = unat a div 2 ^ 24 mod 256" and "B = unat a div 2 ^ 16 mod 256" and "C = unat a div 2 ^ 8 mod 256"
  have lt: "A < 256" "B < 256" "C < 256" by (simp_all add: A_def B_def C_def)
  have p: "unat a div 2 ^ 24 = A" "unat a div 2 ^ 28 = A div 16" "unat a div 2 ^ 16 = A * 256 + B" "unat a div 2 ^ 17 = A * 128 + B div 2"
    "unat a div 2 ^ 20 = A * 16 + B div 16" "unat a div 2 ^ 22 = A * 4 + B div 64" "unat a div 2 ^ 8 = (A * 256 + B) * 256 + C"
    using octets_prefix [of "unat a"] unat_u32_less [of a] unfolding A_def B_def C_def by simp_all
  have o: "octet 0 a = k \<longleftrightarrow> A = unat k" "octet 1 a = k \<longleftrightarrow> B = unat k" "octet 2 a = k \<longleftrightarrow> C = unat k"
    "k \<le> octet 0 a \<longleftrightarrow> unat k \<le> A" "octet 0 a \<le> k \<longleftrightarrow> A \<le> unat k" "k \<le> octet 1 a \<longleftrightarrow> unat k \<le> B" "octet 1 a \<le> k \<longleftrightarrow> B \<le> unat k"
    "octet 0 a < k \<longleftrightarrow> A < unat k" for k
    by (simp_all add: word_unat_eq_iff u8_le_iff u8_less_iff unat_octet A_def B_def C_def)
  have num: "unat (0::u8) = 0" "unat (10::u8) = 10" "unat (100::u8) = 100" "unat (64::u8) = 64" "unat (127::u8) = 127"
    "unat (169::u8) = 169" "unat (254::u8) = 254" "unat (172::u8) = 172" "unat (16::u8) = 16" "unat (31::u8) = 31"
    "unat (192::u8) = 192" "unat (2::u8) = 2" "unat (196::u8) = 196" "unat (52::u8) = 52" "unat (193::u8) = 193"
    "unat (88::u8) = 88" "unat (99::u8) = 99" "unat (168::u8) = 168" "unat (175::u8) = 175" "unat (48::u8) = 48"
    "unat (198::u8) = 198" "unat (18::u8) = 18" "unat (19::u8) = 19" "unat (51::u8) = 51" "unat (203::u8) = 203"
    "unat (113::u8) = 113" "unat (224::u8) = 224" "unat (239::u8) = 239" "unat (240::u8) = 240"
    by simp_all
  have bc: "is_broadcast4 a \<longleftrightarrow> unat a = 4294967295" by (simp add: is_broadcast4_def word_unat_eq_iff)
  have e16: "A * 256 + B = k * 256 + l \<longleftrightarrow> A = k \<and> B = l" if "l < 256" for k l by (rule digit_eq [OF lt(2) that])
  have e8: "(A * 256 + B) * 256 + C = (k * 256 + l) * 256 + m \<longleftrightarrow> A = k \<and> B = l \<and> C = m" if "l < 256" "m < 256" for k l m
    using digit_eq [OF lt(3) that(2), of "A * 256 + B" "k * 256 + l"] by (simp only: e16 [OF that(1)] conj_assoc)
  have e4: "A div 16 = 14 \<longleftrightarrow> 224 \<le> A \<and> A \<le> 239" "A div 16 = 15 \<longleftrightarrow> \<not> A < 240"
    using lt block_eq [of 16 A 14] block_eq [of 16 A 15] by auto
  have e10: "A * 4 + B div 64 = 401 \<longleftrightarrow> A = 100 \<and> 64 \<le> B \<and> B \<le> 127"
    using lt digit_eq [of "B div 64" 4 1 A 100] block_eq [of 64 B 1] by auto
  have e12: "A * 16 + B div 16 = 2753 \<longleftrightarrow> A = 172 \<and> 16 \<le> B \<and> B \<le> 31"
    using lt digit_eq [of "B div 16" 16 1 A 172] block_eq [of 16 B 1] by auto
  have e15: "A * 128 + B div 2 = 25353 \<longleftrightarrow> A = 198 \<and> (B = 18 \<or> B = 19)"
    using lt digit_eq [of "B div 2" 128 9 A 198] block_eq [of 2 B 9] by auto
  note e = e16 [of 254 169, simplified] e16 [of 168 192, simplified] e8 [of 0 0 192, simplified] e8 [of 0 2 192, simplified]
    e8 [of 31 196 192, simplified] e8 [of 52 193 192, simplified] e8 [of 88 99 192, simplified] e8 [of 175 48 192, simplified]
    e8 [of 51 100 198, simplified] e8 [of 0 113 203, simplified] e4 e10 e12 e15
  have nets: "(\<forall>net\<in>set special4. \<not> in_prefix 32 (unat a) net) \<longleftrightarrow>
     A \<noteq> 0 \<and> A \<noteq> 127 \<and> A \<noteq> 10 \<and> \<not> (A = 172 \<and> 16 \<le> B \<and> B \<le> 31) \<and> \<not> (A = 192 \<and> B = 168) \<and> \<not> (A = 169 \<and> B = 254) \<and>
     \<not> (224 \<le> A \<and> A \<le> 239) \<and> unat a \<noteq> 4294967295 \<and> \<not> (A = 100 \<and> 64 \<le> B \<and> B \<le> 127) \<and>
     \<not> (A = 192 \<and> B = 0 \<and> C = 0) \<and> \<not> (A = 192 \<and> B = 0 \<and> C = 2) \<and> \<not> (A = 192 \<and> B = 31 \<and> C = 196) \<and> \<not> (A = 192 \<and> B = 52 \<and> C = 193) \<and>
     \<not> (A = 192 \<and> B = 88 \<and> C = 99) \<and> \<not> (A = 192 \<and> B = 175 \<and> C = 48) \<and> \<not> (A = 198 \<and> (B = 18 \<or> B = 19)) \<and>
     \<not> (A = 198 \<and> B = 51 \<and> C = 100) \<and> \<not> (A = 203 \<and> B = 0 \<and> C = 113) \<and> \<not> \<not> A < 240"
    by (simp add: special4_def in_prefix_def p [simplified] e del: not_less de_Morgan_conj)
  show ?thesis
    unfolding nets is_public_destination_def ip_addr.case Let_def is_loopback4_def is_private4_def is_link_local4_def is_multicast4_def o bc num
    by (simp only: de_Morgan_disj not_not conj_assoc)
qed

lemma mask_eq: "(w :: u16) AND NOT (mask k) = c \<longleftrightarrow> unat w div 2 ^ k * 2 ^ k = unat c"
proof -
  have "w AND NOT (mask k) = push_bit k (drop_bit k w)" by (auto simp: bit_eq_iff bit_simps)
  moreover have "unat w div 2 ^ k * 2 ^ k < 65536"
    using unat_u16_less [of w] div_times_less_eq_dividend [of "unat w" "2 ^ k"] by linarith
  ultimately have "unat (w AND NOT (mask k)) = unat w div 2 ^ k * 2 ^ k"
    by (simp add: unsigned_push_bit_eq unat_drop_bit_eq push_bit_eq_mult [where 'a = nat] drop_bit_eq_div [where 'a = nat] take_bit_eq_mod [where 'a = nat])
  then show ?thesis by (simp add: word_unat_eq_iff)
qed

lemma segments_prefix:
  assumes "(n :: nat) < 2 ^ 128"
  defines "s \<equiv> \<lambda>i. n div 2 ^ (112 - 16 * i) mod 65536"
  shows "n div 2 ^ 112 = s 0 \<and> n div 2 ^ 96 = s 0 * 65536 + s 1 \<and> n div 2 ^ 80 = n div 2 ^ 96 * 65536 + s 2 \<and>
    n div 2 ^ 64 = n div 2 ^ 80 * 65536 + s 3 \<and> n div 2 ^ 48 = n div 2 ^ 64 * 65536 + s 4 \<and> n div 2 ^ 32 = n div 2 ^ 48 * 65536 + s 5"
proof -
  have d: "n div 2 ^ (j + 16) * 65536 + n div 2 ^ j mod 65536 = n div 2 ^ j" for j
    using div_mult_mod_eq [of "n div 2 ^ j" 65536] by (simp add: power_add div_mult2_eq)
  have "n div 2 ^ 112 < 65536" using assms(1) by (simp add: less_mult_imp_div_less)
  then have "n div 2 ^ 112 = s 0" by (simp add: s_def)
  then show ?thesis
    using d [of 96] d [of 80] d [of 64] d [of 48] d [of 32] by (simp add: s_def)
qed

lemma public6: "is_public_destination (V6 a) \<longleftrightarrow> (\<forall>net\<in>set special6. \<not> in_prefix 128 (unat a) net)"
proof -
  let ?n = "unat a"
  define s where "s i = ?n div 2 ^ (112 - 16 * i) mod 65536" for i
  have lt: "s i < 65536" for i by (simp add: s_def)
  have a128: "?n < 2 ^ 128" using unsigned_less [of a, where 'a = nat] by simp
  have p: "?n div 2 ^ 112 = s 0" "?n div 2 ^ 96 = s 0 * 65536 + s 1" "?n div 2 ^ 80 = ?n div 2 ^ 96 * 65536 + s 2"
    "?n div 2 ^ 64 = ?n div 2 ^ 80 * 65536 + s 3" "?n div 2 ^ 48 = ?n div 2 ^ 64 * 65536 + s 4" "?n div 2 ^ 32 = ?n div 2 ^ 48 * 65536 + s 5"
    using segments_prefix [of ?n] a128 unfolding s_def by blast+
  have d: "?n div 2 ^ 120 = s 0 div 2 ^ 8" "?n div 2 ^ 118 = s 0 div 2 ^ 6" "?n div 2 ^ 121 = s 0 div 2 ^ 9"
    unfolding p(1) [symmetric] by (simp_all add: div_mult2_eq [symmetric])
  have o: "segment i a = k \<longleftrightarrow> s i = unat k" "segment i a AND NOT (mask j) = k \<longleftrightarrow> s i div 2 ^ j * 2 ^ j = unat k" for i j k
    by (simp_all add: mask_eq word_unat_eq_iff [of "segment i a"] unat_segment s_def)
  have m: "0xff00 = (NOT (mask 8) :: u16)" "0xffc0 = (NOT (mask 6) :: u16)" "0xfe00 = (NOT (mask 9) :: u16)" by code_simp+
  have q: "?n div 2 ^ 96 = k * 65536 + l \<longleftrightarrow> s 0 = k \<and> s 1 = l" if "l < 65536" for k l
    unfolding p(2) by (rule digit_eq [OF lt that])
  have r: "?n div 2 ^ 80 = (k * 65536 + l) * 65536 + m \<longleftrightarrow> s 0 = k \<and> s 1 = l \<and> s 2 = m" if "l < 65536" "m < 65536" for k l m
    unfolding p(3) using digit_eq [OF lt [of 2] that(2)] by (simp only: q [OF that(1)] conj_assoc)
  have t: "?n div 2 ^ 64 = ((k * 65536 + l) * 65536 + m) * 65536 + j \<longleftrightarrow> s 0 = k \<and> s 1 = l \<and> s 2 = m \<and> s 3 = j"
    if "l < 65536" "m < 65536" "j < 65536" for k l m j
    unfolding p(4) using digit_eq [OF lt [of 3] that(3)] by (simp only: r [OF that(1,2)] conj_assoc)
  have u: "?n div 2 ^ 32 = 65535 \<longleftrightarrow> s 0 = 0 \<and> s 1 = 0 \<and> s 2 = 0 \<and> s 3 = 0 \<and> s 4 = 0 \<and> s 5 = 65535"
    using digit_eq [OF lt [of 5], of 65535 "?n div 2 ^ 48" 0] digit_eq [OF lt [of 4], of 0 "?n div 2 ^ 64" 0] t [of 0 0 0 0]
    unfolding p(5,6) by auto
  have num: "unat (0::u16) = 0" "unat (0xff00::u16) = 0xff00" "unat (0xfe80::u16) = 0xfe80" "unat (0xfec0::u16) = 0xfec0"
    "unat (0xfc00::u16) = 0xfc00" "unat (0xffff::u16) = 0xffff" "unat (0x0100::u16) = 0x0100" "unat (0x2001::u16) = 0x2001"
    "unat (0x0db8::u16) = 0x0db8" "unat (0x0002::u16) = 0x0002" by simp_all
  have db8: "0x0db8 < (65536 :: nat)" and two: "0x0002 < (65536 :: nat)" by simp_all
  have num8: "unat (NOT (mask 8) :: u16) = 0xff00" by code_simp
  have z: "a = 0 \<longleftrightarrow> ?n = 0" "a = 1 \<longleftrightarrow> ?n = 1" by (simp_all add: word_unat_eq_iff)
  have sp: "(\<forall>net\<in>set special6. \<not> in_prefix 128 ?n net) \<longleftrightarrow> ?n \<noteq> 0 \<and> ?n \<noteq> 1 \<and> ?n div 2 ^ 120 \<noteq> 0xff \<and>
      ?n div 2 ^ 118 \<noteq> 0x3fa \<and> ?n div 2 ^ 118 \<noteq> 0x3fb \<and> ?n div 2 ^ 121 \<noteq> 0x7e \<and> ?n div 2 ^ 32 \<noteq> 0xffff \<and>
      ?n div 2 ^ 64 \<noteq> ((0x0100 * 65536 + 0) * 65536 + 0) * 65536 + 0 \<and> ?n div 2 ^ 96 \<noteq> 0x2001 * 65536 + 0x0db8 \<and>
      ?n div 2 ^ 80 \<noteq> (0x2001 * 65536 + 0x0002) * 65536 + 0"
    by (simp add: special6_def in_prefix_def)
  have g: "s 0 div 2 ^ 8 * 2 ^ 8 = 0xff00 \<longleftrightarrow> s 0 div 2 ^ 8 = 0xff" "s 0 div 2 ^ 6 * 2 ^ 6 = 0xfe80 \<longleftrightarrow> s 0 div 2 ^ 6 = 0x3fa"
    "s 0 div 2 ^ 6 * 2 ^ 6 = 0xfec0 \<longleftrightarrow> s 0 div 2 ^ 6 = 0x3fb" "s 0 div 2 ^ 9 * 2 ^ 9 = 0xfc00 \<longleftrightarrow> s 0 div 2 ^ 9 = 0x7e" by auto
  show ?thesis
    unfolding is_public_destination_def ip_addr.case Let_def sp z m o num num8 g d u t [OF zero_less_numeral zero_less_numeral zero_less_numeral]
      q [OF db8] r [OF two zero_less_numeral] ..
qed

section \<open>Theorems\<close>

text \<open>The part of an action that does not depend on the bytes of the packet.\<close>

fun action_route :: "frame_action \<Rightarrow> (worker_id \<times> session_locator option) option" where
  "action_route (Send k (InterceptIngress owner p loc)) = Some (k, loc)"
| "action_route a = None"

definition route_of :: "(frame_action, drop_reason) result \<Rightarrow> ((worker_id \<times> session_locator option) option, drop_reason) result" where
  "route_of r = and_then r (\<lambda>a. Ok (action_route a))"

definition sample_frame :: bytes where
  "sample_frame = [0, 0, 0, 0, 0, 0, 0, 0, 0, 0, 0, 0, 8, 0, 69, 0, 0, 28, 0, 0, 0, 0, 64, 17, 94, 190, 10, 0, 0, 2, 9, 9, 9, 9, 16, 0, 1, 187, 0, 8, 210, 15]"

definition sample_pf :: parsed_ip_frame where
  "sample_pf = \<lparr> ip_packet = drop 14 sample_frame, pf_source = V4 0x0a000002, pf_destination = V4 0x09090909,
     pf_protocol = 17, transport_offset = 20, fragmented = False \<rparr>"

definition sample_key :: flow_key where
  "sample_key = \<lparr> source = V4 0x0a000002, destination = V4 0x09090909, source_port = 4096, destination_port = 443, protocol = Udp \<rparr>"

definition sample_classifier :: "unit io_classifier_config" where
  "sample_classifier = \<lparr> io_owner = \<lparr> ifindex = 1, queue_id = 0 \<rparr>, tunnel = False, intercept = True, tunnel_port = 4433,
     tunnel_local_ips = [], nat_return_ips = [], dns_listen = None, dns_local_response = None, dcid_len = 8,
     flow_worker_count = 1, policy = DirectPrefixes [()] \<rparr>"

lemma sample_parsed: "parse_ip_frame sample_frame = Ok sample_pf" by code_simp

lemma sample_parsed_flow: "parse_flow_key (ip_packet sample_pf) = Ok sample_key" by code_simp

text \<open>
  C27: The frame parser of the I/O threads and the flow parser of the workers read a packet the
  same way: on every frame that both accept they agree on the addresses and the ports, the frame
  is not a fragment, and the tests for DNS queries to the virtual address and for answers of the
  local resolver are tests of the flow alone.
\<close>

theorem io_frame_agrees:
  assumes "parse_ip_frame frame = Ok pf" and "parse_flow_key (ip_packet pf) = Ok f"
  shows "pf_source pf = source f \<and> pf_destination pf = destination f \<and> \<not> fragmented pf \<and>
    destination_ip (ip_packet pf) = Some (destination f) \<and>
    (pf_protocol pf = IP_PROTOCOL_UDP \<longleftrightarrow> protocol f = Udp) \<and>
    (protocol f = Tcp \<or> protocol f = Udp \<longrightarrow> frame_ports pf = Some (source_port f, destination_port f)) \<and>
    (is_dns_vip_query config pf \<longleftrightarrow> to_dns_vip config f) \<and>
    (is_dns_local_resolver_response config pf \<longleftrightarrow> from_local_resolver config f)"
proof -
  note g = frame_flow [OF assms]
  then have tp: "transport_ports (pf_protocol pf) (drop (transport_offset pf) (ip_packet pf)) = Ok (source_port f, destination_port f, protocol f)"
    by blast
  show ?thesis
    using g frame_protocol [OF tp] frame_ports_flow [OF tp] is_dns_vip_query_flow [OF assms, of config]
      is_dns_local_resolver_response_flow [OF assms, of config]
    by (intro conjI impI) (simp_all only: simp_thms not_False_eq_True)
qed

theorem io_frame_agrees_witness: "frame_ports sample_pf = Some (4096, 443) \<and> \<not> is_dns_vip_query sample_classifier sample_pf"
  using io_frame_agrees [OF sample_parsed sample_parsed_flow, of sample_classifier]
  by (simp add: sample_key_def to_dns_vip_def sample_classifier_def)




text \<open>
  C38: The destinations a direct-prefix policy may intercept are exactly the addresses outside the
  special-purpose blocks (this network, loopback, private, link local, multicast, broadcast,
  shared, documentation, benchmarking, relay and reserved blocks; for IPv6 also the unspecified
  address, mapped addresses, the discard block, unique local and site local addresses): the
  octet and segment comparisons of the code agree with membership in those prefixes.
\<close>

theorem public_destination_prefixes:
  "is_public_destination dst \<longleftrightarrow>
    (case dst of
       V4 a \<Rightarrow> \<not> list_ex (in_prefix 32 (unat a)) special4
     | V6 a \<Rightarrow> \<not> list_ex (in_prefix 128 (unat a)) special6)"
  by (cases dst) (simp_all only: public4 public6 ip_addr.case list_ex_iff bex_simps(8))

end
