(* ===== verification/Chunks.thy ===== *)
theory Chunks
  imports Prelude
begin

text \<open>
  Cutting a buffer into pieces of a given size, as \<open>(0..len).step_by(size)\<close> does in
  \<open>split_outer_transmit\<close> and \<open>send_fragmented_inner\<close>.
\<close>

definition step_by :: "nat \<Rightarrow> nat \<Rightarrow> nat list" where
  "step_by n width = filter (\<lambda>i. i mod width = 0) [0..<n]"

text \<open>\<open>buffer[offset..min(len, offset + width)]\<close>.\<close>

definition piece :: "'a list \<Rightarrow> nat \<Rightarrow> nat \<Rightarrow> 'a list" where
  "piece xs width offset = take (min (length xs) (offset + width) - offset) (drop offset xs)"

lemma piece_eq: "piece xs width offset = take width (drop offset xs)"
  by (simp add: piece_def min_def)

lemma step_by_0 [simp]: "step_by 0 width = []"
  by (simp add: step_by_def)

lemma step_by_rec:
  assumes "0 < n" and w: "0 < width"
  shows "step_by n width = 0 # map (\<lambda>i. i + width) (step_by (n - width) width)"
proof -
  have first: "filter (\<lambda>i. i mod width = 0) [0..<min width n] = [0]"
  proof -
    have "[0..<min width n] = 0 # [1..<min width n]" using assms by (simp add: upt_rec)
    moreover have "filter (\<lambda>i. i mod width = 0) [1..<min width n] = []" by (auto simp: filter_empty_conv)
    ultimately show ?thesis by simp
  qed
  have "[0..<n] = [0..<min width n] @ [min width n..<n]"
    using upt_add_eq_append [of 0 "min width n" "n - min width n"] by simp
  moreover have "[min width n..<n] = map (\<lambda>i. i + width) [0..<n - width]"
    by (cases "width \<le> n") (simp_all add: map_add_upt min_def)
  ultimately show ?thesis
    using first by (simp add: step_by_def filter_map comp_def)
qed

lemma step_by_iff: "i \<in> set (step_by n width) \<longleftrightarrow> i < n \<and> i mod width = 0"
  by (auto simp: step_by_def)

lemma distinct_step_by [simp]: "distinct (step_by n width)"
  by (simp add: step_by_def)

lemma concat_pieces:
  assumes "0 < width"
  shows "concat (map (piece xs width) (step_by (length xs) width)) = xs"
proof (induction xs rule: length_induct)
  case (1 xs)
  show ?case
  proof (cases "xs = []")
    case False
    have "length (drop width xs) < length xs" using False assms by simp
    then have "concat (map (piece (drop width xs) width) (step_by (length (drop width xs)) width)) = drop width xs"
      using 1 by blast
    moreover have "piece (drop width xs) width = (\<lambda>i. piece xs width (i + width))"
      by (simp add: fun_eq_iff piece_eq)
    ultimately have "concat (map (\<lambda>i. piece xs width (i + width)) (step_by (length xs - width) width)) = drop width xs"
      by simp
    then show ?thesis
      using False step_by_rec [OF _ assms, of "length xs"] by (simp add: comp_def) (simp add: piece_eq)
  qed simp
qed

text \<open>Every position lies in the piece that starts at the multiple below it.\<close>

lemma step_by_covers:
  assumes "0 < width" and "i < n"
  shows "i - i mod width \<in> set (step_by n width)" and "i - i mod width \<le> i" and "i < i - i mod width + width"
proof -
  have "i - i mod width = width * (i div width)" by (simp add: minus_mod_eq_mult_div)
  then show "i - i mod width \<in> set (step_by n width)" using assms by (simp add: step_by_iff)
  show "i < i - i mod width + width"
    using mod_less_divisor [OF assms(1), of i] mod_less_eq_dividend [of i width] by linarith
qed simp

end
