(* ===== verification/Outer_Frame.thy ===== *)
theory Outer_Frame
  imports Io_Worker Chunks
begin

text \<open>
  The frames an I/O thread transmits (\<open>fill_ethernet_frame\<close> and what it calls in
  \<open>xdp_datapath/runtime.rs\<close>), the division of the NAT ports among the flow workers
  (\<open>worker_port_range\<close>) and the splitting of a transmit into segments (\<open>split_outer_transmit\<close>).
  A transmit buffer is cleared and zero-filled before it is written, so the builders work on a
  buffer of the final length.
\<close>

section \<open>Model\<close>

record interface_info =
  if_name :: string
  if_index :: u32
  queue_count :: u32
  mac :: bytes
  addresses :: "ip_addr list"
  if_ipv4 :: "u32 option"
  if_ipv6 :: "128 word option"

record io_link_config =
  interface :: interface_info
  tunnel_next_hop :: "bytes option"
  intercept_next_hop :: "bytes option"

text \<open>\<open>buffer[a..b].copy_from_slice(bytes)\<close>.\<close>

definition copy_at :: "bytes \<Rightarrow> nat \<Rightarrow> nat \<Rightarrow> bytes \<Rightarrow> (bytes, 'e) result" where
  "copy_at p a b bs = (if a \<le> b \<and> b \<le> length p \<and> length bs = b - a then Ok (splice p a bs) else Panic)"

subsection \<open>Checksums over several slices\<close>

text \<open>The pairs of octets of a slice, added to the sum, and the octet left over.\<close>

fun chunk_sum :: "u32 \<Rightarrow> bytes \<Rightarrow> u32 \<times> u8 option" where
  "chunk_sum sum16s (a # b # bs) = chunk_sum (sum16s + ucast (be16 a b)) bs"
| "chunk_sum sum16s [a] = (sum16s, Some a)"
| "chunk_sum sum16s [] = (sum16s, None)"

fun sum_part :: "u32 \<times> u8 option \<Rightarrow> bytes \<Rightarrow> u32 \<times> u8 option" where
  "sum_part (acc, Some high) (low # rest) = chunk_sum (acc + ucast (be16 high low)) rest"
| "sum_part (acc, Some high) [] = (acc, Some high)"
| "sum_part (acc, None) part = chunk_sum acc part"

definition checksum_parts :: "bytes list \<Rightarrow> u16" where
  "checksum_parts parts =
    (let (acc, high_byte) = foldl sum_part (0, None) parts;
         acc = (case high_byte of Some high \<Rightarrow> acc + push_bit 8 (ucast high) | None \<Rightarrow> acc)
     in checksum_finish acc)"

definition transport_checksum :: "bytes \<Rightarrow> u8 \<Rightarrow> bytes \<Rightarrow> u16" where
  "transport_checksum pseudo proto transport =
    (let checksum = checksum_parts [pseudo,
           [0, proto, word_of_nat (length transport div 256), word_of_nat (length transport)], transport]
     in if checksum = 0 then 0xffff else checksum)"

subsection \<open>Packets\<close>

definition fill_ipv4_udp :: "bytes \<Rightarrow> u32 \<Rightarrow> u32 \<Rightarrow> u16 \<Rightarrow> u16 \<Rightarrow> bytes \<Rightarrow> (bytes, unit) result" where
  "fill_ipv4_udp packet src dst src_port dst_port payload =
    (let udp_len = 8 + length payload; total_len = 20 + udp_len in
     and_then (put packet 0 [0x45]) (\<lambda>packet.
     and_then (put packet 2 (to_be_bytes 2 (word_of_nat total_len :: u16))) (\<lambda>packet.
     and_then (put packet 6 (to_be_bytes 2 (0x4000 :: u16))) (\<lambda>packet.
     and_then (put packet 8 [64]) (\<lambda>packet.
     and_then (put packet 9 [17]) (\<lambda>packet.
     and_then (put packet 12 (to_be_bytes 4 src)) (\<lambda>packet.
     and_then (put packet 16 (to_be_bytes 4 dst)) (\<lambda>packet.
     and_then (put packet 20 (to_be_bytes 2 src_port)) (\<lambda>packet.
     and_then (put packet 22 (to_be_bytes 2 dst_port)) (\<lambda>packet.
     and_then (put packet 24 (to_be_bytes 2 (word_of_nat udp_len :: u16))) (\<lambda>packet.
     and_then (copy_at packet 28 (length packet) payload) (\<lambda>packet.
     and_then (slice_at packet 0 20) (\<lambda>header.
     and_then (put packet 10 (to_be_bytes 2 (checksum_parts [header]))) (\<lambda>packet.
     and_then (slice_at packet 12 20) (\<lambda>pseudo.
     and_then (slice_at packet 20 (length packet)) (\<lambda>transport.
       put packet 26 (to_be_bytes 2 (transport_checksum pseudo 17 transport))))))))))))))))))"

definition fill_ipv6_udp :: "bytes \<Rightarrow> 128 word \<Rightarrow> 128 word \<Rightarrow> u16 \<Rightarrow> u16 \<Rightarrow> bytes \<Rightarrow> (bytes, unit) result" where
  "fill_ipv6_udp packet src dst src_port dst_port payload =
    (let udp_len = 8 + length payload in
     and_then (put packet 0 [0x60]) (\<lambda>packet.
     and_then (put packet 4 (to_be_bytes 2 (word_of_nat udp_len :: u16))) (\<lambda>packet.
     and_then (put packet 6 [17]) (\<lambda>packet.
     and_then (put packet 7 [64]) (\<lambda>packet.
     and_then (put packet 8 (to_be_bytes 16 src)) (\<lambda>packet.
     and_then (put packet 24 (to_be_bytes 16 dst)) (\<lambda>packet.
     and_then (put packet 40 (to_be_bytes 2 src_port)) (\<lambda>packet.
     and_then (put packet 42 (to_be_bytes 2 dst_port)) (\<lambda>packet.
     and_then (put packet 44 (to_be_bytes 2 (word_of_nat udp_len :: u16))) (\<lambda>packet.
     and_then (copy_at packet 48 (length packet) payload) (\<lambda>packet.
     and_then (slice_at packet 8 40) (\<lambda>pseudo.
     and_then (slice_at packet 40 (length packet)) (\<lambda>transport.
       let checksum = checksum_parts [pseudo, to_be_bytes 4 (word_of_nat udp_len :: u32), [0, 0, 0, 17], transport]
       in put packet 46 (to_be_bytes 2 (if checksum = 0 then 0xffff else checksum)))))))))))))))"

definition fill_outer_packet ::
  "interface_info \<Rightarrow> outer_route \<Rightarrow> bytes \<Rightarrow> bytes \<Rightarrow> (bytes option, unit) result" where
  "fill_outer_packet info route payload packet =
    (case sock_ip (outer_destination route) of
       V4 dst \<Rightarrow>
         (case (case outer_source_ip route of Some (V4 src) \<Rightarrow> Some src | None \<Rightarrow> if_ipv4 info | Some (V6 _) \<Rightarrow> None) of
            None \<Rightarrow> Ok None
          | Some src \<Rightarrow>
              and_then (fill_ipv4_udp packet src dst (outer_source_port route) (sock_port (outer_destination route)) payload)
                (\<lambda>packet. Ok (Some packet)))
     | V6 dst \<Rightarrow>
         (case (case outer_source_ip route of Some (V6 src) \<Rightarrow> Some src | None \<Rightarrow> if_ipv6 info | Some (V4 _) \<Rightarrow> None) of
            None \<Rightarrow> Ok None
          | Some src \<Rightarrow>
              and_then (fill_ipv6_udp packet src dst (outer_source_port route) (sock_port (outer_destination route)) payload)
                (\<lambda>packet. Ok (Some packet))))"

text \<open>The next hop, the Ethernet type and the length of the packet of a transmit.\<close>

definition frame_plan :: "io_link_config \<Rightarrow> io_transmit \<Rightarrow> (bytes \<times> u16 \<times> nat) option" where
  "frame_plan link transmit =
    (case outer transmit of
       Some route \<Rightarrow>
         let (ether_type, header_len) =
           (case sock_ip (outer_destination route) of V4 _ \<Rightarrow> (0x0800, 28) | V6 _ \<Rightarrow> (0x86dd, 48))
         in (case tunnel_next_hop link of
               None \<Rightarrow> None
             | Some next_hop \<Rightarrow> Some (next_hop, ether_type, header_len + length (tx_packet transmit)))
     | None \<Rightarrow>
         Option.bind (case map_option (drop_bit 4) (byte_get (tx_packet transmit) 0) of
                        None \<Rightarrow> None
                      | Some v \<Rightarrow> if v = 4 then Some 0x0800 else if v = 6 then Some 0x86dd else None) (\<lambda>ether_type.
           case intercept_next_hop link of
             None \<Rightarrow> None
           | Some next_hop \<Rightarrow> Some (next_hop, ether_type, length (tx_packet transmit))))"

text \<open>The frame is returned only when it is to be sent; its earlier contents do not matter.\<close>

definition fill_ethernet_frame :: "io_link_config \<Rightarrow> io_transmit \<Rightarrow> (bytes option, unit) result" where
  "fill_ethernet_frame link transmit =
    (case frame_plan link transmit of
       None \<Rightarrow> Ok None
     | Some (next_hop, ether_type, payload_len) \<Rightarrow>
         let frame = replicate (14 + payload_len) 0 in
         and_then (copy_at frame 0 6 next_hop) (\<lambda>frame.
         and_then (copy_at frame 6 12 (mac (interface link))) (\<lambda>frame.
         and_then (put frame 12 (to_be_bytes 2 ether_type)) (\<lambda>frame.
           case outer transmit of
             Some route \<Rightarrow>
               and_then (slice_at frame 14 (length frame)) (\<lambda>packet.
               and_then (fill_outer_packet (interface link) route (tx_packet transmit) packet) (\<lambda>filled.
                 case filled of
                   None \<Rightarrow> Ok None
                 | Some packet \<Rightarrow> and_then (copy_at frame 14 (length frame) packet) (\<lambda>frame. Ok (Some frame))))
           | None \<Rightarrow>
               and_then (copy_at frame 14 (length frame) (tx_packet transmit)) (\<lambda>frame. Ok (Some frame))))))"

subsection \<open>Segments and port ranges\<close>

definition split_outer_transmit :: "bytes \<Rightarrow> nat option \<Rightarrow> bytes list" where
  "split_outer_transmit contents segment_size =
    (case segment_size of
       None \<Rightarrow> [contents]
     | Some seg \<Rightarrow>
         if 0 < seg \<and> seg < length contents
         then map (piece contents seg) (step_by (length contents) seg)
         else [contents])"

definition worker_port_range :: "u16 \<times> u16 \<Rightarrow> nat \<Rightarrow> nat \<Rightarrow> ((u16 \<times> u16) option, unit) result" where
  "worker_port_range ports worker_id worker_count =
    (if worker_count = 0 \<or> worker_count \<le> worker_id \<or> snd ports < fst ports then Ok None
     else
       let start = (ucast (fst ports) :: u32);
           total = ucast (snd ports) - start + 1;
           count = (word_of_nat worker_count :: u32) in
       if total < count then Ok None
       else if count = 0 then Panic
       else
         let base = total div count;
             extra = total mod count;
             worker = (word_of_nat worker_id :: u32);
             offset = worker * base + min worker extra;
             len = base + (if worker < extra then 1 else 0)
         in Ok (Some (ucast (start + offset), ucast (start + offset + len - 1))))"

section \<open>Checksums\<close>

fun pending_octet :: "u8 option \<Rightarrow> bytes" where
  "pending_octet None = []"
| "pending_octet (Some b) = [b]"

lemma chunk_sum_add:
  "chunk_sum acc bs = (acc', h) \<Longrightarrow> checksum_add acc (bs @ ys) = checksum_add acc' (pending_octet h @ ys)"
  by (induction acc bs rule: chunk_sum.induct) auto

lemma sum_part_add:
  "sum_part (acc, h) part = (acc', h') \<Longrightarrow>
   checksum_add acc (pending_octet h @ part @ ys) = checksum_add acc' (pending_octet h' @ ys)"
  by (cases h; cases part) (auto dest: chunk_sum_add [of _ _ _ _ ys])

lemma sum_parts_add:
  "foldl sum_part (acc, h) parts = (acc', h') \<Longrightarrow>
   checksum_add acc (pending_octet h @ concat parts) = checksum_add acc' (pending_octet h')"
proof (induction parts arbitrary: acc h)
  case (Cons part parts)
  obtain a g where s: "sum_part (acc, h) part = (a, g)" by (cases "sum_part (acc, h) part")
  then show ?case using Cons sum_part_add [OF s] by simp
qed simp

text \<open>Adding slice by slice, with an octet carried from one to the next, is adding their concatenation.\<close>

lemma checksum_parts_concat: "checksum_parts parts = internet_checksum (concat parts)"
proof -
  obtain acc h where f: "foldl sum_part (0, None) parts = (acc, h)" by (cases "foldl sum_part (0, None) parts")
  have "checksum_add 0 (concat parts) = checksum_add acc (pending_octet h)" using sum_parts_add [OF f] by simp
  then show ?thesis by (cases h) (simp_all add: checksum_parts_def internet_checksum_def f)
qed

lemma checksum_add_append:
  "even (length xs) \<Longrightarrow> checksum_add acc (xs @ ys) = checksum_add (checksum_add acc xs) ys"
  by (induction acc xs rule: checksum_add.induct) auto

lemma be16_len: "n < 65536 \<Longrightarrow> be16 (word_of_nat (n div 256)) (word_of_nat n) = word_of_nat n"
  by (simp add: word_unat_eq_iff unat_be16 unsigned_of_nat take_bit_eq_mod)

lemma transport_checksum_pseudo:
  assumes "length transport < 65536" and "length p \<ge> 20"
  shows "transport_checksum (take 8 (drop 12 p)) 17 transport =
    encode_udp_zero_checksum 17 (checksum_finish (checksum_add (pseudo_ipv4 p (length transport) 17) transport))"
proof -
  have "(ucast (word_of_nat (length transport) :: u16) :: u32) = word_of_nat (length transport)"
    using assms(1) by (simp add: word_unat_eq_iff unsigned_of_nat unsigned_ucast_eq take_bit_eq_mod)
  moreover have "(ucast (be16 0 17) :: u32) = 17" by code_simp
  ultimately show ?thesis
    using assms checksum_add_append [of "take 8 (drop 12 p)" 0]
    by (simp add: transport_checksum_def checksum_parts_concat internet_checksum_def encode_udp_zero_checksum_def
        pseudo_ipv4_def be16_len add.assoc)
qed

lemma checksum6_pseudo:
  assumes "length p \<ge> 40"
  shows "checksum_parts [take 32 (drop 8 p), to_be_bytes 4 (word_of_nat n :: u32), [0, 0, 0, 17], transport] =
    checksum_finish (checksum_add (pseudo_ipv6 p n 17) transport)"
  using assms
  by (simp add: checksum_parts_concat internet_checksum_def pseudo_ipv6_def checksum_add_append)

section \<open>The packets\<close>

text \<open>The packet before its checksums are filled in.\<close>

definition udp4_base :: "u32 \<Rightarrow> u32 \<Rightarrow> u16 \<Rightarrow> u16 \<Rightarrow> bytes \<Rightarrow> bytes" where
  "udp4_base src dst sp dp payload =
    [0x45, 0] @ to_be_bytes 2 (word_of_nat (28 + length payload) :: u16) @ [0, 0, 0x40, 0, 64, 17, 0, 0] @
    to_be_bytes 4 src @ to_be_bytes 4 dst @ to_be_bytes 2 sp @ to_be_bytes 2 dp @
    to_be_bytes 2 (word_of_nat (8 + length payload) :: u16) @ [0, 0] @ payload"

definition udp6_base :: "128 word \<Rightarrow> 128 word \<Rightarrow> u16 \<Rightarrow> u16 \<Rightarrow> bytes \<Rightarrow> bytes" where
  "udp6_base src dst sp dp payload =
    [0x60, 0, 0, 0] @ to_be_bytes 2 (word_of_nat (8 + length payload) :: u16) @ [17, 64] @
    to_be_bytes 16 src @ to_be_bytes 16 dst @ to_be_bytes 2 sp @ to_be_bytes 2 dp @
    to_be_bytes 2 (word_of_nat (8 + length payload) :: u16) @ [0, 0] @ payload"

text \<open>Overwriting the middle block of a buffer.\<close>

lemma splice_block: "i = length xs \<Longrightarrow> length ys = length bs \<Longrightarrow> splice (xs @ ys @ zs) i bs = xs @ bs @ zs"
  by (simp add: splice_def)

lemma splice_id: "i + 2 \<le> length p \<Longrightarrow> p ! i = 0 \<Longrightarrow> p ! (i + 1) = 0 \<Longrightarrow> splice p i [0, 0] = p"
  by (rule nth_equalityI) (auto simp: buf_simps less_Suc_eq numeral_2_eq_2)

lemma zeros4: "replicate (28 + n) (0 :: u8) = replicate 28 0 @ replicate n 0"
  and zeros6: "replicate (48 + n) (0 :: u8) = replicate 48 0 @ replicate n 0"
  by (simp_all only: replicate_add)

lemma zeros23: "replicate 2 (0 :: u8) = [0, 0]" "replicate 3 (0 :: u8) = [0, 0, 0]"
  by (simp_all add: numeral_eq_Suc)

lemma fill_ipv4_udp_run:
  fixes payload :: bytes and src dst :: u32 and sp dp :: u16
  defines "base \<equiv> udp4_base src dst sp dp payload"
  defines "h \<equiv> splice base 10 (to_be_bytes 2 (internet_checksum (take 20 base)))"
  shows "fill_ipv4_udp (replicate (28 + length payload) 0) src dst sp dp payload =
    Ok (splice h 26 (to_be_bytes 2 (transport_checksum (take 8 (drop 12 h)) 17 (drop 20 h))))"
proof -
  have c: "to_be_bytes 2 (0x4000 :: u16) = [0x40, 0]" by code_simp
  have lb: "length base = 28 + length payload" "length h = 28 + length payload"
    by (simp_all add: h_def base_def udp4_base_def length_splice)
  have "fill_ipv4_udp (replicate (28 + length payload) 0) src dst sp dp payload =
    and_then (slice_at base 0 20) (\<lambda>header.
     and_then (put base 10 (to_be_bytes 2 (checksum_parts [header]))) (\<lambda>packet.
     and_then (slice_at packet 12 20) (\<lambda>pseudo.
     and_then (slice_at packet 20 (length packet)) (\<lambda>transport.
       put packet 26 (to_be_bytes 2 (transport_checksum pseudo 17 transport))))))"
    unfolding fill_ipv4_udp_def Let_def base_def udp4_base_def by (simp add: put_in copy_at_def c splice_def zeros4 zeros23)
  also have "\<dots> = Ok (splice h 26 (to_be_bytes 2 (transport_checksum (take 8 (drop 12 h)) 17 (drop 20 h))))"
    using lb by (simp add: slice_at_in put_in checksum_parts_concat h_def length_splice)
  finally show ?thesis .
qed

lemma fill_ipv6_udp_run:
  fixes payload :: bytes and src dst :: "128 word" and sp dp :: u16
  defines "base \<equiv> udp6_base src dst sp dp payload"
  shows "fill_ipv6_udp (replicate (48 + length payload) 0) src dst sp dp payload =
    Ok (splice base 46 (to_be_bytes 2 (encode_udp_zero_checksum 17
      (checksum_finish (checksum_add (pseudo_ipv6 base (8 + length payload) 17) (drop 40 base))))))"
proof -
  have lb: "length base = 48 + length payload" by (simp add: base_def udp6_base_def)
  have "fill_ipv6_udp (replicate (48 + length payload) 0) src dst sp dp payload =
     and_then (slice_at base 8 40) (\<lambda>pseudo.
     and_then (slice_at base 40 (length base)) (\<lambda>transport.
       let checksum = checksum_parts [pseudo, to_be_bytes 4 (word_of_nat (8 + length payload) :: u32), [0, 0, 0, 17], transport]
       in put base 46 (to_be_bytes 2 (if checksum = 0 then 0xffff else checksum))))"
    unfolding fill_ipv6_udp_def Let_def base_def udp6_base_def by (simp add: put_in copy_at_def splice_def zeros6 zeros23)
  also have "\<dots> = Ok (splice base 46 (to_be_bytes 2 (encode_udp_zero_checksum 17
      (checksum_finish (checksum_add (pseudo_ipv6 base (8 + length payload) 17) (drop 40 base))))))"
    using lb checksum6_pseudo [of base "8 + length payload" "drop 40 base"]
    by (simp add: slice_at_in put_in encode_udp_zero_checksum_def)
  finally show ?thesis .
qed

section \<open>Reading the packets back\<close>

definition udp_flow :: "ip_addr \<Rightarrow> ip_addr \<Rightarrow> u16 \<Rightarrow> u16 \<Rightarrow> flow_key" where
  "udp_flow src dst sp dp = \<lparr> source = src, destination = dst, source_port = sp, destination_port = dp, protocol = Udp \<rparr>"

lemma udp4_base_octets:
  fixes payload :: bytes and src dst :: u32 and sp dp :: u16
  defines "base \<equiv> udp4_base src dst sp dp payload"
  shows "length base = 28 + length payload" and "base ! 0 = 0x45" and "be16 (base ! 2) (base ! 3) = word_of_nat (28 + length payload)"
    and "be16 (base ! 6) (base ! 7) = 0x4000" and "base ! 9 = 17" and "base ! 10 = 0" and "base ! 11 = 0"
    and "take 4 (drop 12 base) = to_be_bytes 4 src" and "take 4 (drop 16 base) = to_be_bytes 4 dst"
    and "be16 (base ! 20) (base ! 21) = sp" and "be16 (base ! 22) (base ! 23) = dp"
    and "be16 (base ! 24) (base ! 25) = word_of_nat (8 + length payload)" and "base ! 26 = 0" and "base ! 27 = 0"
    and "drop 28 base = payload"
proof -
  have "be16 0x40 0 = 0x4000" by code_simp
  then show "be16 (base ! 6) (base ! 7) = 0x4000" by (simp add: base_def udp4_base_def nth_append)
  show "be16 (base ! 2) (base ! 3) = word_of_nat (28 + length payload)" "be16 (base ! 20) (base ! 21) = sp"
    "be16 (base ! 22) (base ! 23) = dp" "be16 (base ! 24) (base ! 25) = word_of_nat (8 + length payload)"
    using be16_to_be_bytes by (simp_all add: base_def udp4_base_def nth_append)
qed (simp_all add: base_def udp4_base_def nth_append)

text \<open>A packet as the parsers of both sides read it.\<close>

definition udp_wire :: "bytes \<Rightarrow> nat \<Rightarrow> ip_addr \<Rightarrow> ip_addr \<Rightarrow> u16 \<Rightarrow> u16 \<Rightarrow> bytes \<Rightarrow> bool" where
  "udp_wire p off src dst sp dp payload \<longleftrightarrow>
    (if off = 20 then parse_ipv4_frame p else parse_ipv6_frame p) =
      Ok \<lparr> ip_packet = p, pf_source = src, pf_destination = dst, pf_protocol = 17, transport_offset = off, fragmented = False \<rparr> \<and>
    parse_flow_key p = Ok (udp_flow src dst sp dp) \<and> validate_packet_checksums p = Ok () \<and>
    length p = off + 8 + length payload \<and> drop (off + 8) p = payload \<and>
    be16 (p ! off) (p ! (off + 1)) = sp \<and> be16 (p ! (off + 2)) (p ! (off + 3)) = dp \<and>
    unat (be16 (p ! (off + 4)) (p ! (off + 5))) = 8 + length payload"

lemma fill_ipv4_udp_octets:
  fixes payload :: bytes and src dst :: u32 and sp dp :: u16
  assumes n: "length payload \<le> 65507"
  defines "base \<equiv> udp4_base src dst sp dp payload"
  obtains p where "fill_ipv4_udp (replicate (28 + length payload) 0) src dst sp dp payload = Ok p"
    "length p = length base" "\<forall>k. k \<notin> {10, 11, 26, 27} \<longrightarrow> p ! k = base ! k"
    "internet_checksum (take 20 p) = 0" "transport_valid_ipv4 p 20 (28 + length payload) 17"
proof -
  define h where "h = splice base 10 (to_be_bytes 2 (internet_checksum (take 20 base)))"
  note o = udp4_base_octets [of src dst sp dp payload, folded base_def]
  have lh: "length h = 28 + length payload" using o(1) by (simp add: h_def length_splice)
  have hk: "h ! k = base ! k" if "k \<noteq> 10" "k \<noteq> 11" for k
    using that o(1) by (auto simp: h_def nth_splice)
  have "take 20 h = splice (take 20 base) 10 (to_be_bytes 2 (internet_checksum (take 20 base)))"
    using o(1) unfolding h_def by (intro take_splice_within) simp_all
  then have ih: "internet_checksum (take 20 h) = 0"
    using o(1,6,7) internet_checksum_filled [of "take 20 base" 10] by simp
  let ?c = "transport_checksum (take 8 (drop 12 h)) 17 (drop 20 h)"
  let ?acc = "pseudo_ipv4 h (8 + length payload) 17"
  have z: "h = splice h (20 + 6) [0, 0]" using lh o(13,14) hk by (intro splice_id [symmetric]) simp_all
  have c: "?c = encode_udp_zero_checksum 17 (checksum_finish (checksum_add ?acc (take (28 + length payload - 20) (drop 20 h))))"
    using transport_checksum_pseudo [of "drop 20 h" h] lh n by simp
  define p where "p = splice h (20 + 6) (to_be_bytes 2 ?c)"
  have acc: "unat ?acc \<le> 2000000" using n by (intro order_trans [OF pseudo_ipv4_small]) simp_all
  have b: "even (6 :: nat)" "20 + 6 + 2 \<le> 28 + length payload" "28 + length payload \<le> length h" "28 + length payload - 20 \<le> 65600"
    using lh n by simp_all
  note f = filled_segment [OF b acc z c p_def]
  show ?thesis
  proof (rule that)
    show "fill_ipv4_udp (replicate (28 + length payload) 0) src dst sp dp payload = Ok p"
      using fill_ipv4_udp_run [of payload src dst sp dp] by (simp add: p_def h_def base_def)
    show "length p = length base" using f(1) lh o(1) by simp
    show "\<forall>k. k \<notin> {10, 11, 26, 27} \<longrightarrow> p ! k = base ! k" using f(2) hk by simp
    show "internet_checksum (take 20 p) = 0"
      using ih take_drop_splice_disjoint [of 26 "to_be_bytes 2 ?c" h 0 20] lh by (simp add: p_def)
    have "pseudo_ipv4 p (8 + length payload) 17 = ?acc" using f(1,2) by (intro pseudo_cong) auto
    then show "transport_valid_ipv4 p 20 (28 + length payload) 17" using f(3) by (simp add: transport_valid_ipv4_def)
  qed
qed

lemma drop_cong_nth: "length q = length p \<Longrightarrow> (\<And>k. a \<le> k \<Longrightarrow> q ! k = p ! k) \<Longrightarrow> drop a q = drop a p"
  by (rule nth_equalityI) auto

lemma unat_len16: "n < 65536 \<Longrightarrow> unat (word_of_nat n :: u16) = n"
  by (simp add: unsigned_of_nat take_bit_eq_mod)

lemma fill_ipv4_udp_wire:
  assumes n: "length payload \<le> 65507"
  obtains p where "fill_ipv4_udp (replicate (28 + length payload) 0) src dst sp dp payload = Ok p"
    "udp_wire p 20 (V4 src) (V4 dst) sp dp payload"
proof -
  let ?n = "28 + length payload"
  define base where "base = udp4_base src dst sp dp payload"
  obtain p where run: "fill_ipv4_udp (replicate ?n 0) src dst sp dp payload = Ok p"
    and lp: "length p = length base" and k: "\<forall>k. k \<notin> {10, 11, 26, 27} \<longrightarrow> p ! k = base ! k"
    and ip: "internet_checksum (take 20 p) = 0" and tv: "transport_valid_ipv4 p 20 ?n 17"
    by (rule fill_ipv4_udp_octets [OF n, of src dst sp dp, folded base_def])
  note o = udp4_base_octets [of src dst sp dp payload, folded base_def]
  have l: "length p = ?n" using lp o(1) by simp
  have "take 4 (drop 12 p) = take 4 (drop 12 base)" "take 4 (drop 16 p) = take 4 (drop 16 base)" "drop 28 p = drop 28 base"
    by (rule slice_cong drop_cong_nth, rule lp, use k in simp)+
  then have sl: "take 4 (drop 12 p) = to_be_bytes 4 src" "take 4 (drop 16 p) = to_be_bytes 4 dst" "drop 28 p = payload"
    by (simp_all only: o(8,9,15))
  have b: "p ! 0 = 0x45" "be16 (p ! 2) (p ! 3) = word_of_nat ?n" "be16 (p ! 6) (p ! 7) = 0x4000" "p ! 9 = 17"
    "be16 (p ! 20) (p ! 21) = sp" "be16 (p ! 22) (p ! 23) = dp" "be16 (p ! 24) (p ! 25) = word_of_nat (8 + length payload)"
    using o k by simp_all
  have u: "unat (be16 (p ! 2) (p ! 3)) = ?n" "unat (be16 (p ! 24) (p ! 25)) = 8 + length payload"
    using b(2,7) n by (simp_all only: unat_len16)
  have m: "transport_metadata p = Ok (17, 20, ?n)"
    using b u l by (simp add: transport_metadata_def ip_version_def ipv4_lengths_def Let_def guard_err_def buf_simps)
  have pf: "parse_ipv4_frame p = Ok \<lparr> ip_packet = p, pf_source = V4 src, pf_destination = V4 dst, pf_protocol = 17,
      transport_offset = 20, fragmented = False \<rparr>"
    using b u l sl by (simp add: parse_ipv4_frame_def Let_def buf_simps slice_get_def from_to_be_bytes_u32 take_drop)
  have "transport_ports 17 (take (?n - 20) (drop 20 p)) = Ok (sp, dp, Udp)"
    using b u l by (simp add: transport_ports_Ok sport_at_def dport_at_def)
  then have fk: "parse_flow_key p = Ok (udp_flow (V4 src) (V4 dst) sp dp)"
    using b sl by (subst parse_flow_key_ipv4 [OF m]) (simp_all add: udp_flow_def from_to_be_bytes_u32)
  have "is_ok (validate_udp_layout p 20 ?n)"
    using u l by (simp add: validate_udp_layout_def Let_def buf_simps slice_get_def)
  then have "validate_packet_checksums p = Ok ()"
    using b(1) ip tv by (subst validate_Ok_ipv4 [OF m]) simp_all
  then have "udp_wire p 20 (V4 src) (V4 dst) sp dp payload" using pf fk l sl(3) b(5,6) u(2) by (simp add: udp_wire_def)
  then show ?thesis by (rule that [OF run])
qed

lemma udp6_base_octets:
  fixes payload :: bytes and src dst :: "128 word" and sp dp :: u16
  defines "base \<equiv> udp6_base src dst sp dp payload"
  shows "length base = 48 + length payload" and "base ! 0 = 0x60" and "be16 (base ! 4) (base ! 5) = word_of_nat (8 + length payload)"
    and "base ! 6 = 17" and "take 16 (drop 8 base) = to_be_bytes 16 src" and "take 16 (drop 24 base) = to_be_bytes 16 dst"
    and "be16 (base ! 40) (base ! 41) = sp" and "be16 (base ! 42) (base ! 43) = dp"
    and "be16 (base ! 44) (base ! 45) = word_of_nat (8 + length payload)" and "base ! 46 = 0" and "base ! 47 = 0"
    and "drop 48 base = payload"
proof -
  show "be16 (base ! 4) (base ! 5) = word_of_nat (8 + length payload)" "be16 (base ! 40) (base ! 41) = sp"
    "be16 (base ! 42) (base ! 43) = dp" "be16 (base ! 44) (base ! 45) = word_of_nat (8 + length payload)"
    using be16_to_be_bytes by (simp_all add: base_def udp6_base_def nth_append)
qed (simp_all add: base_def udp6_base_def nth_append)

lemma fill_ipv6_udp_octets:
  fixes payload :: bytes and src dst :: "128 word" and sp dp :: u16
  assumes n: "length payload \<le> 65527"
  defines "base \<equiv> udp6_base src dst sp dp payload"
  obtains p where "fill_ipv6_udp (replicate (48 + length payload) 0) src dst sp dp payload = Ok p"
    "length p = length base" "\<forall>k. k \<notin> {46, 47} \<longrightarrow> p ! k = base ! k"
    "transport_valid_ipv6 p 40 (48 + length payload) 17" "be16 (p ! 46) (p ! 47) \<noteq> 0"
proof -
  note o = udp6_base_octets [of src dst sp dp payload, folded base_def]
  let ?acc = "pseudo_ipv6 base (8 + length payload) 17"
  let ?c = "encode_udp_zero_checksum 17 (checksum_finish (checksum_add ?acc (take (48 + length payload - 40) (drop 40 base))))"
  have z: "base = splice base (40 + 6) [0, 0]" using o(1,10,11) by (intro splice_id [symmetric]) simp_all
  define p where "p = splice base (40 + 6) (to_be_bytes 2 ?c)"
  have b: "even (6 :: nat)" "40 + 6 + 2 \<le> 48 + length payload" "48 + length payload \<le> length base" "48 + length payload - 40 \<le> 65600"
    using o(1) n by simp_all
  note f = filled_segment [OF b pseudo_ipv6_small z refl p_def]
  show ?thesis
  proof (rule that)
    show "fill_ipv6_udp (replicate (48 + length payload) 0) src dst sp dp payload = Ok p"
      using fill_ipv6_udp_run [of payload src dst sp dp] o(1) by (simp add: p_def base_def)
    show "length p = length base" by (rule f(1))
    show "\<forall>k. k \<notin> {46, 47} \<longrightarrow> p ! k = base ! k" using f(2) by simp
    have "pseudo_ipv6 p (8 + length payload) 17 = ?acc" using f(1,2) by (intro pseudo6_cong) auto
    then show "transport_valid_ipv6 p 40 (48 + length payload) 17" using f(3) by (simp add: transport_valid_ipv6_def)
    show "be16 (p ! 46) (p ! 47) \<noteq> 0"
      using f(4) encode_udp_nonzero by simp
  qed
qed

lemma fill_ipv6_udp_wire:
  assumes n: "length payload \<le> 65527"
  obtains p where "fill_ipv6_udp (replicate (48 + length payload) 0) src dst sp dp payload = Ok p"
    "udp_wire p 40 (V6 src) (V6 dst) sp dp payload"
proof -
  let ?n = "48 + length payload"
  define base where "base = udp6_base src dst sp dp payload"
  obtain p where run: "fill_ipv6_udp (replicate ?n 0) src dst sp dp payload = Ok p"
    and lp: "length p = length base" and k: "\<forall>k. k \<notin> {46, 47} \<longrightarrow> p ! k = base ! k"
    and tv: "transport_valid_ipv6 p 40 ?n 17" and nz: "be16 (p ! 46) (p ! 47) \<noteq> 0"
    by (rule fill_ipv6_udp_octets [OF n, of src dst sp dp, folded base_def])
  note o = udp6_base_octets [of src dst sp dp payload, folded base_def]
  have l: "length p = ?n" using lp o(1) by simp
  have "take 16 (drop 8 p) = take 16 (drop 8 base)" "take 16 (drop 24 p) = take 16 (drop 24 base)" "drop 48 p = drop 48 base"
    by (rule slice_cong drop_cong_nth, rule lp, use k in simp)+
  then have sl: "take 16 (drop 8 p) = to_be_bytes 16 src" "take 16 (drop 24 p) = to_be_bytes 16 dst" "drop 48 p = payload"
    by (simp_all only: o(5,6,12))
  have b: "p ! 0 = 0x60" "be16 (p ! 4) (p ! 5) = word_of_nat (8 + length payload)" "p ! 6 = 17"
    "be16 (p ! 40) (p ! 41) = sp" "be16 (p ! 42) (p ! 43) = dp" "be16 (p ! 44) (p ! 45) = word_of_nat (8 + length payload)"
    using o k by simp_all
  have u: "unat (be16 (p ! 4) (p ! 5)) = 8 + length payload" "unat (be16 (p ! 44) (p ! 45)) = 8 + length payload"
    using b(2,6) n by (simp_all only: unat_len16)
  have t: "ipv6_transport_offset 8 p ?n 17 40 = Ok (17, 40)" "io_transport_offset 8 p ?n 17 40 False = Ok (17, 40, False)"
    using ipv6_transport_offset.simps(2) [of 7] io_transport_offset.simps(2) [of 7] by simp_all
  have m: "transport_metadata p = Ok (17, 40, ?n)"
    using b u l t(1) by (simp add: transport_metadata_def ip_version_def ipv6_length_def Let_def guard_err_def buf_simps)
  have pf: "parse_ipv6_frame p = Ok \<lparr> ip_packet = p, pf_source = V6 src, pf_destination = V6 dst, pf_protocol = 17,
      transport_offset = 40, fragmented = False \<rparr>"
    using b u l sl t(2) by (simp add: parse_ipv6_frame_def Let_def buf_simps slice_get_def from_to_be_bytes_u128 take_drop)
  have "transport_ports 17 (take (?n - 40) (drop 40 p)) = Ok (sp, dp, Udp)"
    using b u l by (simp add: transport_ports_Ok sport_at_def dport_at_def)
  then have fk: "parse_flow_key p = Ok (udp_flow (V6 src) (V6 dst) sp dp)"
    using b sl by (subst parse_flow_key_ipv6 [OF m]) (simp_all add: udp_flow_def from_to_be_bytes_u128)
  have "is_ok (validate_udp_layout p 40 ?n)"
    using u l by (simp add: validate_udp_layout_def Let_def buf_simps slice_get_def)
  moreover have "be16 0 0 = 0" by code_simp
  then have "\<not> zero_at p 46" using nz by (auto simp: zero_at_iff)
  ultimately have "validate_packet_checksums p = Ok ()"
    using b(1) tv by (subst validate_Ok_ipv6 [OF m]) (simp_all add: checksum_offset_def)
  then have "udp_wire p 40 (V6 src) (V6 dst) sp dp payload" using pf fk l sl(3) b(4,5) u(2) by (simp add: udp_wire_def)
  then show ?thesis by (rule that [OF run])
qed

section \<open>Frames\<close>

definition link_ok :: "io_link_config \<Rightarrow> bool" where
  "link_ok link \<longleftrightarrow> length (mac (interface link)) = 6 \<and>
    (\<forall>hop. tunnel_next_hop link = Some hop \<or> intercept_next_hop link = Some hop \<longrightarrow> length hop = 6)"

text \<open>The source address of an outer packet: the one asked for, or the interface's own.\<close>

definition outer_source :: "interface_info \<Rightarrow> outer_route \<Rightarrow> ip_addr option" where
  "outer_source info route =
    (case (sock_ip (outer_destination route), outer_source_ip route) of
       (V4 _, Some (V4 a)) \<Rightarrow> Some (V4 a)
     | (V6 _, Some (V6 a)) \<Rightarrow> Some (V6 a)
     | (V4 _, None) \<Rightarrow> map_option V4 (if_ipv4 info)
     | (V6 _, None) \<Rightarrow> map_option V6 (if_ipv6 info)
     | _ \<Rightarrow> None)"

definition outer_header :: "outer_route \<Rightarrow> nat" where
  "outer_header route = (case sock_ip (outer_destination route) of V4 _ \<Rightarrow> 28 | V6 _ \<Rightarrow> 48)"

lemma fill_outer_packet_run:
  assumes n: "length payload \<le> 65507"
  obtains (none) "outer_source info route = None"
      "fill_outer_packet info route payload (replicate (outer_header route + length payload) 0) = Ok None"
  | (packet) src p where "outer_source info route = Some src"
      "fill_outer_packet info route payload (replicate (outer_header route + length payload) 0) = Ok (Some p)"
      "udp_wire p (outer_header route - 8) src (sock_ip (outer_destination route)) (outer_source_port route)
         (sock_port (outer_destination route)) payload"
proof (cases "sock_ip (outer_destination route)")
  case (V4 dst)
  show ?thesis
  proof (cases "outer_source info route")
    case (Some src)
    then obtain a where a: "src = V4 a"
      using V4 by (auto simp: outer_source_def split: option.splits ip_addr.splits)
    have "(case outer_source_ip route of Some (V4 src) \<Rightarrow> Some src | None \<Rightarrow> if_ipv4 info | Some (V6 _) \<Rightarrow> None) = Some a"
      using V4 Some a by (auto simp: outer_source_def split: option.splits ip_addr.splits)
    moreover obtain p where "fill_ipv4_udp (replicate (28 + length payload) 0) a dst (outer_source_port route)
        (sock_port (outer_destination route)) payload = Ok p"
      "udp_wire p 20 (V4 a) (V4 dst) (outer_source_port route) (sock_port (outer_destination route)) payload"
      by (rule fill_ipv4_udp_wire [OF n])
    ultimately show ?thesis
      using Some V4 a by (intro packet [of src p]) (simp_all add: fill_outer_packet_def outer_header_def)
  next
    case None
    then have "(case outer_source_ip route of Some (V4 src) \<Rightarrow> Some src | None \<Rightarrow> if_ipv4 info | Some (V6 _) \<Rightarrow> None) = None"
      using V4 by (auto simp: outer_source_def split: option.splits ip_addr.splits)
    then show ?thesis using none None V4 by (simp add: fill_outer_packet_def)
  qed
next
  case (V6 dst)
  have n6: "length payload \<le> 65527" using n by simp
  show ?thesis
  proof (cases "outer_source info route")
    case (Some src)
    then obtain a where a: "src = V6 a"
      using V6 by (auto simp: outer_source_def split: option.splits ip_addr.splits)
    have "(case outer_source_ip route of Some (V6 src) \<Rightarrow> Some src | None \<Rightarrow> if_ipv6 info | Some (V4 _) \<Rightarrow> None) = Some a"
      using V6 Some a by (auto simp: outer_source_def split: option.splits ip_addr.splits)
    moreover obtain p where "fill_ipv6_udp (replicate (48 + length payload) 0) a dst (outer_source_port route)
        (sock_port (outer_destination route)) payload = Ok p"
      "udp_wire p 40 (V6 a) (V6 dst) (outer_source_port route) (sock_port (outer_destination route)) payload"
      by (rule fill_ipv6_udp_wire [OF n6])
    ultimately show ?thesis
      using Some V6 a by (intro packet [of src p]) (simp_all add: fill_outer_packet_def outer_header_def)
  next
    case None
    then have "(case outer_source_ip route of Some (V6 src) \<Rightarrow> Some src | None \<Rightarrow> if_ipv6 info | Some (V4 _) \<Rightarrow> None) = None"
      using V6 by (auto simp: outer_source_def split: option.splits ip_addr.splits)
    then show ?thesis using none None V6 by (simp add: fill_outer_packet_def)
  qed
qed

lemma ethernet_prefix:
  assumes "length hop = 6" and "length hw = 6" and "length body = n"
  shows "and_then (copy_at (replicate (14 + n) 0) 0 6 hop) (\<lambda>frame.
      and_then (copy_at frame 6 12 hw) (\<lambda>frame.
      and_then (put frame 12 (to_be_bytes 2 (ty :: u16))) k)) = k (hop @ hw @ to_be_bytes 2 ty @ replicate n 0)"
    and "copy_at (hop @ hw @ to_be_bytes 2 ty @ replicate n 0) 14 (14 + n) body = Ok (hop @ hw @ to_be_bytes 2 ty @ body)"
  using assms replicate_add [of 14 n "0 :: u8"] by (simp_all add: copy_at_def put_in splice_def)

text \<open>What a frame that is sent holds: addresses, type, and the packet.\<close>

definition sent_frame :: "io_link_config \<Rightarrow> io_transmit \<Rightarrow> bytes \<Rightarrow> bool" where
  "sent_frame link tx frame \<longleftrightarrow>
    (case outer tx of
       None \<Rightarrow> \<exists>hop ty. intercept_next_hop link = Some hop \<and> (ty = ETH_P_IPV4 \<or> ty = ETH_P_IPV6) \<and>
         frame = hop @ mac (interface link) @ to_be_bytes 2 ty @ tx_packet tx
     | Some route \<Rightarrow> \<exists>hop ty src p. tunnel_next_hop link = Some hop \<and> outer_source (interface link) route = Some src \<and>
         ty = (case sock_ip (outer_destination route) of V4 _ \<Rightarrow> ETH_P_IPV4 | V6 _ \<Rightarrow> ETH_P_IPV6) \<and>
         frame = hop @ mac (interface link) @ to_be_bytes 2 ty @ p \<and>
         udp_wire p (outer_header route - 8) src (sock_ip (outer_destination route)) (outer_source_port route)
           (sock_port (outer_destination route)) (tx_packet tx))"

text \<open>Whether there is a frame to send at all.\<close>

definition sendable :: "io_link_config \<Rightarrow> io_transmit \<Rightarrow> bool" where
  "sendable link tx \<longleftrightarrow>
    (case outer tx of
       Some route \<Rightarrow> tunnel_next_hop link \<noteq> None \<and> outer_source (interface link) route \<noteq> None
     | None \<Rightarrow> intercept_next_hop link \<noteq> None \<and> tx_packet tx \<noteq> [] \<and> drop_bit 4 (tx_packet tx ! 0) \<in> {4, 6})"

lemma frame_plan_outer:
  "outer tx = Some route \<Longrightarrow> tunnel_next_hop link = Some hop \<Longrightarrow>
   frame_plan link tx = Some (hop, case sock_ip (outer_destination route) of V4 _ \<Rightarrow> ETH_P_IPV4 | V6 _ \<Rightarrow> ETH_P_IPV6,
     outer_header route + length (tx_packet tx))"
  by (simp add: frame_plan_def outer_header_def split: ip_addr.split)

lemma udp_wire_length: "udp_wire p off src dst sp dp payload \<Longrightarrow> length p = off + 8 + length payload"
  by (simp add: udp_wire_def)

lemma udp_wire_payload:
  assumes "udp_wire p off src dst sp dp payload"
  shows "io_udp \<lparr> ip_packet = p, pf_source = s, pf_destination = d, pf_protocol = pr, transport_offset = off, fragmented = fr \<rparr>
      = Ok (drop off p, take 8 (drop off p))"
    and "io_udp_body (drop off p) (take 8 (drop off p)) = Ok payload"
    and "io_udp_payload \<lparr> ip_packet = p, pf_source = s, pf_destination = d, pf_protocol = pr, transport_offset = off, fragmented = fr \<rparr>
      = Ok payload"
proof -
  have l: "length p = off + 8 + length payload" and d: "drop (off + 8) p = payload"
    and u: "unat (be16 (p ! (off + 4)) (p ! (off + 5))) = 8 + length payload"
    using assms by (simp_all add: udp_wire_def)
  show a: "io_udp \<lparr> ip_packet = p, pf_source = s, pf_destination = d, pf_protocol = pr, transport_offset = off, fragmented = fr \<rparr>
      = Ok (drop off p, take 8 (drop off p))" for s d pr fr
    using l by (simp add: io_udp_def slice_get_def)
  show b: "io_udp_body (drop off p) (take 8 (drop off p)) = Ok payload"
    using l d u by (simp add: io_udp_body_def rd16_in slice_get_def add.commute)
  show "io_udp_payload \<lparr> ip_packet = p, pf_source = s, pf_destination = d, pf_protocol = pr, transport_offset = off, fragmented = fr \<rparr>
      = Ok payload" by (simp add: io_udp_payload_def a b)
qed

lemma outer_header_ge: "8 \<le> outer_header route"
  by (simp add: outer_header_def split: ip_addr.split)

lemma fill_outer_frame_run:
  assumes ok: "link_ok link" and n: "length (tx_packet tx) \<le> 65507" and o: "outer tx = Some route"
  shows "case fill_ethernet_frame link tx of
      Ok (Some frame) \<Rightarrow> sendable link tx \<and> sent_frame link tx frame | Ok None \<Rightarrow> \<not> sendable link tx | _ \<Rightarrow> False"
proof (cases "tunnel_next_hop link")
  case (Some hop)
  let ?n = "outer_header route + length (tx_packet tx)"
  let ?hw = "mac (interface link)"
  let ?ty = "case sock_ip (outer_destination route) of V4 _ \<Rightarrow> ETH_P_IPV4 | V6 _ \<Rightarrow> ETH_P_IPV6"
  let ?h = "hop @ ?hw @ to_be_bytes 2 ?ty"
  have l: "length hop = 6" "length ?hw = 6" using ok Some by (simp_all add: link_ok_def)
  have "fill_ethernet_frame link tx =
      and_then (fill_outer_packet (interface link) route (tx_packet tx) (replicate ?n 0)) (\<lambda>filled.
        case filled of None \<Rightarrow> Ok None
        | Some packet \<Rightarrow> and_then (copy_at (?h @ replicate ?n 0) 14 (14 + ?n) packet) (\<lambda>frame. Ok (Some frame)))"
    using l o by (simp add: fill_ethernet_frame_def frame_plan_outer [OF o Some] ethernet_prefix(1) [OF l refl, where body = "replicate ?n 0", simplified]
        slice_at_in cong: option.case_cong)
  note run = this
  show ?thesis
  proof (rule fill_outer_packet_run [OF n, of "interface link" route], goal_cases none packet)
    case none
    then show ?thesis using o Some by (simp add: run sendable_def)
  next
    case (packet src p)
    have lp: "length p = ?n" using udp_wire_length [OF packet(3)] outer_header_ge [of route] by simp
    then have "fill_ethernet_frame link tx = Ok (Some (?h @ p))"
      using packet(2) by (simp add: run ethernet_prefix(2) [OF l lp])
    moreover have "sent_frame link tx (?h @ p)" using o Some packet by (auto simp: sent_frame_def)
    ultimately show ?thesis using o Some packet(1) by (simp add: sendable_def)
  qed
qed (use o in \<open>simp add: fill_ethernet_frame_def frame_plan_def sendable_def split: ip_addr.split\<close>)

lemma fill_inner_frame_run:
  assumes ok: "link_ok link" and o: "outer tx = None"
  shows "case fill_ethernet_frame link tx of
      Ok (Some frame) \<Rightarrow> sendable link tx \<and> sent_frame link tx frame | Ok None \<Rightarrow> \<not> sendable link tx | _ \<Rightarrow> False"
proof (cases "sendable link tx")
  case True
  then obtain hop where hop: "intercept_next_hop link = Some hop" and ne: "tx_packet tx \<noteq> []"
    and v: "drop_bit 4 (tx_packet tx ! 0) = 4 \<or> drop_bit 4 (tx_packet tx ! 0) = 6"
    using o by (auto simp: sendable_def)
  let ?n = "length (tx_packet tx)"
  let ?ty = "if drop_bit 4 (tx_packet tx ! 0) = 4 then ETH_P_IPV4 else ETH_P_IPV6"
  let ?h = "hop @ mac (interface link) @ to_be_bytes 2 ?ty"
  have l: "length hop = 6" "length (mac (interface link)) = 6" using ok hop by (simp_all add: link_ok_def)
  have plan: "frame_plan link tx = Some (hop, ?ty, ?n)"
    using o hop ne v by (auto simp: frame_plan_def byte_get_def)
  have "fill_ethernet_frame link tx = Ok (Some (?h @ tx_packet tx))"
    unfolding fill_ethernet_frame_def plan option.case prod.case Let_def ethernet_prefix(1) [OF l refl]
    using o l by (simp add: ethernet_prefix(2) [OF l refl])
  moreover have "sent_frame link tx (?h @ tx_packet tx)" using o hop by (auto simp: sent_frame_def)
  ultimately show ?thesis using True by simp
next
  case False
  then have "frame_plan link tx = None"
    using o by (auto simp: sendable_def frame_plan_def byte_get_def split: option.splits)
  then show ?thesis using False by (simp add: fill_ethernet_frame_def)
qed

lemma fill_ethernet_frame_run:
  assumes "link_ok link" and "length (tx_packet tx) \<le> 65507"
  shows "case fill_ethernet_frame link tx of
      Ok (Some frame) \<Rightarrow> sendable link tx \<and> sent_frame link tx frame | Ok None \<Rightarrow> \<not> sendable link tx | _ \<Rightarrow> False"
  using fill_outer_frame_run [OF assms] fill_inner_frame_run [OF assms(1)] by (cases "outer tx") auto

lemma be16_hop:
  assumes "length hop = 6" and "length hw = 6"
  shows "be16 ((hop @ hw @ to_be_bytes 2 (ty :: u16) @ p) ! 12) ((hop @ hw @ to_be_bytes 2 ty @ p) ! 13) = ty"
    and "drop 14 (hop @ hw @ to_be_bytes 2 ty @ p) = p"
  using assms be16_to_be_bytes [of ty] by (simp_all add: nth_append)

lemma parse_sent_frame:
  assumes ok: "link_ok link" and s: "sent_frame link tx frame" and o: "outer tx = Some route"
  obtains src p where "outer_source (interface link) route = Some src"
    "parse_ip_frame frame = Ok \<lparr> ip_packet = p, pf_source = src, pf_destination = sock_ip (outer_destination route), pf_protocol = 17,
        transport_offset = outer_header route - 8, fragmented = False \<rparr>"
    "udp_wire p (outer_header route - 8) src (sock_ip (outer_destination route)) (outer_source_port route)
       (sock_port (outer_destination route)) (tx_packet tx)"
proof -
  let ?ty = "case sock_ip (outer_destination route) of V4 _ \<Rightarrow> ETH_P_IPV4 | V6 _ \<Rightarrow> ETH_P_IPV6"
  obtain hop src p where hop: "tunnel_next_hop link = Some hop" and src: "outer_source (interface link) route = Some src"
    and f: "frame = hop @ mac (interface link) @ to_be_bytes 2 ?ty @ p"
    and w: "udp_wire p (outer_header route - 8) src (sock_ip (outer_destination route)) (outer_source_port route)
       (sock_port (outer_destination route)) (tx_packet tx)"
    using s o by (auto simp: sent_frame_def)
  have l: "length hop = 6" "length (mac (interface link)) = 6" using ok hop by (simp_all add: link_ok_def)
  have len: "length frame = 14 + length p" using l by (simp add: f)
  have "be16 (frame ! 12) (frame ! 13) = ?ty" "drop 14 frame = p" unfolding f by (rule be16_hop [OF l])+
  then have "parse_ip_frame frame = (if ?ty = ETH_P_IPV4 then parse_ipv4_frame p else parse_ipv6_frame p)"
    using len by (simp add: parse_ip_frame_def buf_simps slice_get_def split: ip_addr.split)
  then show ?thesis
    using that src w by (auto simp: udp_wire_def outer_header_def split: ip_addr.splits)
qed

section \<open>Port ranges\<close>

text \<open>Where the ports of a worker start, counted from the first port: one more for each of the first \<open>extra\<close> workers.\<close>

definition port_offset :: "nat \<Rightarrow> nat \<Rightarrow> nat \<Rightarrow> nat" where
  "port_offset n count w = w * (n div count) + min w (n mod count)"

definition port_total :: "u16 \<times> u16 \<Rightarrow> nat" where
  "port_total ports = unat (snd ports) + 1 - unat (fst ports)"

lemma port_offset_Suc:
  "port_offset n count (Suc w) = port_offset n count w + n div count + (if w < n mod count then 1 else 0)"
  by (simp add: port_offset_def min_def)

lemma port_offset_end: "0 < count \<Longrightarrow> port_offset n count count = n"
  using mod_less_divisor [of count n] by (simp add: port_offset_def min_absorb2)

lemma port_offset_mono: "v \<le> w \<Longrightarrow> port_offset n count v \<le> port_offset n count w"
  by (simp add: port_offset_def add_mono min.coboundedI1 min_le_iff_disj)

lemma unat_u32_of_nat: "n < 4294967296 \<Longrightarrow> unat (word_of_nat n :: u32) = n"
  by (simp add: unsigned_of_nat take_bit_eq_mod)

lemma u32_total:
  assumes "fst ports \<le> snd ports"
  shows "(ucast (snd ports) :: u32) - ucast (fst ports) + 1 = word_of_nat (port_total ports)"
proof -
  have le: "unat (fst ports) \<le> unat (snd ports)" using assms by (simp add: word_le_nat_alt)
  have u: "(ucast p :: u32) = word_of_nat (unat p)" for p :: u16 by simp
  have "(word_of_nat (unat (snd ports)) :: u32) - word_of_nat (unat (fst ports)) = word_of_nat (unat (snd ports) - unat (fst ports))"
    using le by (simp add: of_nat_diff)
  then show ?thesis using le by (simp add: port_total_def Suc_diff_le)
qed

lemma worker_port_range_run:
  assumes ports: "fst ports \<le> snd ports" and w: "w < count" and c: "count \<le> port_total ports"
  shows "worker_port_range ports w count =
    Ok (Some (word_of_nat (unat (fst ports) + port_offset (port_total ports) count w),
              word_of_nat (unat (fst ports) + port_offset (port_total ports) count (Suc w) - 1)))"
proof -
  let ?t = "port_total ports" and ?s = "unat (fst ports)"
  have t: "?t \<le> 65536" using unat_u16_less [of "snd ports"] by (simp add: port_total_def)
  have le: "port_offset ?t count w \<le> ?t" "port_offset ?t count (Suc w) \<le> ?t"
    using port_offset_mono [of w count ?t count] port_offset_mono [of "Suc w" count ?t count] port_offset_end [of count ?t] w by simp_all
  define T C W where "T = (word_of_nat ?t :: u32)" and "C = (word_of_nat count :: u32)" and "W = (word_of_nat w :: u32)"
  have u: "unat T = ?t" "unat C = count" "unat W = w"
    using t c w by (simp_all add: T_def C_def W_def unat_u32_of_nat)
  have q: "?t div count < 4294967296" "?t mod count < 4294967296"
    using t div_le_dividend [of ?t count] mod_less_eq_dividend [of ?t count] by linarith+
  have d: "T div C = word_of_nat (?t div count)" "T mod C = word_of_nat (?t mod count)"
    using u q by (simp_all add: word_unat_eq_iff unat_div_distrib unat_mod_distrib unat_u32_of_nat)
  have um: "unat (T mod C) = ?t mod count" by (simp add: unat_mod_distrib u)
  have le_iff: "W \<le> T mod C \<longleftrightarrow> w \<le> ?t mod count" by (simp add: word_le_nat_alt um u(3))
  have m: "min W (T mod C) = word_of_nat (min w (?t mod count))"
  proof (cases "w \<le> ?t mod count")
    case True
    then show ?thesis using le_iff by (simp only: min_absorb1 W_def)
  next
    case False
    then have "T mod C \<le> W" "?t mod count \<le> w" using le_iff by simp_all
    then show ?thesis by (simp only: min_absorb2 d(2))
  qed
  have lt_iff: "W < T mod C \<longleftrightarrow> w < ?t mod count" by (simp add: word_less_nat_alt um u(3))
  have o: "W * (T div C) + min W (T mod C) = word_of_nat (port_offset ?t count w)"
    unfolding m d(1) port_offset_def by (simp add: W_def)
  have l: "T div C + (if W < T mod C then 1 else 0) = word_of_nat (?t div count + (if w < ?t mod count then 1 else 0))"
    by (simp add: d(1) lt_iff)
  have nc: "\<not> T < C" "C \<noteq> 0" using u w c by (auto simp: word_less_nat_alt)
  have fin: "(ucast ((word_of_nat a :: u32)) :: u16) = word_of_nat a" for a :: nat
    by (simp add: word_unat_eq_iff unsigned_ucast_eq unsigned_of_nat)
  have run: "worker_port_range ports w count = Ok (Some (ucast ((word_of_nat ?s :: u32) + word_of_nat (port_offset ?t count w)),
      ucast ((word_of_nat ?s :: u32) + word_of_nat (port_offset ?t count w) +
        word_of_nat (?t div count + (if w < ?t mod count then 1 else 0)) - 1)))"
    using ports w nc unfolding worker_port_range_def u32_total [OF ports] T_def [symmetric] C_def [symmetric] W_def [symmetric] Let_def o l
    by (simp add: not_less)
  have "0 < ?t div count" using w c by (simp add: div_greater_zero_iff)
  then have e: "(word_of_nat ?s :: u32) + word_of_nat (port_offset ?t count w) + word_of_nat (?t div count + (if w < ?t mod count then 1 else 0)) - 1
      = word_of_nat (?s + port_offset ?t count (Suc w) - 1)"
    by (simp add: port_offset_Suc of_nat_diff)
  show ?thesis unfolding run e unfolding of_nat_add [symmetric] fin ..
qed

text \<open>Every port lies in the range of exactly one worker.\<close>

lemma port_offset_covers:
  assumes "0 < count" and "p < n"
  shows "\<exists>w<count. port_offset n count w \<le> p \<and> p < port_offset n count (Suc w)"
proof -
  have "p < port_offset n count count" using assms by (simp add: port_offset_end)
  then have ex: "\<exists>k. p < port_offset n count k" by blast
  define k where "k = (LEAST k. p < port_offset n count k)"
  have k: "p < port_offset n count k" unfolding k_def using ex by (rule LeastI_ex)
  have le: "k \<le> count" unfolding k_def using \<open>p < port_offset n count count\<close> by (rule Least_le)
  have "port_offset n count 0 = 0" by (simp add: port_offset_def)
  then have "k \<noteq> 0" using k by (metis not_less_zero)
  then obtain w where w: "k = Suc w" by (cases k) auto
  then have "\<not> p < port_offset n count w" using not_less_Least [of w "\<lambda>k. p < port_offset n count k"] by (simp add: k_def)
  then show ?thesis using k le w by (intro exI [of _ w]) simp
qed

lemma port_offset_unique:
  assumes "port_offset n count v \<le> x" "x < port_offset n count (Suc v)" "port_offset n count w \<le> x" "x < port_offset n count (Suc w)"
  shows "v = w"
  using assms port_offset_mono [of "Suc v" w n count] port_offset_mono [of "Suc w" v n count]
  by (cases v w rule: linorder_cases) auto

text \<open>The ports of a worker, as numbers.\<close>

lemma worker_port_range_iff:
  assumes ports: "fst ports \<le> snd ports" and w: "w < count" and c: "count \<le> port_total ports"
  obtains a b where "worker_port_range ports w count = Ok (Some (a, b))" "a \<le> b"
    "\<forall>p. a \<le> p \<and> p \<le> b \<longleftrightarrow> unat (fst ports) + port_offset (port_total ports) count w \<le> unat p \<and>
       unat p < unat (fst ports) + port_offset (port_total ports) count (Suc w)"
proof -
  let ?s = "unat (fst ports)" and ?o = "port_offset (port_total ports) count"
  have "?o (Suc w) \<le> port_total ports"
    using port_offset_mono [of "Suc w" count "port_total ports" count] port_offset_end [of count "port_total ports"] w by simp
  moreover have "?s + port_total ports \<le> 65536"
    using ports unat_u16_less [of "snd ports"] by (simp add: port_total_def word_le_nat_alt)
  moreover have "0 < port_total ports div count" using w c by (simp add: div_greater_zero_iff)
  then have lt: "?o w < ?o (Suc w)" by (simp add: port_offset_Suc)
  ultimately have "?s + ?o w < 65536" "?s + ?o (Suc w) - 1 < 65536" by linarith+
  then have u: "unat (word_of_nat (?s + ?o w) :: u16) = ?s + ?o w" "unat (word_of_nat (?s + ?o (Suc w) - 1) :: u16) = ?s + ?o (Suc w) - 1"
    by (simp_all only: unat_len16)
  show ?thesis
    by (rule that [OF worker_port_range_run [OF assms]]) (use lt u in \<open>auto simp: word_le_nat_alt\<close>)
qed

lemma segments_rejoin:
  "concat (split_outer_transmit contents seg) = contents \<and>
   (\<forall>n. seg = Some n \<longrightarrow> 0 < n \<longrightarrow> (\<forall>s\<in>set (split_outer_transmit contents seg). length s \<le> n))"
  by (auto simp: split_outer_transmit_def concat_pieces piece_eq split: option.splits)

section \<open>Theorems\<close>

text \<open>
  C20: A transmit becomes a frame exactly when its next hop and its source address are known, and
  building it never panics.  An inner packet is sent unchanged behind the Ethernet header.  An
  outer packet, over IPv4 or IPv6, is read back by the frame parser and by the flow parser with
  the addresses and ports of its route, is not a fragment, carries the payload octet for octet,
  and passes the validation of its IP and UDP checksums.
\<close>

theorem outer_frame_roundtrip:
  assumes "link_ok link" and "length (tx_packet tx) \<le> 65507"
  shows "case fill_ethernet_frame link tx of
      Ok None \<Rightarrow> \<not> sendable link tx
    | Ok (Some frame) \<Rightarrow> sendable link tx \<and>
        (case outer tx of
           None \<Rightarrow> drop 14 frame = tx_packet tx
         | Some route \<Rightarrow> \<exists>pf. parse_ip_frame frame = Ok pf \<and> outer_source (interface link) route = Some (pf_source pf) \<and>
             \<not> fragmented pf \<and> parse_flow_key (ip_packet pf) = Ok (udp_flow (pf_source pf) (sock_ip (outer_destination route))
               (outer_source_port route) (sock_port (outer_destination route))) \<and>
             validate_packet_checksums (ip_packet pf) = Ok () \<and> io_udp_payload pf = Ok (tx_packet tx))
    | _ \<Rightarrow> False"
proof -
  note r = fill_ethernet_frame_run [OF assms]
  show ?thesis
  proof (cases "fill_ethernet_frame link tx")
    case (Ok x)
    show ?thesis
    proof (cases x)
      case (Some frame)
      then have s: "sendable link tx" "sent_frame link tx frame" using r Ok by simp_all
      show ?thesis
      proof (cases "outer tx")
        case None
        then show ?thesis using s assms(1) Ok Some by (auto simp: sent_frame_def link_ok_def)
      next
        case (Some route)
        obtain src p where "outer_source (interface link) route = Some src"
          "parse_ip_frame frame = Ok \<lparr> ip_packet = p, pf_source = src, pf_destination = sock_ip (outer_destination route),
              pf_protocol = 17, transport_offset = outer_header route - 8, fragmented = False \<rparr>"
          "udp_wire p (outer_header route - 8) src (sock_ip (outer_destination route)) (outer_source_port route)
             (sock_port (outer_destination route)) (tx_packet tx)"
          by (rule parse_sent_frame [OF assms(1) s(2) Some])
        then show ?thesis using s(1) Ok \<open>x = Some frame\<close> Some udp_wire_payload by (auto simp: udp_wire_def)
      qed
    qed (use r Ok in simp)
  qed (use r in simp_all)
qed

definition sample_link :: io_link_config where
  "sample_link = \<lparr> interface = \<lparr> if_name = ''eth0'', if_index = 2, queue_count = 1, mac = [2, 0, 0, 0, 0, 1], addresses = [],
       if_ipv4 = Some 0x0a000001, if_ipv6 = None \<rparr>,
     tunnel_next_hop = Some [2, 0, 0, 0, 0, 9], intercept_next_hop = None \<rparr>"

definition sample_route :: outer_route where
  "sample_route = \<lparr> outer_source_ip = None, outer_source_port = 5000,
     outer_destination = \<lparr> sock_ip = V4 0x0a000002, sock_port = 4433 \<rparr> \<rparr>"

definition sample_tx :: io_transmit where
  "sample_tx = \<lparr> target = \<lparr> ifindex = 2, queue_id = 0 \<rparr>, tx_packet = [0x40, 1, 2, 3, 4, 5, 6, 7, 8, 9], outer = Some sample_route \<rparr>"

definition sample_ports :: "u16 \<times> u16" where
  "sample_ports = (40000, 40006)"

lemma sample_link_ok: "link_ok sample_link"
  by (simp add: link_ok_def sample_link_def)

lemma sample_tx_frame: "\<exists>frame. fill_ethernet_frame sample_link sample_tx = Ok (Some frame)"
proof -
  have "length (tx_packet sample_tx) \<le> 65507" by (simp add: sample_tx_def)
  moreover have "sendable sample_link sample_tx"
    by (simp add: sendable_def sample_link_def sample_tx_def sample_route_def outer_source_def)
  ultimately show ?thesis
    using fill_ethernet_frame_run [OF sample_link_ok, of sample_tx] by (auto split: result.splits option.splits)
qed

theorem outer_frame_roundtrip_witness:
  "\<exists>frame pf. fill_ethernet_frame sample_link sample_tx = Ok (Some frame) \<and> parse_ip_frame frame = Ok pf \<and>
     io_udp_payload pf = Ok (tx_packet sample_tx) \<and> validate_packet_checksums (ip_packet pf) = Ok ()"
proof -
  obtain frame where f: "fill_ethernet_frame sample_link sample_tx = Ok (Some frame)" using sample_tx_frame by blast
  have l: "length (tx_packet sample_tx) \<le> 65507" and o: "outer sample_tx = Some sample_route" by (simp_all add: sample_tx_def)
  show ?thesis using outer_frame_roundtrip [OF sample_link_ok l] by (auto simp: f o)
qed

text \<open>
  C19: From one appliance to the next.  A tunnel datagram that one appliance puts on the wire is
  dispatched by the I/O thread of the appliance it is addressed to: to the worker that owns its
  connection identifier, with the sender's address and port as its remote, the address it was
  sent to as its local one, and with the same octets.
\<close>

theorem tunnel_frame_delivered:
  assumes "link_ok link" and "length (tx_packet tx) \<le> 65507" and "outer tx = Some route"
    and "fill_ethernet_frame link tx = Ok (Some frame)"
    and "tunnel config" and "sock_ip (outer_destination route) \<in> set (tunnel_local_ips config)"
    and "sock_port (outer_destination route) = tunnel_port config"
    and "parse_quic_dcid (tx_packet tx) (dcid_len config) = Ok (dcid, boot)" and "resolve dcids dcid = Some owner"
  shows "\<exists>src. outer_source (interface link) route = Some src \<and>
    classify_frame nc h config dcids rn frame = Ok (Send (owner_worker owner) (TunnelIngress (io_owner config) dcid
      \<lparr> sock_ip = src, sock_port = outer_source_port route \<rparr> (sock_ip (outer_destination route)) (tx_packet tx)))"
proof -
  have s: "sent_frame link tx frame" using fill_ethernet_frame_run [OF assms(1,2)] assms(4) by simp
  obtain src p where src: "outer_source (interface link) route = Some src"
    and pf: "parse_ip_frame frame = Ok \<lparr> ip_packet = p, pf_source = src, pf_destination = sock_ip (outer_destination route),
        pf_protocol = 17, transport_offset = outer_header route - 8, fragmented = False \<rparr>"
    and w: "udp_wire p (outer_header route - 8) src (sock_ip (outer_destination route)) (outer_source_port route)
       (sock_port (outer_destination route)) (tx_packet tx)"
    by (rule parse_sent_frame [OF assms(1) s assms(3)])
  let ?o = "outer_header route - 8"
  have ports: "(rd16 (take 8 (drop ?o p)) 0 :: (u16, drop_reason) result) = Ok (outer_source_port route)"
    "(rd16 (take 8 (drop ?o p)) 2 :: (u16, drop_reason) result) = Ok (sock_port (outer_destination route))"
    using w by (simp_all add: udp_wire_def rd16_in)
  show ?thesis
    using assms src ports
    by (simp add: classify_frame_def pf classify_tunnel_def parse_outer_quic_def udp_wire_payload(1,2) [OF w])
qed

text \<open>
  C39: The NAT ports of the appliance are divided among its workers without gap or overlap: with at
  least as many ports as workers, every worker gets a non-empty range inside the configured one,
  and every configured port belongs to exactly one worker; with fewer ports than workers, or an
  empty range, no worker gets any.
\<close>

theorem worker_ports_partition:
  assumes "0 < count" and "count < 4294967296"
  shows "if fst ports \<le> snd ports \<and> count \<le> port_total ports
    then (\<forall>w<count. \<exists>a b. worker_port_range ports w count = Ok (Some (a, b)) \<and> a \<le> b) \<and>
      (\<forall>p. fst ports \<le> p \<and> p \<le> snd ports \<longleftrightarrow>
        (\<exists>!w. w < count \<and> (\<exists>a b. worker_port_range ports w count = Ok (Some (a, b)) \<and> a \<le> p \<and> p \<le> b)))
    else \<forall>w. worker_port_range ports w count = Ok None"
proof (cases "fst ports \<le> snd ports \<and> count \<le> port_total ports")
  case True
  let ?s = "unat (fst ports)" and ?o = "port_offset (port_total ports) count"
  have total: "?s + port_total ports = unat (snd ports) + 1"
    using True by (simp add: port_total_def word_le_nat_alt)
  have owns: "(\<exists>a b. worker_port_range ports w count = Ok (Some (a, b)) \<and> a \<le> p \<and> p \<le> b) \<longleftrightarrow>
      ?s + ?o w \<le> unat p \<and> unat p < ?s + ?o (Suc w)" if "w < count" for w p
    using worker_port_range_iff [OF _ that, of ports] True by (metis (no_types, lifting) option.inject prod.inject result.inject(1))
  have range_iff: "fst ports \<le> p \<and> p \<le> snd ports \<longleftrightarrow> (\<exists>!w. w < count \<and> ?s + ?o w \<le> unat p \<and> unat p < ?s + ?o (Suc w))" for p
  proof
    assume "fst ports \<le> p \<and> p \<le> snd ports"
    then have p: "?s \<le> unat p" "unat p - ?s < port_total ports" using total by (auto simp: word_le_nat_alt)
    obtain w where "w < count" "?o w \<le> unat p - ?s" "unat p - ?s < ?o (Suc w)"
      using port_offset_covers [OF assms(1) p(2)] by blast
    then have w: "w < count" "?s + ?o w \<le> unat p" "unat p < ?s + ?o (Suc w)" using p(1) by simp_all
    show "\<exists>!w. w < count \<and> ?s + ?o w \<le> unat p \<and> unat p < ?s + ?o (Suc w)"
    proof (rule ex1I [of _ w])
      fix v assume "v < count \<and> ?s + ?o v \<le> unat p \<and> unat p < ?s + ?o (Suc v)"
      then show "v = w" using w by (intro port_offset_unique [of "port_total ports" count v "unat p - ?s" w]) auto
    qed (use w in simp)
  next
    assume "\<exists>!w. w < count \<and> ?s + ?o w \<le> unat p \<and> unat p < ?s + ?o (Suc w)"
    then obtain w where "w < count" "?s + ?o w \<le> unat p" "unat p < ?s + ?o (Suc w)" by blast
    moreover from this have "?o (Suc w) \<le> port_total ports"
      using port_offset_mono [of "Suc w" count "port_total ports" count] port_offset_end [of count "port_total ports"] by simp
    ultimately show "fst ports \<le> p \<and> p \<le> snd ports" using total by (simp add: word_le_nat_alt)
  qed
  have "\<exists>a b. worker_port_range ports w count = Ok (Some (a, b)) \<and> a \<le> b" if "w < count" for w
    using worker_port_range_iff [OF _ that, of ports] True by blast
  moreover have "(\<exists>!w. w < count \<and> (\<exists>a b. worker_port_range ports w count = Ok (Some (a, b)) \<and> a \<le> p \<and> p \<le> b)) \<longleftrightarrow>
      (\<exists>!w. w < count \<and> ?s + ?o w \<le> unat p \<and> unat p < ?s + ?o (Suc w))" for p
    by (intro arg_cong [where f = Ex1] ext) (use owns [of _ p] in blast)
  ultimately show ?thesis using True range_iff by simp
next
  case False
  have "port_total ports < 4294967296" using unat_u16_less [of "snd ports"] by (simp add: port_total_def)
  then have "(word_of_nat (port_total ports) :: u32) < word_of_nat count" if "port_total ports < count"
    using that assms(2) by (simp add: word_less_nat_alt unat_u32_of_nat)
  then have "worker_port_range ports w count = Ok None" for w
    using False u32_total [of ports] by (cases "snd ports < fst ports") (auto simp: worker_port_range_def Let_def not_le not_less)
  then show ?thesis unfolding if_not_P [OF False] by blast
qed

theorem worker_ports_partition_witness:
  "worker_port_range sample_ports 2 3 = Ok (Some (40005, 40006)) \<and>
   (\<exists>!w. w < 3 \<and> (\<exists>a b. worker_port_range sample_ports w 3 = Ok (Some (a, b)) \<and> a \<le> 40003 \<and> 40003 \<le> b))"
proof -
  have r: "worker_port_range sample_ports 2 3 = Ok (Some (40005, 40006))" by code_simp
  have c: "fst sample_ports \<le> snd sample_ports \<and> 3 \<le> port_total sample_ports" by code_simp
  have p: "fst sample_ports \<le> 40003 \<and> 40003 \<le> snd sample_ports" by code_simp
  have n: "(0 :: nat) < 3" "(3 :: nat) < 4294967296" by simp_all
  have "\<exists>!w. w < 3 \<and> (\<exists>a b. worker_port_range sample_ports w 3 = Ok (Some (a, b)) \<and> a \<le> 40003 \<and> 40003 \<le> b)"
    using p worker_ports_partition [OF n, of sample_ports, unfolded if_P [OF c], THEN conjunct2, rule_format, of 40003] by (rule iffD1 [rotated])
  with r show ?thesis by (rule conjI)
qed

theorem tunnel_frame_delivered_witness:
  "\<exists>frame. fill_ethernet_frame sample_link sample_tx = Ok (Some frame) \<and>
    classify_frame (\<lambda>_ _. False) (\<lambda>_ _. 0) (sample_classifier\<lparr> tunnel := True, tunnel_local_ips := [V4 0x0a000002] \<rparr>)
      (fst (stage_for_flow new_index [1, 2, 3, 4, 5, 6, 7, 8] \<lparr> qf_id = 7, qf_worker = 3, tunnel_queue_id = 0 \<rparr>))
      new_directory frame =
    Ok (Send 3 (TunnelIngress \<lparr> ifindex = 1, queue_id = 0 \<rparr> [1, 2, 3, 4, 5, 6, 7, 8]
      \<lparr> sock_ip = V4 0x0a000001, sock_port = 5000 \<rparr> (V4 0x0a000002) [0x40, 1, 2, 3, 4, 5, 6, 7, 8, 9]))"
proof -
  let ?c = "sample_classifier\<lparr> tunnel := True, tunnel_local_ips := [V4 0x0a000002] \<rparr>"
  let ?x = "fst (stage_for_flow new_index [1, 2, 3, 4, 5, 6, 7, 8] \<lparr> qf_id = 7, qf_worker = 3, tunnel_queue_id = 0 \<rparr>)"
  obtain frame where f: "fill_ethernet_frame sample_link sample_tx = Ok (Some frame)" using sample_tx_frame by blast
  have d: "parse_quic_dcid (tx_packet sample_tx) (dcid_len ?c) = Ok ([1, 2, 3, 4, 5, 6, 7, 8], False)" by code_simp
  have r: "resolve ?x [1, 2, 3, 4, 5, 6, 7, 8] = Some \<lparr> owner_worker = 3, owner_flow = 7 \<rparr>" by code_simp
  have s: "outer_source (interface sample_link) sample_route = Some (V4 0x0a000001)" by code_simp
  have o: "outer sample_tx = Some sample_route" "length (tx_packet sample_tx) \<le> 65507" "tunnel ?c"
    "sock_ip (outer_destination sample_route) \<in> set (tunnel_local_ips ?c)"
    "sock_port (outer_destination sample_route) = tunnel_port ?c"
    by (simp_all add: sample_tx_def sample_route_def sample_classifier_def)
  show ?thesis
    using f tunnel_frame_delivered [OF sample_link_ok o(2) o(1) f o(3-5) d r, of "\<lambda>_ _. False" "\<lambda>_ _. 0" new_directory] s
    by (simp add: sample_route_def sample_classifier_def sample_tx_def)
qed

end
