(* ===== verification/Quic_Auth.thy ===== *)
theory Quic_Auth
  imports Quic_Flow
begin

text \<open>
  The authentication of a tunnel connection (\<open>quic_engine.rs\<close>): the four frames that prove to each
  side that the other holds the shared key, the stream that carries them and the state kept for
  it.  The QUIC and TLS implementation is a parameter: a \<open>'c quinn\<close> holds the operations of
  \<open>quinn_proto::Connection\<close> the code calls, on a connection of type \<open>'c\<close>, and the HMAC function.
  Random nonces and the events polled from a connection are arguments.  A loop that writes a
  frame may only end if every write makes progress, so what writes is an optional result.
\<close>

section \<open>Model\<close>

definition AUTH_REQUEST :: u8 where [simp]: "AUTH_REQUEST = 1"
definition AUTH_RESPONSE :: u8 where [simp]: "AUTH_RESPONSE = 2"
definition AUTH_CONFIRM :: u8 where [simp]: "AUTH_CONFIRM = 3"
definition AUTH_COMPLETE :: u8 where [simp]: "AUTH_COMPLETE = 4"
definition AUTH_FRAME_LEN :: nat where [simp]: "AUTH_FRAME_LEN = 65"
definition AUTH_TIMEOUT :: duration where "AUTH_TIMEOUT = from_secs 10"
definition MAX_TRACKED_DCIDS :: nat where "MAX_TRACKED_DCIDS = 32"

definition ascii :: "string \<Rightarrow> bytes" where
  "ascii s = map (\<lambda>c. word_of_nat (of_char c)) s"

definition AUTH_PROTOCOL :: bytes where "AUTH_PROTOCOL = ascii ''new-proxy-auth-v2''"
definition EMPTY_NONCE :: bytes where "EMPTY_NONCE = replicate 16 0"

datatype quic_role = QuicClient | QuicServer

datatype auth_flush_outcome = Complete | Blocked | Failed

datatype write_outcome = Written nat | WriteBlocked | WriteFailed

datatype endpoint_event = Drained | EndpointEvent nat

record outer_transmit =
  ot_destination :: socket_addr
  ot_source_ip :: "ip_addr option"
  ot_contents :: bytes
  ot_segment_size :: "nat option"

text \<open>
  What is used of a connection.  Reading a stream gives the chunks received and whether it ended in
  a reset, or nothing when the stream cannot be read.  The loops that poll a connection for the
  events of its endpoint and for the packets to send take the whole queue.
\<close>

record 'c quinn =
  q_write :: "'c \<Rightarrow> nat \<Rightarrow> bytes \<Rightarrow> 'c \<times> write_outcome"
  q_read :: "'c \<Rightarrow> nat \<Rightarrow> 'c \<times> (bytes list \<times> bool) option"
  q_open :: "'c \<Rightarrow> 'c \<times> nat option"
  q_exporter :: "'c \<Rightarrow> bytes option"
  q_poll_timeout :: "'c \<Rightarrow> instant option"
  q_handle_timeout :: "'c \<Rightarrow> instant \<Rightarrow> 'c"
  q_endpoint_events :: "'c \<Rightarrow> 'c \<times> endpoint_event list"
  q_transmits :: "'c \<Rightarrow> instant \<Rightarrow> 'c \<times> outer_transmit list"
  q_hmac :: "bytes \<Rightarrow> bytes \<Rightarrow> bytes"

record auth_state =
  client_nonce :: "bytes option"
  server_nonce :: "bytes option"
  auth_stream :: "nat option"
  auth_receive :: bytes
  auth_transmit :: "bytes list"
  transmit_offset :: nat
  authenticate_after_flush :: bool
  authenticated :: bool

definition default_auth :: auth_state where
  "default_auth = \<lparr> client_nonce = None, server_nonce = None, auth_stream = None, auth_receive = [], auth_transmit = [],
     transmit_offset = 0, authenticate_after_flush = False, authenticated = False \<rparr>"

record 'c managed_connection =
  mc_handle :: nat
  mc_connection :: 'c
  mc_auth :: auth_state
  mc_dcids :: "dcid list"
  auth_deadline :: instant
  endpoint_registered :: bool
  dcid_limit_exceeded :: bool
  retired_dcid_frames :: u64

definition new_managed :: "nat \<Rightarrow> 'c \<Rightarrow> instant \<Rightarrow> 'c managed_connection" where
  "new_managed handle connection now =
    \<lparr> mc_handle = handle, mc_connection = connection, mc_auth = default_auth, mc_dcids = [], auth_deadline = now + AUTH_TIMEOUT,
      endpoint_registered = True, dcid_limit_exceeded = False, retired_dcid_frames = 0 \<rparr>"

definition track_dcid :: "'c managed_connection \<Rightarrow> dcid \<Rightarrow> 'c managed_connection" where
  "track_dcid m d =
    (if d \<in> set (mc_dcids m) then m
     else if MAX_TRACKED_DCIDS \<le> length (mc_dcids m) then m\<lparr> dcid_limit_exceeded := True \<rparr>
     else m\<lparr> mc_dcids := mc_dcids m @ [d] \<rparr>)"

record connection_drive =
  drive_endpoint_events :: "(nat \<times> endpoint_event) list"
  drive_transmits :: "outer_transmit list"
  drive_datagrams :: "bytes list"
  authenticated_now :: bool
  lost :: bool

definition default_drive :: connection_drive where
  "default_drive = \<lparr> drive_endpoint_events = [], drive_transmits = [], drive_datagrams = [], authenticated_now = False, lost = False \<rparr>"

subsection \<open>Frames\<close>

definition constant_time_eq :: "bytes \<Rightarrow> bytes \<Rightarrow> bool" where
  "constant_time_eq l r \<longleftrightarrow> length l = length r \<and> foldl (\<lambda>difference (a, b). difference OR (a XOR b)) 0 (zip l r) = 0"

definition auth_mac :: "'c quinn \<Rightarrow> bytes \<Rightarrow> bytes \<Rightarrow> bytes \<Rightarrow> bytes \<Rightarrow> bytes \<Rightarrow> bytes" where
  "auth_mac q key label cn sn exporter = q_hmac q key (AUTH_PROTOCOL @ label @ cn @ sn @ exporter)"

definition auth_exporter :: "'c quinn \<Rightarrow> 'c managed_connection \<Rightarrow> bytes option" where
  "auth_exporter q m = q_exporter q (mc_connection m)"

definition on_auth :: "(auth_state \<Rightarrow> auth_state) \<Rightarrow> 'c managed_connection \<Rightarrow> 'c managed_connection" where
  "on_auth f m = m\<lparr> mc_auth := f (mc_auth m) \<rparr>"

partial_function (option) flush_loop ::
  "'c quinn \<Rightarrow> nat \<Rightarrow> 'c managed_connection \<Rightarrow> ('c managed_connection \<times> (auth_flush_outcome, unit) result) option" where
  "flush_loop q stream m =
    (case auth_transmit (mc_auth m) of
       [] \<Rightarrow> Some (m, Ok Complete)
     | frame # rest \<Rightarrow>
         if length frame < transmit_offset (mc_auth m) then Some (m, Panic)
         else
           (case q_write q (mc_connection m) stream (drop (transmit_offset (mc_auth m)) frame) of
              (c, WriteBlocked) \<Rightarrow> Some (m\<lparr> mc_connection := c \<rparr>, Ok Blocked)
            | (c, WriteFailed) \<Rightarrow> Some (m\<lparr> mc_connection := c \<rparr>, Ok Failed)
            | (c, Written written) \<Rightarrow>
                flush_loop q stream (on_auth (\<lambda>a.
                    if transmit_offset a + written = length frame then a\<lparr> auth_transmit := rest, transmit_offset := 0 \<rparr>
                    else a\<lparr> transmit_offset := transmit_offset a + written \<rparr>)
                  (m\<lparr> mc_connection := c \<rparr>))))"

declare flush_loop.simps [code]

definition flush_auth_stream ::
  "'c quinn \<Rightarrow> 'c managed_connection \<Rightarrow> ('c managed_connection \<times> (auth_flush_outcome, unit) result) option" where
  "flush_auth_stream q m =
    (case auth_stream (mc_auth m) of
       None \<Rightarrow> Some (m, Ok (if auth_transmit (mc_auth m) = [] then Complete else Failed))
     | Some stream \<Rightarrow> flush_loop q stream m)"

definition auth_frame :: "'c quinn \<Rightarrow> bytes \<Rightarrow> u8 \<Rightarrow> bytes \<Rightarrow> bytes \<Rightarrow> bytes \<Rightarrow> bytes \<Rightarrow> bytes" where
  "auth_frame q key kind label cn sn exporter = kind # cn @ sn @ auth_mac q key label cn sn exporter"

definition queue_auth_frame ::
  "'c quinn \<Rightarrow> bytes \<Rightarrow> 'c managed_connection \<Rightarrow> u8 \<Rightarrow> bytes \<Rightarrow> bytes \<Rightarrow> bytes \<Rightarrow>
   ('c managed_connection \<times> (auth_flush_outcome, unit) result) option" where
  "queue_auth_frame q key m kind label cn sn =
    (case auth_exporter q m of
       None \<Rightarrow> Some (m, Ok Failed)
     | Some exporter \<Rightarrow>
         flush_auth_stream q (on_auth (\<lambda>a. a\<lparr> auth_transmit := auth_transmit a @ [auth_frame q key kind label cn sn exporter] \<rparr>) m))"

text \<open>Queueing a frame marks the connection lost when that fails.\<close>

definition queue_or_lose ::
  "'c quinn \<Rightarrow> bytes \<Rightarrow> 'c managed_connection \<Rightarrow> u8 \<Rightarrow> bytes \<Rightarrow> bytes \<Rightarrow> bytes \<Rightarrow> connection_drive \<Rightarrow>
   ('c managed_connection \<times> (connection_drive, unit) result) option" where
  "queue_or_lose q key m kind label cn sn drive =
    Option.bind (queue_auth_frame q key m kind label cn sn) (\<lambda>(m, r).
      Some (m, and_then r (\<lambda>outcome. Ok (if outcome = Failed then drive\<lparr> lost := True \<rparr> else drive))))"

definition handle_auth_frame ::
  "'c quinn \<Rightarrow> quic_role \<Rightarrow> bytes \<Rightarrow> 'c managed_connection \<Rightarrow> bytes \<Rightarrow> bytes \<Rightarrow> connection_drive \<Rightarrow>
   ('c managed_connection \<times> (connection_drive, unit) result) option" where
  "handle_auth_frame q role key m frame random drive =
    (if length frame \<noteq> 65 then Some (m, Panic)
     else
       let kind = frame ! 0; cn = take 16 (drop 1 frame); sn = take 16 (drop 17 frame); received_mac = drop 33 frame in
       case auth_exporter q m of
         None \<Rightarrow> Some (m, Ok (drive\<lparr> lost := True \<rparr>))
       | Some exporter \<Rightarrow>
           let valid = (\<lambda>label. constant_time_eq received_mac (auth_mac q key (ascii label) cn sn exporter));
               known = (client_nonce (mc_auth m) = Some cn \<and> server_nonce (mc_auth m) = Some sn) in
           if role = QuicServer \<and> kind = AUTH_REQUEST \<and> sn = EMPTY_NONCE \<and> valid ''client'' then
             queue_or_lose q key (on_auth (\<lambda>a. a\<lparr> client_nonce := Some cn, server_nonce := Some random \<rparr>) m)
               AUTH_RESPONSE (ascii ''server'') cn random drive
           else if role = QuicClient \<and> kind = AUTH_RESPONSE \<and> client_nonce (mc_auth m) = Some cn \<and> sn \<noteq> EMPTY_NONCE \<and>
             valid ''server'' then
             queue_or_lose q key (on_auth (\<lambda>a. a\<lparr> server_nonce := Some sn \<rparr>) m) AUTH_CONFIRM (ascii ''confirm'') cn sn drive
           else if role = QuicServer \<and> kind = AUTH_CONFIRM \<and> known \<and> valid ''confirm'' then
             Option.bind (queue_auth_frame q key m AUTH_COMPLETE (ascii ''complete'') cn sn) (\<lambda>(m, r).
               case r of
                 Ok Complete \<Rightarrow> Some (on_auth (\<lambda>a. a\<lparr> authenticated := True \<rparr>) m, Ok (drive\<lparr> authenticated_now := True \<rparr>))
               | Ok Blocked \<Rightarrow> Some (on_auth (\<lambda>a. a\<lparr> authenticate_after_flush := True \<rparr>) m, Ok drive)
               | Ok Failed \<Rightarrow> Some (m, Ok (drive\<lparr> lost := True \<rparr>))
               | Err e \<Rightarrow> Some (m, Err e)
               | Panic \<Rightarrow> Some (m, Panic))
           else if role = QuicClient \<and> kind = AUTH_COMPLETE \<and> known \<and> valid ''complete'' then
             Some (on_auth (\<lambda>a. a\<lparr> client_nonce := Some cn, server_nonce := Some sn, authenticated := True \<rparr>) m,
                   Ok (drive\<lparr> authenticated_now := True \<rparr>))
           else Some (m, Ok (drive\<lparr> lost := True \<rparr>)))"

subsection \<open>The stream\<close>

definition read_failed :: "'c managed_connection \<Rightarrow> connection_drive \<Rightarrow>
   ('c managed_connection \<times> (connection_drive, unit) result) option" where
  "read_failed m drive = Some (on_auth (\<lambda>a. a\<lparr> authenticated := False \<rparr>) m, Ok (drive\<lparr> lost := True \<rparr>))"

text \<open>At most one frame can be complete: more than one frame's worth of octets loses the connection.\<close>

definition drain_auth_stream ::
  "'c quinn \<Rightarrow> quic_role \<Rightarrow> bytes \<Rightarrow> 'c managed_connection \<Rightarrow> bytes \<Rightarrow> connection_drive \<Rightarrow>
   ('c managed_connection \<times> (connection_drive, unit) result) option" where
  "drain_auth_stream q role key m random drive =
    (case auth_stream (mc_auth m) of
       None \<Rightarrow> Some (m, Ok drive)
     | Some stream \<Rightarrow>
         let (c, r) = q_read q (mc_connection m) stream; m = m\<lparr> mc_connection := c \<rparr> in
         case r of
           None \<Rightarrow> read_failed m drive
         | Some (chunks, reset) \<Rightarrow>
             if reset then read_failed m drive
             else
               let m = on_auth (\<lambda>a. a\<lparr> auth_receive := auth_receive a @ concat chunks \<rparr>) m;
                   received = auth_receive (mc_auth m) in
               if AUTH_FRAME_LEN < length received then Some (m, Ok (drive\<lparr> lost := True \<rparr>))
               else if AUTH_FRAME_LEN \<le> length received
               then handle_auth_frame q role key (on_auth (\<lambda>a. a\<lparr> auth_receive := drop AUTH_FRAME_LEN received \<rparr>) m)
                      (take AUTH_FRAME_LEN received) random drive
               else Some (m, Ok drive))"

text \<open>What follows a flush, at the end of a turn and when the stream becomes writable.\<close>

definition after_flush ::
  "'c managed_connection \<Rightarrow> connection_drive \<Rightarrow> (auth_flush_outcome, unit) result \<Rightarrow>
   'c managed_connection \<times> (connection_drive, unit) result" where
  "after_flush m drive r =
    (case r of
       Ok Complete \<Rightarrow>
         if authenticate_after_flush (mc_auth m)
         then (on_auth (\<lambda>a. a\<lparr> authenticate_after_flush := False, authenticated := True \<rparr>) m, Ok (drive\<lparr> authenticated_now := True \<rparr>))
         else (m, Ok drive)
     | Ok Blocked \<Rightarrow> (m, Ok drive)
     | Ok Failed \<Rightarrow> (on_auth (\<lambda>a. a\<lparr> authenticated := False \<rparr>) m, Ok (drive\<lparr> lost := True \<rparr>))
     | Err e \<Rightarrow> (m, Err e)
     | Panic \<Rightarrow> (m, Panic))"

text \<open>Events of streams; an opened stream comes with the streams that can be accepted then.\<close>

datatype stream_event =
    OpenedBi "nat list"
  | OpenedUni
  | Readable nat
  | Writable nat
  | Stopped nat
  | Finished nat
  | Available

fun accept_streams ::
  "'c quinn \<Rightarrow> quic_role \<Rightarrow> bytes \<Rightarrow> 'c managed_connection \<Rightarrow> bytes \<Rightarrow> connection_drive \<Rightarrow> nat list \<Rightarrow>
   ('c managed_connection \<times> (connection_drive, unit) result) option" where
  "accept_streams q role key m random drive [] = Some (m, Ok drive)"
| "accept_streams q role key m random drive (stream # streams) =
    (if auth_stream (mc_auth m) = None then
       Option.bind (drain_auth_stream q role key (on_auth (\<lambda>a. a\<lparr> auth_stream := Some stream \<rparr>) m) random drive) (\<lambda>(m, r).
         case r of
           Ok drive \<Rightarrow> accept_streams q role key m random drive streams
         | Err e \<Rightarrow> Some (m, Err e)
         | Panic \<Rightarrow> Some (m, Panic))
     else accept_streams q role key m random (drive\<lparr> lost := True \<rparr>) streams)"

definition handle_stream_event ::
  "'c quinn \<Rightarrow> quic_role \<Rightarrow> bytes \<Rightarrow> 'c managed_connection \<Rightarrow> stream_event \<Rightarrow> bytes \<Rightarrow> connection_drive \<Rightarrow>
   ('c managed_connection \<times> (connection_drive, unit) result) option" where
  "handle_stream_event q role key m event random drive =
    (case event of
       OpenedBi streams \<Rightarrow>
         if role = QuicServer then accept_streams q role key m random drive streams
         else Some (m, Ok (drive\<lparr> lost := True \<rparr>))
     | OpenedUni \<Rightarrow> Some (m, Ok (drive\<lparr> lost := True \<rparr>))
     | Readable i \<Rightarrow>
         if auth_stream (mc_auth m) = Some i then drain_auth_stream q role key m random drive
         else Some (m, Ok (drive\<lparr> lost := True \<rparr>))
     | Writable i \<Rightarrow>
         if auth_stream (mc_auth m) = Some i then Option.bind (flush_auth_stream q m) (\<lambda>(m, r). Some (after_flush m drive r))
         else Some (m, Ok (drive\<lparr> lost := True \<rparr>))
     | Stopped i \<Rightarrow> Some (m, Ok (drive\<lparr> lost := True \<rparr>))
     | Finished i \<Rightarrow> Some (m, Ok (if auth_stream (mc_auth m) \<noteq> Some i then drive\<lparr> lost := True \<rparr> else drive))
     | Available \<Rightarrow> Some (m, Ok drive))"

definition start_client_authentication ::
  "'c quinn \<Rightarrow> bytes \<Rightarrow> 'c managed_connection \<Rightarrow> bytes \<Rightarrow> ('c managed_connection \<times> (bool, unit) result) option" where
  "start_client_authentication q key m nonce =
    (case q_open q (mc_connection m) of
       (c, None) \<Rightarrow> Some (m\<lparr> mc_connection := c \<rparr>, Ok False)
     | (c, Some stream) \<Rightarrow>
         Option.bind (queue_auth_frame q key
             (on_auth (\<lambda>a. a\<lparr> auth_stream := Some stream, client_nonce := Some nonce \<rparr>) (m\<lparr> mc_connection := c \<rparr>))
             AUTH_REQUEST (ascii ''client'') nonce EMPTY_NONCE) (\<lambda>(m, r).
           Some (m, and_then r (\<lambda>outcome. Ok (outcome \<noteq> Failed)))))"

subsection \<open>One turn of a connection\<close>

text \<open>The events a connection is polled for, with the random nonce that handling one may use.\<close>

datatype connection_event =
    Connected bytes
  | DatagramReceived "bytes list"
  | Stream stream_event bytes
  | ConnectionLost
  | OtherEvent

fun poll_events ::
  "'c quinn \<Rightarrow> quic_role \<Rightarrow> bytes \<Rightarrow> 'c managed_connection \<Rightarrow> connection_drive \<Rightarrow> connection_event list \<Rightarrow>
   ('c managed_connection \<times> (connection_drive, unit) result) option" where
  "poll_events q role key m drive [] = Some (m, Ok drive)"
| "poll_events q role key m drive (Connected nonce # events) =
    (if role = QuicClient then
       Option.bind (start_client_authentication q key m nonce) (\<lambda>(m, r).
         case r of
           Ok started \<Rightarrow> poll_events q role key m (if started then drive else drive\<lparr> lost := True \<rparr>) events
         | Err e \<Rightarrow> Some (m, Err e)
         | Panic \<Rightarrow> Some (m, Panic))
     else poll_events q role key m drive events)"
| "poll_events q role key m drive (DatagramReceived ds # events) =
    poll_events q role key m (drive\<lparr> drive_datagrams := drive_datagrams drive @ ds \<rparr>) events"
| "poll_events q role key m drive (Stream e r # events) = poll_events q role key m drive events"
| "poll_events q role key m drive (ConnectionLost # events) = poll_events q role key m (drive\<lparr> lost := True \<rparr>) events"
| "poll_events q role key m drive (OtherEvent # events) = poll_events q role key m drive events"

fun stream_events :: "connection_event list \<Rightarrow> (stream_event \<times> bytes) list" where
  "stream_events [] = []"
| "stream_events (Stream e r # events) = (e, r) # stream_events events"
| "stream_events (_ # events) = stream_events events"

fun handle_stream_events ::
  "'c quinn \<Rightarrow> quic_role \<Rightarrow> bytes \<Rightarrow> 'c managed_connection \<Rightarrow> connection_drive \<Rightarrow> (stream_event \<times> bytes) list \<Rightarrow>
   ('c managed_connection \<times> (connection_drive, unit) result) option" where
  "handle_stream_events q role key m drive [] = Some (m, Ok drive)"
| "handle_stream_events q role key m drive ((event, random) # events) =
    Option.bind (handle_stream_event q role key m event random drive) (\<lambda>(m, r).
      case r of
        Ok drive \<Rightarrow> handle_stream_events q role key m drive events
      | Err e \<Rightarrow> Some (m, Err e)
      | Panic \<Rightarrow> Some (m, Panic))"

text \<open>
  The peer retiring a connection identifier after authentication closes the connection; \<open>retired\<close>
  is the number of such frames the connection has counted.
\<close>

definition check_retired ::
  "bool \<Rightarrow> u64 \<Rightarrow> 'c managed_connection \<Rightarrow> connection_drive \<Rightarrow> 'c managed_connection \<times> connection_drive" where
  "check_retired was_authenticated retired m drive =
    (if \<not> was_authenticated \<and> authenticated (mc_auth m) then (m\<lparr> retired_dcid_frames := retired \<rparr>, drive)
     else if authenticated (mc_auth m) \<and> retired_dcid_frames m < retired
     then (m\<lparr> retired_dcid_frames := retired \<rparr>, drive\<lparr> lost := True \<rparr>)
     else if \<not> authenticated (mc_auth m) then (m\<lparr> retired_dcid_frames := retired \<rparr>, drive)
     else (m, drive))"

definition finish_connection_drive ::
  "'c quinn \<Rightarrow> instant \<Rightarrow> 'c managed_connection \<Rightarrow> connection_drive \<Rightarrow> 'c managed_connection \<times> (connection_drive, unit) result" where
  "finish_connection_drive q now m drive =
    (let (c, events) = q_endpoint_events q (mc_connection m); (c, transmits) = q_transmits q c now in
     (m\<lparr> mc_connection := c \<rparr>,
      Ok (drive\<lparr> drive_endpoint_events := drive_endpoint_events drive @ map (Pair (mc_handle m)) events,
            drive_transmits := drive_transmits drive @ transmits \<rparr>)))"

definition drive_connection ::
  "'c quinn \<Rightarrow> quic_role \<Rightarrow> bytes \<Rightarrow> instant \<Rightarrow> 'c managed_connection \<Rightarrow> connection_event list \<Rightarrow> u64 \<Rightarrow>
   ('c managed_connection \<times> (connection_drive, unit) result) option" where
  "drive_connection q role key now m events retired =
    (let was_authenticated = authenticated (mc_auth m);
         drive = default_drive\<lparr> lost := dcid_limit_exceeded m \<or> (\<not> was_authenticated \<and> auth_deadline m \<le> now) \<rparr>;
         m = (case q_poll_timeout q (mc_connection m) of
                Some deadline \<Rightarrow> if deadline \<le> now then m\<lparr> mc_connection := q_handle_timeout q (mc_connection m) now \<rparr> else m
              | None \<Rightarrow> m)
     in Option.bind (poll_events q role key m drive events) (\<lambda>(m, r).
          case r of
            Err e \<Rightarrow> Some (m, Err e)
          | Panic \<Rightarrow> Some (m, Panic)
          | Ok drive \<Rightarrow>
              Option.bind (handle_stream_events q role key m drive (stream_events events)) (\<lambda>(m, r).
                case r of
                  Err e \<Rightarrow> Some (m, Err e)
                | Panic \<Rightarrow> Some (m, Panic)
                | Ok drive \<Rightarrow>
                    if lost drive then Some (finish_connection_drive q now m drive)
                    else
                      Option.bind (flush_auth_stream q m) (\<lambda>(m, r).
                        case after_flush m drive r of
                          (m, Ok drive) \<Rightarrow> (case check_retired was_authenticated retired m drive of (m, drive) \<Rightarrow> Some (finish_connection_drive q now m drive))
                        | (m, r) \<Rightarrow> Some (m, r)))))"

section \<open>Comparing without branching\<close>

lemma or_eq_0_iff: "x OR y = 0 \<longleftrightarrow> x = 0 \<and> y = 0" for x y :: u8
proof
  assume a: "x OR y = 0"
  have "\<not> bit x n \<and> \<not> bit y n" for n using arg_cong [OF a, of "\<lambda>w. bit w n"] by (simp add: bit_or_iff)
  then show "x = 0 \<and> y = 0" by (simp add: bit_eq_iff)
qed simp

lemma fold_difference:
  "length l = length r \<Longrightarrow>
   foldl (\<lambda>difference (a, b). difference OR (a XOR b)) d (zip l r) = 0 \<longleftrightarrow> d = 0 \<and> l = r" for d :: u8
proof (induction l r arbitrary: d rule: list_induct2)
  case (Cons x xs y ys)
  have "x XOR y = 0 \<longleftrightarrow> x = y" by (metis xor_self_eq xor.assoc xor.left_neutral xor.right_neutral)
  then show ?case using Cons by (auto simp: or_eq_0_iff)
qed simp

lemma constant_time_eq_iff [simp]: "constant_time_eq l r \<longleftrightarrow> l = r"
  by (auto simp: constant_time_eq_def fold_difference)

section \<open>Writing frames\<close>

text \<open>
  What is relied on of the connection: a write accepts some of the octets it is given, or reports
  that it is blocked or failed, and the exported keying material of a connection does not change.
\<close>

definition quinn_ok :: "'c quinn \<Rightarrow> bool" where
  "quinn_ok q \<longleftrightarrow>
    (\<forall>c s bs c' n. bs \<noteq> [] \<longrightarrow> q_write q c s bs = (c', Written n) \<longrightarrow> 0 < n \<and> n \<le> length bs) \<and>
    (\<forall>c s bs. q_exporter q (fst (q_write q c s bs)) = q_exporter q c) \<and>
    (\<forall>c s. q_exporter q (fst (q_read q c s)) = q_exporter q c) \<and>
    (\<forall>c. q_exporter q (fst (q_open q c)) = q_exporter q c) \<and>
    (\<forall>c now. q_exporter q (q_handle_timeout q c now) = q_exporter q c) \<and>
    (\<forall>c. q_exporter q (fst (q_endpoint_events q c)) = q_exporter q c) \<and>
    (\<forall>c now. q_exporter q (fst (q_transmits q c now)) = q_exporter q c)"

definition tx_ok :: "auth_state \<Rightarrow> bool" where
  "tx_ok a \<longleftrightarrow> (\<forall>f\<in>set (auth_transmit a). f \<noteq> []) \<and>
    (case auth_transmit a of [] \<Rightarrow> transmit_offset a = 0 | f # _ \<Rightarrow> transmit_offset a < length f)"

definition unsent :: "auth_state \<Rightarrow> nat" where
  "unsent a = sum_list (map length (auth_transmit a)) - transmit_offset a"

text \<open>What a turn of a connection leaves alone.\<close>

definition ident :: "'c managed_connection \<Rightarrow> nat \<times> dcid list \<times> bool \<times> bool" where
  "ident m = (mc_handle m, mc_dcids m, endpoint_registered m, dcid_limit_exceeded m)"

lemma ident_simps [simp]:
  "ident (m\<lparr> mc_connection := c \<rparr>) = ident m" "ident (m\<lparr> mc_auth := a \<rparr>) = ident m"
  "ident (m\<lparr> retired_dcid_frames := n \<rparr>) = ident m" "ident (on_auth f m) = ident m"
  by (simp_all add: ident_def on_auth_def)

text \<open>A flush changes the connection, the queue of frames and the offset in its first frame, nothing else.\<close>

definition flushed :: "'c quinn \<Rightarrow> 'c managed_connection \<Rightarrow> 'c managed_connection \<Rightarrow> bool" where
  "flushed q m m' \<longleftrightarrow> (\<exists>c tx off. q_exporter q c = q_exporter q (mc_connection m) \<and>
     m' = m\<lparr> mc_connection := c, mc_auth := (mc_auth m)\<lparr> auth_transmit := tx, transmit_offset := off \<rparr> \<rparr>)"

lemma flushed_refl: "flushed q m m"
  unfolding flushed_def
  by (intro exI [of _ "mc_connection m"] exI [of _ "auth_transmit (mc_auth m)"] exI [of _ "transmit_offset (mc_auth m)"]) simp

lemma flushed_trans:
  assumes "flushed q m m'" and "flushed q m' m''"
  shows "flushed q m m''"
proof -
  obtain c tx off where "q_exporter q c = q_exporter q (mc_connection m')"
    "m'' = m'\<lparr> mc_connection := c, mc_auth := (mc_auth m')\<lparr> auth_transmit := tx, transmit_offset := off \<rparr> \<rparr>"
    using assms(2) by (auto simp: flushed_def)
  then show ?thesis
    using assms(1) unfolding flushed_def by (intro exI [of _ c] exI [of _ tx] exI [of _ off]) auto
qed

lemma flushed_fields:
  assumes "flushed q m m'"
  shows "auth_exporter q m' = auth_exporter q m" "authenticated (mc_auth m') = authenticated (mc_auth m)"
    "authenticate_after_flush (mc_auth m') = authenticate_after_flush (mc_auth m)"
    "auth_receive (mc_auth m') = auth_receive (mc_auth m)" "client_nonce (mc_auth m') = client_nonce (mc_auth m)"
    "server_nonce (mc_auth m') = server_nonce (mc_auth m)" "auth_stream (mc_auth m') = auth_stream (mc_auth m)"
    "ident m' = ident m"
  using assms by (auto simp: flushed_def auth_exporter_def)

lemma flushed_step:
  assumes "quinn_ok q" and "q_write q (mc_connection m) s bs = (c, w)"
  shows "flushed q m (m\<lparr> mc_connection := c \<rparr>)"
    and "flushed q m (on_auth (\<lambda>a. if P a then a\<lparr> auth_transmit := tx, transmit_offset := off \<rparr> else a\<lparr> transmit_offset := off' a \<rparr>) (m\<lparr> mc_connection := c \<rparr>))"
proof -
  have e: "q_exporter q c = q_exporter q (mc_connection m)"
    using assms unfolding quinn_ok_def by (metis fst_conv)
  show "flushed q m (m\<lparr> mc_connection := c \<rparr>)"
    unfolding flushed_def
    by (intro exI [of _ c] exI [of _ "auth_transmit (mc_auth m)"] exI [of _ "transmit_offset (mc_auth m)"]) (simp add: e)
  show "flushed q m (on_auth (\<lambda>a. if P a then a\<lparr> auth_transmit := tx, transmit_offset := off \<rparr> else a\<lparr> transmit_offset := off' a \<rparr>) (m\<lparr> mc_connection := c \<rparr>))"
    unfolding flushed_def on_auth_def
    by (intro exI [of _ c] exI [of _ "if P (mc_auth m) then tx else auth_transmit (mc_auth m)"]
        exI [of _ "if P (mc_auth m) then off else off' (mc_auth m)"]) (simp add: e)
qed

lemma flush_loop_ends:
  assumes q: "quinn_ok q"
  shows "tx_ok (mc_auth m) \<Longrightarrow> \<exists>m' r. flush_loop q stream m = Some (m', Ok r) \<and> tx_ok (mc_auth m') \<and> flushed q m m' \<and>
    (r = Complete \<longrightarrow> auth_transmit (mc_auth m') = [])"
proof (induction "unsent (mc_auth m)" arbitrary: m rule: less_induct)
  case less
  let ?a = "mc_auth m"
  show ?case
  proof (cases "auth_transmit ?a")
    case Nil
    then show ?thesis using less.prems by (subst flush_loop.simps) (auto intro: flushed_refl)
  next
    case (Cons frame rest)
    let ?bs = "drop (transmit_offset ?a) frame"
    obtain c w where w: "q_write q (mc_connection m) stream ?bs = (c, w)" by (cases "q_write q (mc_connection m) stream ?bs")
    have off: "transmit_offset ?a < length frame" using less.prems Cons by (simp add: tx_ok_def)
    show ?thesis
    proof (cases w)
      case (Written n)
      have n: "0 < n" "n \<le> length ?bs" using q w Written off unfolding quinn_ok_def by (metis drop_eq_Nil not_le)+
      let ?m = "on_auth (\<lambda>a. if transmit_offset a + n = length frame then a\<lparr> auth_transmit := rest, transmit_offset := 0 \<rparr>
                    else a\<lparr> transmit_offset := transmit_offset a + n \<rparr>) (m\<lparr> mc_connection := c \<rparr>)"
      have tx: "tx_ok (mc_auth ?m)"
        using less.prems Cons n off by (cases rest) (auto simp: tx_ok_def on_auth_def)
      have "unsent (mc_auth ?m) < unsent ?a"
        using Cons n off by (auto simp: unsent_def on_auth_def)
      from less.hyps [OF this tx] obtain m' r where "flush_loop q stream ?m = Some (m', Ok r)" "tx_ok (mc_auth m')" "flushed q ?m m'"
        "r = Complete \<longrightarrow> auth_transmit (mc_auth m') = []" by blast
      moreover have "flush_loop q stream m = flush_loop q stream ?m"
        using Cons off w Written by (subst flush_loop.simps) simp
      moreover have f: "flushed q m ?m" by (rule flushed_step(2) [OF q w])
      ultimately show ?thesis using flushed_trans [OF f] by auto
    qed (use Cons off w less.prems flushed_step(1) [OF q w] in \<open>subst flush_loop.simps, simp\<close>)+
  qed
qed

section \<open>Proofs of the key\<close>

text \<open>
  The frame that makes a side believe the other: it carries the MAC of its own label, its nonces and
  the keying material of the connection under the shared key.
\<close>

definition proof_frame :: "'c quinn \<Rightarrow> bytes \<Rightarrow> quic_role \<Rightarrow> bytes option \<Rightarrow> bytes \<Rightarrow> bool" where
  "proof_frame q key role ex frame \<longleftrightarrow> (\<exists>cn sn e. ex = Some e \<and> length cn = 16 \<and> length sn = 16 \<and>
     frame = (if role = QuicServer then auth_frame q key AUTH_CONFIRM (ascii ''confirm'') cn sn e
              else auth_frame q key AUTH_COMPLETE (ascii ''complete'') cn sn e))"

text \<open>
  A peer that cannot prove the key: what the stream may hold after any of its writes is closed under
  reading more from it, and never is a proof.
\<close>

definition no_proof :: "'c quinn \<Rightarrow> bytes \<Rightarrow> quic_role \<Rightarrow> bytes option \<Rightarrow> (bytes \<Rightarrow> bool) \<Rightarrow> bool" where
  "no_proof q key role ex content \<longleftrightarrow> content [] \<and>
    (\<forall>c s c' chunks pre. content pre \<longrightarrow> q_read q c s = (c', Some (chunks, False)) \<longrightarrow> content (pre @ concat chunks)) \<and>
    (\<forall>frame. content frame \<longrightarrow> \<not> proof_frame q key role ex frame)"

text \<open>
  The state of a connection, and of one that (when \<open>u\<close> holds) has not been given a proof; \<open>ds\<close> is
  what a turn does not change.
\<close>

definition auth_good ::
  "bool \<Rightarrow> (bytes \<Rightarrow> bool) \<Rightarrow> 'c quinn \<Rightarrow> bytes option \<Rightarrow> nat \<times> dcid list \<times> bool \<times> bool \<Rightarrow> 'c managed_connection \<Rightarrow> bool" where
  "auth_good u content q ex ds m \<longleftrightarrow> tx_ok (mc_auth m) \<and> auth_exporter q m = ex \<and> ident m = ds \<and>
    (u \<longrightarrow> \<not> authenticated (mc_auth m) \<and> \<not> authenticate_after_flush (mc_auth m) \<and> content (auth_receive (mc_auth m)))"

definition drive_good :: "bool \<Rightarrow> connection_drive \<Rightarrow> bool" where
  "drive_good u d \<longleftrightarrow> (u \<longrightarrow> \<not> authenticated_now d)"

definition auth_run ::
  "bool \<Rightarrow> (bytes \<Rightarrow> bool) \<Rightarrow> 'c quinn \<Rightarrow> bytes option \<Rightarrow> nat \<times> dcid list \<times> bool \<times> bool \<Rightarrow>
   ('c managed_connection \<times> (connection_drive, unit) result) option \<Rightarrow> bool" where
  "auth_run u content q ex ds r \<longleftrightarrow> (\<exists>m d. r = Some (m, Ok d) \<and> auth_good u content q ex ds m \<and> drive_good u d)"

lemma auth_run_Some [simp]: "auth_run u content q ex ds (Some (m, Ok d)) \<longleftrightarrow> auth_good u content q ex ds m \<and> drive_good u d"
  by (simp add: auth_run_def)

lemma auth_run_bind:
  assumes "auth_run u content q ex ds r"
    and "\<And>m d. auth_good u content q ex ds m \<Longrightarrow> drive_good u d \<Longrightarrow> auth_run u content q ex ds (k m (Ok d))"
  shows "auth_run u content q ex ds (Option.bind r (\<lambda>(m, r). k m r))"
  using assms by (auto simp: auth_run_def)

lemma drive_good_simps [simp]: "drive_good u (d\<lparr> lost := l \<rparr>) \<longleftrightarrow> drive_good u d"
  "drive_good u (d\<lparr> drive_datagrams := ds \<rparr>) \<longleftrightarrow> drive_good u d"
  "drive_good u (d\<lparr> drive_endpoint_events := es \<rparr>) \<longleftrightarrow> drive_good u d" "drive_good u (d\<lparr> drive_transmits := ts \<rparr>) \<longleftrightarrow> drive_good u d"
  "drive_good u (d\<lparr> authenticated_now := True \<rparr>) \<longleftrightarrow> \<not> u"
  by (simp_all add: drive_good_def)

lemma auth_good_flushed: "auth_good u content q ex ds m \<Longrightarrow> flushed q m m' \<Longrightarrow> tx_ok (mc_auth m') \<Longrightarrow> auth_good u content q ex ds m'"
  by (simp add: auth_good_def flushed_fields)

lemma flush_auth_stream_run:
  assumes q: "quinn_ok q" and g: "auth_good u content q ex ds m"
  obtains m' r where "flush_auth_stream q m = Some (m', Ok r)" "auth_good u content q ex ds m'" "flushed q m m'"
proof (cases "auth_stream (mc_auth m)")
  case None
  then show ?thesis using that g flushed_refl by (auto simp: flush_auth_stream_def)
next
  case (Some stream)
  have "tx_ok (mc_auth m)" using g by (simp add: auth_good_def)
  from flush_loop_ends [OF q this] obtain m' r where r: "flush_loop q stream m = Some (m', Ok r)" "tx_ok (mc_auth m')" "flushed q m m'"
    by blast
  show ?thesis
    by (rule that [of m' r]) (use Some r g in \<open>auto simp: flush_auth_stream_def intro: auth_good_flushed\<close>)
qed

lemma tx_ok_append: "tx_ok a \<Longrightarrow> f \<noteq> [] \<Longrightarrow> tx_ok (a\<lparr> auth_transmit := auth_transmit a @ [f] \<rparr>)"
  by (auto simp: tx_ok_def split: list.splits)

lemma queue_auth_frame_run:
  assumes q: "quinn_ok q" and g: "auth_good u content q ex ds m"
  obtains m' r where "queue_auth_frame q key m kind label cn sn = Some (m', Ok r)" "auth_good u content q ex ds m'"
    "client_nonce (mc_auth m') = client_nonce (mc_auth m)" "server_nonce (mc_auth m') = server_nonce (mc_auth m)"
    "auth_receive (mc_auth m') = auth_receive (mc_auth m)"
proof (cases "auth_exporter q m")
  case None
  then show ?thesis using that g by (auto simp: queue_auth_frame_def)
next
  case (Some e)
  let ?m = "on_auth (\<lambda>a. a\<lparr> auth_transmit := auth_transmit a @ [auth_frame q key kind label cn sn e] \<rparr>) m"
  have "auth_good u content q ex ds ?m"
    using g by (auto simp: auth_good_def on_auth_def auth_exporter_def auth_frame_def intro: tx_ok_append)
  then obtain m' r where "flush_auth_stream q ?m = Some (m', Ok r)" "auth_good u content q ex ds m'" "flushed q ?m m'"
    by (rule flush_auth_stream_run [OF q])
  then show ?thesis
    using that [of m' r] Some by (simp add: queue_auth_frame_def flushed_fields) (simp add: on_auth_def)
qed

lemma frame_parts:
  assumes "length frame = 65"
  shows "frame = frame ! 0 # take 16 (drop 1 frame) @ take 16 (drop 17 frame) @ drop 33 frame"
proof -
  have "drop 17 frame = take 16 (drop 17 frame) @ drop 33 frame" using append_take_drop_id [of 16 "drop 17 frame"] by simp
  moreover have "drop 1 frame = take 16 (drop 1 frame) @ drop 17 frame" using append_take_drop_id [of 16 "drop 1 frame"] by simp
  moreover have "frame = frame ! 0 # drop 1 frame" using assms by (cases frame) auto
  ultimately show ?thesis by simp
qed

lemma valid_is_proof:
  assumes "length frame = 65" and "auth_exporter q m = Some e"
    and "drop 33 frame = auth_mac q key (ascii label) (take 16 (drop 1 frame)) (take 16 (drop 17 frame)) e"
    and "role = QuicServer \<and> frame ! 0 = AUTH_CONFIRM \<and> label = ''confirm'' \<or>
      role = QuicClient \<and> frame ! 0 = AUTH_COMPLETE \<and> label = ''complete''"
  shows "proof_frame q key role (auth_exporter q m) frame"
proof -
  let ?cn = "take 16 (drop 1 frame)" and ?sn = "take 16 (drop 17 frame)"
  have "frame = auth_frame q key (frame ! 0) (ascii label) ?cn ?sn e"
    using frame_parts [OF assms(1)] assms(3) by (simp add: auth_frame_def)
  then show ?thesis
    unfolding proof_frame_def
    by (intro exI [of _ ?cn] exI [of _ ?sn] exI [of _ e]) (use assms in auto)
qed

lemma queue_or_lose_run:
  assumes "quinn_ok q" and "auth_good u content q ex ds m" and "drive_good u drive"
  shows "auth_run u content q ex ds (queue_or_lose q key m kind label cn sn drive)"
  by (rule queue_auth_frame_run [OF assms(1,2), of key kind label cn sn])
    (use assms(3) in \<open>auto simp: queue_or_lose_def\<close>)

lemma tx_ok_simps [simp]:
  "tx_ok (a\<lparr> client_nonce := x \<rparr>) = tx_ok a" "tx_ok (a\<lparr> server_nonce := x \<rparr>) = tx_ok a" "tx_ok (a\<lparr> auth_stream := s \<rparr>) = tx_ok a"
  "tx_ok (a\<lparr> auth_receive := r \<rparr>) = tx_ok a" "tx_ok (a\<lparr> authenticated := b \<rparr>) = tx_ok a"
  "tx_ok (a\<lparr> authenticate_after_flush := b \<rparr>) = tx_ok a"
  by (simp_all add: tx_ok_def split: list.split)

lemma auth_run_if:
  "(P \<Longrightarrow> auth_run u content q ex ds r) \<Longrightarrow> (\<not> P \<Longrightarrow> auth_run u content q ex ds s) \<Longrightarrow> auth_run u content q ex ds (if P then r else s)"
  by simp

lemma auth_good_nonces:
  "auth_good u content q ex ds m \<Longrightarrow> auth_good u content q ex ds (on_auth (\<lambda>a. a\<lparr> client_nonce := cn, server_nonce := sn \<rparr>) m)"
  "auth_good u content q ex ds m \<Longrightarrow> auth_good u content q ex ds (on_auth (\<lambda>a. a\<lparr> server_nonce := sn \<rparr>) m)"
  by (simp_all add: auth_good_def on_auth_def auth_exporter_def)

lemma auth_good_now: "auth_good False content q ex ds (on_auth (\<lambda>a. a\<lparr> authenticated := b \<rparr>) m) \<longleftrightarrow> auth_good False content q ex ds m"
  "auth_good False content q ex ds (on_auth (\<lambda>a. a\<lparr> authenticate_after_flush := b \<rparr>) m) \<longleftrightarrow> auth_good False content q ex ds m"
  by (simp_all add: auth_good_def on_auth_def auth_exporter_def)

lemma auth_good_not_now: "auth_good u content q ex ds m \<Longrightarrow> auth_good u content q ex ds (on_auth (\<lambda>a. a\<lparr> authenticated := False \<rparr>) m)"
  by (simp add: auth_good_def on_auth_def auth_exporter_def)

lemma handle_auth_frame_run:
  assumes q: "quinn_ok q" and g: "auth_good u content q ex ds m" and d: "drive_good u drive" and l: "length frame = 65"
    and p: "u \<longrightarrow> \<not> proof_frame q key role ex frame"
  shows "auth_run u content q ex ds (handle_auth_frame q role key m frame random drive)"
proof (cases "auth_exporter q m")
  case None
  then show ?thesis using g d l by (simp add: handle_auth_frame_def)
next
  case (Some e)
  let ?cn = "take 16 (drop 1 frame)" and ?sn = "take 16 (drop 17 frame)"
  let ?valid = "\<lambda>label. drop 33 frame = auth_mac q key (ascii label) ?cn ?sn e"
  have ex: "ex = auth_exporter q m" using g by (simp add: auth_good_def)
  have not_u: "\<not> u" if "role = QuicServer \<and> frame ! 0 = AUTH_CONFIRM \<and> ?valid ''confirm'' \<or>
      role = QuicClient \<and> frame ! 0 = AUTH_COMPLETE \<and> ?valid ''complete''"
    using that p valid_is_proof [OF l Some] unfolding ex by blast
  have "auth_run u content q ex ds (queue_or_lose q key (on_auth (\<lambda>a. a\<lparr> client_nonce := Some cn, server_nonce := Some sn \<rparr>) m) kind label cn' sn' drive)"
    "auth_run u content q ex ds (queue_or_lose q key (on_auth (\<lambda>a. a\<lparr> server_nonce := Some sn \<rparr>) m) kind label cn' sn' drive)"
    for cn sn kind label cn' sn'
    by (simp_all add: queue_or_lose_run [OF q] auth_good_nonces [OF g] d)
  note queued = this
  have confirm: "auth_run u content q ex ds (Option.bind (queue_auth_frame q key m kind label cn sn) (\<lambda>(m, r). case r of
      Ok Complete \<Rightarrow> Some (on_auth (\<lambda>a. a\<lparr> authenticated := True \<rparr>) m, Ok (drive\<lparr> authenticated_now := True \<rparr>))
    | Ok Blocked \<Rightarrow> Some (on_auth (\<lambda>a. a\<lparr> authenticate_after_flush := True \<rparr>) m, Ok drive)
    | Ok Failed \<Rightarrow> Some (m, Ok (drive\<lparr> lost := True \<rparr>))
    | Err e \<Rightarrow> Some (m, Err e)
    | Panic \<Rightarrow> Some (m, Panic)))" if "\<not> u" for kind label cn sn
    by (rule queue_auth_frame_run [OF q g, of key kind label cn sn])
      (use that d in \<open>auto simp: auth_good_now split: auth_flush_outcome.split\<close>)
  have complete: "auth_good u content q ex ds (on_auth (\<lambda>a. a\<lparr> client_nonce := Some cn, server_nonce := Some sn, authenticated := True \<rparr>) m)"
    if "\<not> u" for cn sn
    using that g by (simp add: auth_good_def on_auth_def auth_exporter_def)
  show ?thesis
    unfolding handle_auth_frame_def Let_def Some option.case constant_time_eq_iff
  proof (intro auth_run_if queued)
    assume "role = QuicServer \<and> frame ! 0 = AUTH_CONFIRM \<and> (client_nonce (mc_auth m) = Some ?cn \<and> server_nonce (mc_auth m) = Some ?sn) \<and>
      ?valid ''confirm''"
    then show "auth_run u content q ex ds (Option.bind (queue_auth_frame q key m AUTH_COMPLETE (ascii ''complete'') ?cn ?sn) (\<lambda>(m, r). case r of
        Ok Complete \<Rightarrow> Some (on_auth (\<lambda>a. a\<lparr> authenticated := True \<rparr>) m, Ok (drive\<lparr> authenticated_now := True \<rparr>))
      | Ok Blocked \<Rightarrow> Some (on_auth (\<lambda>a. a\<lparr> authenticate_after_flush := True \<rparr>) m, Ok drive)
      | Ok Failed \<Rightarrow> Some (m, Ok (drive\<lparr> lost := True \<rparr>))
      | Err e \<Rightarrow> Some (m, Err e)
      | Panic \<Rightarrow> Some (m, Panic)))"
      using not_u by (intro confirm) blast
  qed (use l g d not_u complete in auto)
qed

lemma auth_good_connection: "auth_good u content q ex ds m \<Longrightarrow> q_exporter q c = q_exporter q (mc_connection m) \<Longrightarrow>
  auth_good u content q ex ds (m\<lparr> mc_connection := c \<rparr>)"
  by (simp add: auth_good_def auth_exporter_def)

lemma read_failed_run: "auth_good u content q ex ds m \<Longrightarrow> drive_good u d \<Longrightarrow> auth_run u content q ex ds (read_failed m d)"
  by (simp add: read_failed_def auth_good_not_now)

lemma drain_auth_stream_run:
  assumes q: "quinn_ok q" and g: "auth_good u content q ex ds m" and d: "drive_good u drive"
    and p: "u \<longrightarrow> no_proof q key role ex content"
  shows "auth_run u content q ex ds (drain_auth_stream q role key m random drive)"
proof (cases "auth_stream (mc_auth m)")
  case None
  then show ?thesis using g d by (simp add: drain_auth_stream_def)
next
  case (Some stream)
  obtain c r where r: "q_read q (mc_connection m) stream = (c, r)" by (cases "q_read q (mc_connection m) stream")
  have "q_exporter q c = q_exporter q (mc_connection m)" using q r unfolding quinn_ok_def by (metis fst_conv)
  then have g': "auth_good u content q ex ds (m\<lparr> mc_connection := c \<rparr>)" by (rule auth_good_connection [OF g])
  show ?thesis
  proof (cases "\<exists>chunks. r = Some (chunks, False)")
    case False
    then show ?thesis
      using r Some g' d by (cases r) (auto simp: drain_auth_stream_def read_failed_run)
  next
    case True
    then obtain chunks where c: "r = Some (chunks, False)" by blast
    let ?received = "auth_receive (mc_auth m) @ concat chunks"
    have content: "content ?received \<and> content []" if u
      using that p g r c by (auto simp: no_proof_def auth_good_def)
    have set: "auth_good u content q ex ds (on_auth (\<lambda>a. a\<lparr> auth_receive := x \<rparr>) (m\<lparr> mc_connection := c \<rparr>))"
      if "u \<longrightarrow> content x" for x
      using g' that by (simp add: auth_good_def on_auth_def auth_exporter_def)
    have "auth_run u content q ex ds (handle_auth_frame q role key (on_auth (\<lambda>a. a\<lparr> auth_receive := [] \<rparr>) (m\<lparr> mc_connection := c \<rparr>)) ?received random drive)"
      if "length ?received = 65"
      by (rule handle_auth_frame_run [OF q set d that]) (use content p in \<open>auto simp: no_proof_def\<close>)
    then show ?thesis
      using Some r c d set [of ?received] content
      by (auto simp: drain_auth_stream_def on_auth_def AUTH_FRAME_LEN_def Let_def)
  qed
qed

lemma auth_good_stream: "auth_good u content q ex ds m \<Longrightarrow> auth_good u content q ex ds (on_auth (\<lambda>a. a\<lparr> auth_stream := s \<rparr>) m)"
  by (simp add: auth_good_def on_auth_def auth_exporter_def)

lemma accept_streams_run:
  assumes q: "quinn_ok q" and p: "u \<longrightarrow> no_proof q key role ex content"
  shows "auth_good u content q ex ds m \<Longrightarrow> drive_good u drive \<Longrightarrow>
    auth_run u content q ex ds (accept_streams q role key m random drive streams)"
proof (induction streams arbitrary: m drive)
  case (Cons stream streams)
  show ?case
  proof (cases "auth_stream (mc_auth m) = None")
    case True
    then show ?thesis
      using Cons by (simp add: auth_run_bind [OF drain_auth_stream_run [OF q auth_good_stream [OF Cons.prems(1)] Cons.prems(2) p]])
  next
    case False
    then show ?thesis using Cons by auto
  qed
qed simp

lemma after_flush_run:
  assumes "auth_good u content q ex ds m" and "drive_good u drive"
  shows "auth_run u content q ex ds (Some (after_flush m drive (Ok r)))"
  using assms by (cases r) (auto simp: after_flush_def auth_good_def on_auth_def auth_exporter_def)

lemma handle_stream_event_run:
  assumes q: "quinn_ok q" and p: "u \<longrightarrow> no_proof q key role ex content"
    and g: "auth_good u content q ex ds m" and d: "drive_good u drive"
  shows "auth_run u content q ex ds (handle_stream_event q role key m event random drive)"
proof (cases event)
  case (Writable i)
  obtain m' r where "flush_auth_stream q m = Some (m', Ok r)" "auth_good u content q ex ds m'"
    by (rule flush_auth_stream_run [OF q g])
  then show ?thesis using Writable g d by (simp add: handle_stream_event_def after_flush_run)
qed (use accept_streams_run [OF q p g d] drain_auth_stream_run [OF q g d p] g d in \<open>auto simp: handle_stream_event_def\<close>)

lemma start_client_authentication_run:
  assumes q: "quinn_ok q" and g: "auth_good u content q ex ds m"
  obtains m' b where "start_client_authentication q key m nonce = Some (m', Ok b)" "auth_good u content q ex ds m'"
proof -
  obtain c r where r: "q_open q (mc_connection m) = (c, r)" by (cases "q_open q (mc_connection m)")
  have "q_exporter q c = q_exporter q (mc_connection m)" using q r unfolding quinn_ok_def by (metis fst_conv)
  then have g': "auth_good u content q ex ds (m\<lparr> mc_connection := c \<rparr>)" by (rule auth_good_connection [OF g])
  show ?thesis
  proof (cases r)
    case None
    then show ?thesis using that [of "m\<lparr> mc_connection := c \<rparr>" False] g' r by (simp add: start_client_authentication_def)
  next
    case (Some stream)
    let ?m = "on_auth (\<lambda>a. a\<lparr> auth_stream := Some stream, client_nonce := Some nonce \<rparr>) (m\<lparr> mc_connection := c \<rparr>)"
    have "auth_good u content q ex ds ?m" using g' by (simp add: auth_good_def on_auth_def auth_exporter_def)
    then obtain m' o' where "queue_auth_frame q key ?m AUTH_REQUEST (ascii ''client'') nonce EMPTY_NONCE = Some (m', Ok o')"
      "auth_good u content q ex ds m'" by (rule queue_auth_frame_run [OF q])
    then show ?thesis using that [of m'] r Some by (simp add: start_client_authentication_def)
  qed
qed

lemma poll_events_run:
  assumes q: "quinn_ok q"
  shows "auth_good u content q ex ds m \<Longrightarrow> drive_good u drive \<Longrightarrow> auth_run u content q ex ds (poll_events q role key m drive events)"
proof (induction events arbitrary: m drive)
  case (Cons event events)
  show ?case
  proof (cases event)
    case (Connected nonce)
    obtain m' b where "start_client_authentication q key m nonce = Some (m', Ok b)" "auth_good u content q ex ds m'"
      by (rule start_client_authentication_run [OF q Cons.prems(1)])
    then show ?thesis using Connected Cons by auto
  qed (use Cons in simp_all)
qed simp

lemma handle_stream_events_run:
  assumes q: "quinn_ok q" and p: "u \<longrightarrow> no_proof q key role ex content"
  shows "auth_good u content q ex ds m \<Longrightarrow> drive_good u drive \<Longrightarrow>
    auth_run u content q ex ds (handle_stream_events q role key m drive events)"
proof (induction events arbitrary: m drive)
  case (Cons event events)
  obtain e random where e: "event = (e, random)" by (cases event)
  show ?case
    unfolding e handle_stream_events.simps
    by (rule auth_run_bind [OF handle_stream_event_run [OF q p Cons.prems]]) (simp add: Cons.IH)
qed simp

lemma check_retired_run:
  "auth_good u content q ex ds m \<Longrightarrow> drive_good u drive \<Longrightarrow> check_retired w retired m drive = (m', d) \<Longrightarrow>
   auth_good u content q ex ds m' \<and> drive_good u d"
  by (auto simp: check_retired_def auth_good_def auth_exporter_def split: if_splits)

lemma finish_connection_drive_run:
  assumes q: "quinn_ok q" and g: "auth_good u content q ex ds m" and d: "drive_good u drive"
  shows "auth_run u content q ex ds (Some (finish_connection_drive q now m drive))"
proof -
  obtain c es where c: "q_endpoint_events q (mc_connection m) = (c, es)" by (cases "q_endpoint_events q (mc_connection m)")
  obtain c' ts where c': "q_transmits q c now = (c', ts)" by (cases "q_transmits q c now")
  have "q_exporter q c' = q_exporter q (mc_connection m)"
    using q c c' unfolding quinn_ok_def by (metis fst_conv)
  then show ?thesis using auth_good_connection [OF g] c c' d by (simp add: finish_connection_drive_def)
qed

lemma drive_connection_run:
  assumes q: "quinn_ok q" and p: "u \<longrightarrow> no_proof q key role ex content" and g: "auth_good u content q ex ds m"
  shows "auth_run u content q ex ds (drive_connection q role key now m events retired)"
proof -
  let ?m = "case q_poll_timeout q (mc_connection m) of
      Some deadline \<Rightarrow> if deadline \<le> now then m\<lparr> mc_connection := q_handle_timeout q (mc_connection m) now \<rparr> else m
    | None \<Rightarrow> m"
  have m: "auth_good u content q ex ds ?m"
    using g q by (auto simp: quinn_ok_def intro: auth_good_connection split: option.split)
  have "auth_run u content q ex ds (Option.bind (flush_auth_stream q m) (\<lambda>(m, r).
      case after_flush m d r of
        (m, Ok drive) \<Rightarrow> (case check_retired w retired m drive of (m, drive) \<Rightarrow> Some (finish_connection_drive q now m drive))
      | (m, r) \<Rightarrow> Some (m, r)))"
    if g: "auth_good u content q ex ds m" and d: "drive_good u d" for m d w
  proof (rule flush_auth_stream_run [OF q g])
    fix m' r assume r: "flush_auth_stream q m = Some (m', Ok r)" and g': "auth_good u content q ex ds m'"
    obtain m'' d' where a: "after_flush m' d (Ok r) = (m'', Ok d')" "auth_good u content q ex ds m''" "drive_good u d'"
      using after_flush_run [OF g' d, of r] by (auto simp: auth_run_def)
    obtain m3 d3 where c: "check_retired w retired m'' d' = (m3, d3)" by (cases "check_retired w retired m'' d'")
    show ?thesis using r a c check_retired_run [OF a(2,3) c] finish_connection_drive_run [OF q] by simp
  qed
  note last = this
  show ?thesis
    unfolding drive_connection_def Let_def
    by (rule auth_run_bind [OF poll_events_run [OF q m]], simp add: drive_good_def default_drive_def, simp only: result.case,
        rule auth_run_bind [OF handle_stream_events_run [OF q p]], assumption+, simp only: result.case,
        rule auth_run_if, rule finish_connection_drive_run [OF q], assumption+, rule last)
qed

section \<open>Turns of a connection\<close>

fun drive_turns ::
  "'c quinn \<Rightarrow> quic_role \<Rightarrow> bytes \<Rightarrow> 'c managed_connection \<Rightarrow> (instant \<times> connection_event list \<times> u64) list \<Rightarrow>
   ('c managed_connection \<times> connection_drive list) option" where
  "drive_turns q role key m [] = Some (m, [])"
| "drive_turns q role key m ((now, events, retired) # turns) =
    Option.bind (drive_connection q role key now m events retired) (\<lambda>(m, r).
      case r of Ok drive \<Rightarrow> map_option (apsnd ((#) drive)) (drive_turns q role key m turns) | _ \<Rightarrow> None)"

lemma drive_turns_run:
  assumes q: "quinn_ok q" and p: "u \<longrightarrow> no_proof q key role ex content"
  shows "auth_good u content q ex ds m \<Longrightarrow> \<exists>m' drives. drive_turns q role key m turns = Some (m', drives) \<and>
    auth_good u content q ex ds m' \<and> length drives = length turns \<and> (\<forall>d\<in>set drives. drive_good u d)"
proof (induction turns arbitrary: m)
  case (Cons turn turns)
  obtain now events retired where t: "turn = (now, events, retired)" by (cases turn)
  obtain m1 d where d: "drive_connection q role key now m events retired = Some (m1, Ok d)" "auth_good u content q ex ds m1" "drive_good u d"
    using drive_connection_run [OF q p Cons.prems, of now events retired] by (auto simp: auth_run_def)
  show ?case using Cons.IH [OF d(2)] d by (auto simp: t)
qed simp

lemma new_managed_good:
  "content [] \<Longrightarrow> auth_good u content q (q_exporter q c) (ident (new_managed handle c now)) (new_managed handle c now)"
  by (simp add: auth_good_def new_managed_def default_auth_def tx_ok_def auth_exporter_def)

section \<open>Properties\<close>

text \<open>A connection that never blocks and whose peer only ever sends zeros.\<close>

definition zero_peer :: "nat quinn" where
  "zero_peer = \<lparr> q_write = (\<lambda>c s bs. (c + 1, Written (length bs))), q_read = (\<lambda>c s. (c + 1, Some ([replicate 65 0], False))),
     q_open = (\<lambda>c. (c + 1, Some 0)), q_exporter = (\<lambda>_. Some (replicate 32 7)), q_poll_timeout = (\<lambda>_. None),
     q_handle_timeout = (\<lambda>c _. c), q_endpoint_events = (\<lambda>c. (c, [])), q_transmits = (\<lambda>c _. (c, [])),
     q_hmac = (\<lambda>key message. replicate 32 1) \<rparr>"

lemma zero_peer_ok: "quinn_ok zero_peer"
  by (auto simp: quinn_ok_def zero_peer_def)

text \<open>
  C40: Whatever a connection's stream and the peer do, every turn of a new connection ends and
  gives a result: writing a frame cannot loop, and the parts of a frame are never out of range.
\<close>

theorem connection_turns_end:
  assumes "quinn_ok q"
  shows "\<exists>m drives. drive_turns q role key (new_managed handle c now) turns = Some (m, drives) \<and> length drives = length turns"
proof -
  have "auth_good False (\<lambda>_. True) q (q_exporter q c) (ident (new_managed handle c now)) (new_managed handle c now)" by (rule new_managed_good) simp
  from drive_turns_run [OF assms _ this, of key role turns] show ?thesis by auto
qed

theorem connection_turns_end_witness:
  "\<exists>m drives. drive_turns zero_peer QuicServer [1] (new_managed 0 0 0) [(5, [Stream (OpenedBi [0]) []], 0), (6, [], 0)] = Some (m, drives) \<and>
     length drives = length [(5 :: instant, [Stream (OpenedBi [0]) []], 0 :: u64), (6, [], 0)]"
  by (rule connection_turns_end [OF zero_peer_ok])

text \<open>
  C22: A peer that cannot produce the proof a side waits for is never authenticated: whatever
  the turns of a new connection and the events in them, the connection is not authenticated
  after them and no turn reported that it became so.
\<close>

theorem unproved_peer_unauthenticated:
  assumes "quinn_ok q" and "no_proof q key role (q_exporter q c) content"
  shows "\<exists>m drives. drive_turns q role key (new_managed handle c now) turns = Some (m, drives) \<and>
    \<not> authenticated (mc_auth m) \<and> (\<forall>d\<in>set drives. \<not> authenticated_now d)"
proof -
  have "auth_good True content q (q_exporter q c) (ident (new_managed handle c now)) (new_managed handle c now)"
    by (rule new_managed_good) (use assms(2) in \<open>simp add: no_proof_def\<close>)
  from drive_turns_run [OF assms(1) _ this, of key role turns] assms(2) obtain m drives where "drive_turns q role key (new_managed handle c now) turns = Some (m, drives)"
    "auth_good True content q (q_exporter q c) (ident (new_managed handle c now)) m" "\<forall>d\<in>set drives. drive_good True d" by auto
  then show ?thesis by (auto simp: auth_good_def drive_good_def)
qed

lemma zero_peer_no_proof: "no_proof zero_peer key role ex (\<lambda>bs. \<forall>b\<in>set bs. b = 0)"
  by (auto simp: no_proof_def zero_peer_def proof_frame_def auth_frame_def split: if_splits)

theorem unproved_peer_unauthenticated_witness:
  "\<exists>m drives. drive_turns zero_peer QuicServer [1] (new_managed 0 0 0) [(5, [Stream (OpenedBi [0]) []], 0)] = Some (m, drives) \<and>
     \<not> authenticated (mc_auth m) \<and> (\<forall>d\<in>set drives. \<not> authenticated_now d)"
  by (rule unproved_peer_unauthenticated [OF zero_peer_ok zero_peer_no_proof])

section \<open>The handshake\<close>

text \<open>A connection that opens a stream and accepts everything written; \<open>sent\<close> is what was written so far.\<close>

definition reliable :: "'c quinn \<Rightarrow> ('c \<Rightarrow> bytes) \<Rightarrow> bool" where
  "reliable q sent \<longleftrightarrow>
    (\<forall>c s bs. snd (q_write q c s bs) = Written (length bs) \<and> sent (fst (q_write q c s bs)) = sent c @ bs) \<and>
    (\<forall>c. snd (q_open q c) \<noteq> None \<and> sent (fst (q_open q c)) = sent c)"

text \<open>The octets a step of a side sends.\<close>

definition wire :: "('c \<Rightarrow> bytes) \<Rightarrow> 'c managed_connection \<Rightarrow> 'c managed_connection \<Rightarrow> bytes" where
  "wire sent m m' = drop (length (sent (mc_connection m))) (sent (mc_connection m'))"

text \<open>Nothing waits to be written on the stream \<open>s\<close>, and \<open>e\<close> is the keying material.\<close>

definition idle :: "'c quinn \<Rightarrow> nat \<Rightarrow> bytes \<Rightarrow> 'c managed_connection \<Rightarrow> bool" where
  "idle q s e m \<longleftrightarrow> auth_stream (mc_auth m) = Some s \<and> auth_transmit (mc_auth m) = [] \<and> transmit_offset (mc_auth m) = 0 \<and>
    q_exporter q (mc_connection m) = Some e"

lemma queue_sends:
  assumes r: "reliable q sent" and i: "idle q s e m"
  shows "queue_auth_frame q key m kind label cn sn =
    Some (m\<lparr> mc_connection := fst (q_write q (mc_connection m) s (auth_frame q key kind label cn sn e)) \<rparr>, Ok Complete)"
proof -
  let ?f = "auth_frame q key kind label cn sn e"
  obtain c where c: "q_write q (mc_connection m) s ?f = (c, Written (length ?f))"
    using r unfolding reliable_def by (metis prod.collapse)
  have "mc_auth m\<lparr> auth_transmit := [], transmit_offset := 0 \<rparr> = mc_auth m"
    using i by (cases "mc_auth m") (simp add: idle_def)
  then show ?thesis
    using i c
    by (simp add: idle_def queue_auth_frame_def flush_auth_stream_def on_auth_def auth_exporter_def flush_loop.simps)
qed

lemma auth_frame_fields:
  assumes "length cn = 16" and "length sn = 16" and "\<And>k x. length (q_hmac q k x) = 32"
  shows "length (auth_frame q key kind label cn sn e) = 65" "auth_frame q key kind label cn sn e ! 0 = kind"
    "take 16 (drop 1 (auth_frame q key kind label cn sn e)) = cn" "take 16 (drop 17 (auth_frame q key kind label cn sn e)) = sn"
    "drop 33 (auth_frame q key kind label cn sn e) = auth_mac q key label cn sn e"
  using assms by (simp_all add: auth_frame_def auth_mac_def numeral_eq_Suc)

text \<open>What each frame does to a side that is waiting for it.\<close>

lemma handshake_steps:
  assumes r: "reliable q sent" and hmac: "\<And>k x. length (q_hmac q k x) = 32" and n: "length cn = 16" "length sn = 16"
    and i: "idle q s e m"
  shows "handle_auth_frame q QuicServer key m (auth_frame q key 1 (ascii ''client'') cn EMPTY_NONCE e) sn d =
      Some (m\<lparr> mc_connection := fst (q_write q (mc_connection m) s (auth_frame q key 2 (ascii ''server'') cn sn e)),
        mc_auth := mc_auth m\<lparr> client_nonce := Some cn, server_nonce := Some sn \<rparr> \<rparr>, Ok d)"
    and "client_nonce (mc_auth m) = Some cn \<Longrightarrow> sn \<noteq> EMPTY_NONCE \<Longrightarrow>
      handle_auth_frame q QuicClient key m (auth_frame q key 2 (ascii ''server'') cn sn e) x d =
      Some (m\<lparr> mc_connection := fst (q_write q (mc_connection m) s (auth_frame q key 3 (ascii ''confirm'') cn sn e)),
        mc_auth := mc_auth m\<lparr> server_nonce := Some sn \<rparr> \<rparr>, Ok d)"
    and "client_nonce (mc_auth m) = Some cn \<Longrightarrow> server_nonce (mc_auth m) = Some sn \<Longrightarrow>
      handle_auth_frame q QuicServer key m (auth_frame q key 3 (ascii ''confirm'') cn sn e) x d =
      Some (m\<lparr> mc_connection := fst (q_write q (mc_connection m) s (auth_frame q key 4 (ascii ''complete'') cn sn e)),
        mc_auth := mc_auth m\<lparr> authenticated := True \<rparr> \<rparr>, Ok (d\<lparr> authenticated_now := True \<rparr>))"
    and "client_nonce (mc_auth m) = Some cn \<Longrightarrow> server_nonce (mc_auth m) = Some sn \<Longrightarrow>
      handle_auth_frame q QuicClient key m (auth_frame q key 4 (ascii ''complete'') cn sn e) x d =
      Some (m\<lparr> mc_auth := mc_auth m\<lparr> client_nonce := Some cn, server_nonce := Some sn, authenticated := True \<rparr> \<rparr>,
        Ok (d\<lparr> authenticated_now := True \<rparr>))"
proof -
  have e: "auth_exporter q m = Some e" using i by (simp add: idle_def auth_exporter_def)
  have z: "length EMPTY_NONCE = 16" by (simp add: EMPTY_NONCE_def)
  have q: "idle q s e (on_auth (\<lambda>a. a\<lparr> client_nonce := Some cn, server_nonce := Some sn \<rparr>) m)"
    "idle q s e (on_auth (\<lambda>a. a\<lparr> server_nonce := Some sn \<rparr>) m)"
    using i by (simp_all add: idle_def on_auth_def)
  note sends = queue_sends [OF r q(1)] queue_sends [OF r q(2)] queue_sends [OF r i]
  note fields = auth_frame_fields [OF n(1) z hmac] auth_frame_fields [OF n hmac]
  note step = handle_auth_frame_def Let_def fields e queue_or_lose_def sends
  show "handle_auth_frame q QuicServer key m (auth_frame q key 1 (ascii ''client'') cn EMPTY_NONCE e) sn d =
      Some (m\<lparr> mc_connection := fst (q_write q (mc_connection m) s (auth_frame q key 2 (ascii ''server'') cn sn e)),
        mc_auth := mc_auth m\<lparr> client_nonce := Some cn, server_nonce := Some sn \<rparr> \<rparr>, Ok d)"
    by (simp add: step del: One_nat_def) (simp add: on_auth_def)
  show "client_nonce (mc_auth m) = Some cn \<Longrightarrow> sn \<noteq> EMPTY_NONCE \<Longrightarrow>
      handle_auth_frame q QuicClient key m (auth_frame q key 2 (ascii ''server'') cn sn e) x d =
      Some (m\<lparr> mc_connection := fst (q_write q (mc_connection m) s (auth_frame q key 3 (ascii ''confirm'') cn sn e)),
        mc_auth := mc_auth m\<lparr> server_nonce := Some sn \<rparr> \<rparr>, Ok d)"
    by (simp add: step del: One_nat_def) (simp add: on_auth_def)
  show "client_nonce (mc_auth m) = Some cn \<Longrightarrow> server_nonce (mc_auth m) = Some sn \<Longrightarrow>
      handle_auth_frame q QuicServer key m (auth_frame q key 3 (ascii ''confirm'') cn sn e) x d =
      Some (m\<lparr> mc_connection := fst (q_write q (mc_connection m) s (auth_frame q key 4 (ascii ''complete'') cn sn e)),
        mc_auth := mc_auth m\<lparr> authenticated := True \<rparr> \<rparr>, Ok (d\<lparr> authenticated_now := True \<rparr>))"
    by (simp add: step del: One_nat_def) (simp add: on_auth_def)
  show "client_nonce (mc_auth m) = Some cn \<Longrightarrow> server_nonce (mc_auth m) = Some sn \<Longrightarrow>
      handle_auth_frame q QuicClient key m (auth_frame q key 4 (ascii ''complete'') cn sn e) x d =
      Some (m\<lparr> mc_auth := mc_auth m\<lparr> client_nonce := Some cn, server_nonce := Some sn, authenticated := True \<rparr> \<rparr>,
        Ok (d\<lparr> authenticated_now := True \<rparr>))"
    by (simp add: step del: One_nat_def) (simp add: on_auth_def)
qed

text \<open>
  C23: Two sides with the same key authenticate each other.  When the stream accepts what is
  written and each side is handed the frame the other sent, the request, the response, the
  confirmation and the completion are accepted in turn, both sides end authenticated with the
  same nonces, and no step gives the connection up.
\<close>

theorem handshake_completes:
  assumes q: "quinn_ok q" and r: "reliable q sent" and hmac: "\<And>k x. length (q_hmac q k x) = 32"
    and e: "q_exporter q cc = Some e" "q_exporter q cs = Some e"
    and n: "length cn = 16" "length sn = 16" "sn \<noteq> EMPTY_NONCE"
    and client: "client = new_managed hc cc now"
    and server: "server = on_auth (\<lambda>a. a\<lparr> auth_stream := Some stream \<rparr>) (new_managed hs cs now')"
  shows "\<exists>client1 server1 client2 server2 client3.
    start_client_authentication q key client cn = Some (client1, Ok True) \<and>
    handle_auth_frame q QuicServer key server (wire sent client client1) sn default_drive = Some (server1, Ok default_drive) \<and>
    handle_auth_frame q QuicClient key client1 (wire sent server server1) rc default_drive = Some (client2, Ok default_drive) \<and>
    handle_auth_frame q QuicServer key server1 (wire sent client1 client2) rs default_drive =
      Some (server2, Ok (default_drive\<lparr> authenticated_now := True \<rparr>)) \<and>
    handle_auth_frame q QuicClient key client2 (wire sent server1 server2) rc default_drive =
      Some (client3, Ok (default_drive\<lparr> authenticated_now := True \<rparr>)) \<and>
    authenticated (mc_auth server2) \<and> authenticated (mc_auth client3) \<and>
    client_nonce (mc_auth server2) = Some cn \<and> client_nonce (mc_auth client3) = Some cn \<and>
    server_nonce (mc_auth server2) = Some sn \<and> server_nonce (mc_auth client3) = Some sn"
proof -
  obtain c0 s0 where o0: "q_open q cc = (c0, Some s0)" "sent c0 = sent cc"
    using r unfolding reliable_def by (metis not_Some_eq prod.collapse)
  have e0: "q_exporter q c0 = Some e" using q o0(1) e(1) unfolding quinn_ok_def by (metis fst_conv)
  have w: "q_exporter q (fst (q_write q c s bs)) = q_exporter q c" "sent (fst (q_write q c s bs)) = sent c @ bs" for c s bs
    using q r by (simp_all add: quinn_ok_def reliable_def)
  note start = start_client_authentication_def client server new_managed_def default_auth_def on_auth_def
  show ?thesis
    by (simp add: start o0 e0 e w queue_sends [OF r] handshake_steps [OF r hmac n(1,2)] idle_def n wire_def)
qed

text \<open>A connection that keeps what is written, and a keyed function in place of the HMAC.\<close>

definition log_peer :: "bytes quinn" where
  "log_peer = \<lparr> q_write = (\<lambda>c s bs. (c @ bs, Written (length bs))), q_read = (\<lambda>c s. (c, None)), q_open = (\<lambda>c. (c, Some 0)),
     q_exporter = (\<lambda>_. Some (replicate 32 7)), q_poll_timeout = (\<lambda>_. None), q_handle_timeout = (\<lambda>c _. c),
     q_endpoint_events = (\<lambda>c. (c, [])), q_transmits = (\<lambda>c _. (c, [])),
     q_hmac = (\<lambda>key message. replicate 32 (sum_list key + sum_list message)) \<rparr>"

theorem handshake_completes_witness:
  "\<exists>client1 server1 client2 server2 client3.
    start_client_authentication log_peer [5] (new_managed 0 [] 0) (replicate 16 1) = Some (client1, Ok True) \<and>
    handle_auth_frame log_peer QuicServer [5] (on_auth (\<lambda>a. a\<lparr> auth_stream := Some 0 \<rparr>) (new_managed 1 [] 0))
      (wire id (new_managed 0 [] 0) client1) (replicate 16 2) default_drive = Some (server1, Ok default_drive) \<and>
    handle_auth_frame log_peer QuicClient [5] client1
      (wire id (on_auth (\<lambda>a. a\<lparr> auth_stream := Some 0 \<rparr>) (new_managed 1 [] 0)) server1) [] default_drive = Some (client2, Ok default_drive) \<and>
    handle_auth_frame log_peer QuicServer [5] server1 (wire id client1 client2) [] default_drive =
      Some (server2, Ok (default_drive\<lparr> authenticated_now := True \<rparr>)) \<and>
    handle_auth_frame log_peer QuicClient [5] client2 (wire id server1 server2) [] default_drive =
      Some (client3, Ok (default_drive\<lparr> authenticated_now := True \<rparr>)) \<and>
    authenticated (mc_auth server2) \<and> authenticated (mc_auth client3) \<and>
    client_nonce (mc_auth server2) = Some (replicate 16 1) \<and> client_nonce (mc_auth client3) = Some (replicate 16 1) \<and>
    server_nonce (mc_auth server2) = Some (replicate 16 2) \<and> server_nonce (mc_auth client3) = Some (replicate 16 2)"
  by (rule handshake_completes [where e = "replicate 32 7"])
    (auto simp: quinn_ok_def reliable_def log_peer_def EMPTY_NONCE_def replicate_eq_replicate)

end
