(* ===== verification/Quic_Inner.thy ===== *)
theory Quic_Inner
  imports Quic_Auth Chunks
begin

text \<open>
  Inner packets in the datagrams of a tunnel connection (\<open>quic_engine.rs\<close>): how a packet that does not
  fit a datagram is cut into fragments and put together again.  The fields of \<open>QuicEngine\<close> this
  needs are the record \<open>inner_state\<close>, which the engine extends.
\<close>

section \<open>Model\<close>

definition INNER_PACKET :: u8 where "INNER_PACKET = 16"
definition INNER_FRAGMENT :: u8 where "INNER_FRAGMENT = 17"
definition INNER_FRAGMENT_HEADER_LEN :: nat where [simp]: "INNER_FRAGMENT_HEADER_LEN = 13"
definition MAX_INNER_PACKET_LEN :: nat where [simp]: "MAX_INNER_PACKET_LEN = 65535"
definition MAX_REASSEMBLY_BYTES :: nat where "MAX_REASSEMBLY_BYTES = 1024 * 1024"
definition MAX_REASSEMBLY_ENTRIES :: nat where "MAX_REASSEMBLY_ENTRIES = 4096"
definition REASSEMBLY_TIMEOUT :: duration where "REASSEMBLY_TIMEOUT = from_secs 5"

datatype quic_engine_event =
    Transmit outer_transmit
  | Authenticated
  | InnerPacket bytes
  | DcidStaged dcid
  | DcidPublished dcid
  | DcidRetired dcid
  | Replaced "dcid list"
  | Closed

record inner_reassembly =
  created_at :: instant
  re_packet :: bytes
  re_received :: "bool list"
  received_count :: nat

record inner_state =
  next_inner_packet_id :: u64
  reassembly :: "(u64, inner_reassembly) alist"
  reassembly_bytes :: nat
  engine_events :: "quic_engine_event list"

subsection \<open>Sending\<close>

definition fragment_wire :: "u64 \<Rightarrow> bytes \<Rightarrow> nat \<Rightarrow> nat \<Rightarrow> bytes" where
  "fragment_wire packet_id packet width offset =
    INNER_FRAGMENT # to_be_bytes 8 packet_id @ to_be_bytes 2 (word_of_nat (length packet) :: u16) @
      to_be_bytes 2 (word_of_nat offset :: u16) @ piece packet width offset"

definition fragments :: "u64 \<Rightarrow> bytes \<Rightarrow> nat \<Rightarrow> bytes list" where
  "fragments packet_id packet width = map (fragment_wire packet_id packet width) (step_by (length packet) width)"

subsection \<open>Receiving\<close>

text \<open>Storing the octets of a fragment from a position on.\<close>

fun store :: "inner_reassembly \<Rightarrow> nat \<Rightarrow> bytes \<Rightarrow> (inner_reassembly, unit) result" where
  "store r position [] = Ok r"
| "store r position (byte # rest) =
    (if length (re_received r) \<le> position \<or> length (re_packet r) \<le> position then Panic
     else
       let r = (if re_received r ! position then r
                else r\<lparr> re_received := (re_received r)[position := True], received_count := received_count r + 1 \<rparr>)
       in store (r\<lparr> re_packet := (re_packet r)[position := byte] \<rparr>) (position + 1) rest)"

definition new_reassembly :: "instant \<Rightarrow> nat \<Rightarrow> inner_reassembly" where
  "new_reassembly now total_len =
    \<lparr> created_at = now, re_packet = replicate total_len 0, re_received = replicate total_len False, received_count = 0 \<rparr>"

definition finish_fragment ::
  "'a inner_state_scheme \<Rightarrow> u64 \<Rightarrow> inner_reassembly \<Rightarrow> nat \<Rightarrow> 'a inner_state_scheme \<times> (unit, unit) result" where
  "finish_fragment s packet_id r total_len =
    (if received_count r = total_len then
       let s = s\<lparr> reassembly := hm_remove packet_id (reassembly s) \<rparr> in
       case csub (reassembly_bytes s) (length (re_packet r)) of
         Ok n \<Rightarrow> (s\<lparr> reassembly_bytes := n, engine_events := engine_events s @ [InnerPacket (re_packet r)] \<rparr>, Ok ())
       | Err e \<Rightarrow> (s, Err e)
       | Panic \<Rightarrow> (s, Panic)
     else (s, Ok ()))"

definition insert_fragment ::
  "'a inner_state_scheme \<Rightarrow> instant \<Rightarrow> u64 \<Rightarrow> nat \<Rightarrow> nat \<Rightarrow> bytes \<Rightarrow> 'a inner_state_scheme \<times> (unit, unit) result" where
  "insert_fragment s now packet_id total_len offset fragment =
    (if \<not> hm_has (reassembly s) packet_id \<and>
       (MAX_REASSEMBLY_ENTRIES \<le> hm_len (reassembly s) \<or> MAX_REASSEMBLY_BYTES < reassembly_bytes s + total_len)
     then (s, Ok ())
     else
       let s = (if hm_has (reassembly s) packet_id then s
                else s\<lparr> reassembly := hm_insert packet_id (new_reassembly now total_len) (reassembly s),
                       reassembly_bytes := reassembly_bytes s + total_len \<rparr>)
       in
       case hm_get (reassembly s) packet_id of
         None \<Rightarrow> (s, Ok ())
       | Some r \<Rightarrow>
           if length (re_packet r) \<noteq> total_len then (s, Ok ())
           else
             case store r offset fragment of
               Ok r \<Rightarrow> finish_fragment (s\<lparr> reassembly := hm_insert packet_id r (reassembly s) \<rparr>) packet_id r total_len
             | Err e \<Rightarrow> (s, Err e)
             | Panic \<Rightarrow> (s, Panic))"

definition handle_inner_fragment ::
  "'a inner_state_scheme \<Rightarrow> instant \<Rightarrow> bytes \<Rightarrow> 'a inner_state_scheme \<times> (unit, unit) result" where
  "handle_inner_fragment s now payload =
    (if length payload < INNER_FRAGMENT_HEADER_LEN then (s, Ok ())
     else
       let packet_id = from_be_bytes (take 8 payload);
           total_len = unat (from_be_bytes (take 2 (drop 8 payload)) :: u16);
           offset = unat (from_be_bytes (take 2 (drop 10 payload)) :: u16);
           fragment = drop 12 payload;
           end_pos = offset + length fragment
       in
       if total_len = 0 \<or> MAX_INNER_PACKET_LEN < total_len \<or> total_len \<le> offset \<or> total_len < end_pos then (s, Ok ())
       else insert_fragment s now packet_id total_len offset fragment)"

definition prune_reassembly :: "'a inner_state_scheme \<Rightarrow> instant \<Rightarrow> 'a inner_state_scheme" where
  "prune_reassembly s now =
    (let kept = hm_retain (\<lambda>_ entry. now - created_at entry < REASSEMBLY_TIMEOUT) (reassembly s) in
     s\<lparr> reassembly := kept, reassembly_bytes := sum_list (map (\<lambda>entry. length (re_packet entry)) (hm_vals kept)) \<rparr>)"

definition clear_reassembly :: "'a inner_state_scheme \<Rightarrow> 'a inner_state_scheme" where
  "clear_reassembly s = s\<lparr> reassembly := hm_empty, reassembly_bytes := 0 \<rparr>"

section \<open>Bounds of the table\<close>

definition total_bytes :: "(u64, inner_reassembly) alist \<Rightarrow> nat" where
  "total_bytes m = (\<Sum>k\<in>dom (hm_get m). length (re_packet (the (hm_get m k))))"

lemma sum_hm_vals: "sum_list (map f (hm_vals m)) = (\<Sum>k\<in>dom (hm_get m). f (the (hm_get m k)))"
proof -
  have "sum_list (map f (hm_vals m)) = sum_list (map (\<lambda>k. f (the (hm_get m k))) (hm_keys m))"
    unfolding hm_vals_def hm_keys_def by (auto simp: hm_entries_iff intro!: arg_cong [where f = sum_list])
  then show ?thesis by (simp add: sum_list_distinct_conv_sum_set dom_hm_get)
qed

lemma total_bytes_insert:
  "total_bytes (hm_insert k r m) =
    (case hm_get m k of Some r' \<Rightarrow> total_bytes m - length (re_packet r') | None \<Rightarrow> total_bytes m) + length (re_packet r)"
proof -
  have "total_bytes (hm_insert k r m) = length (re_packet r) + (\<Sum>j\<in>dom (hm_get m) - {k}. length (re_packet (the (hm_get m j))))"
    unfolding total_bytes_def dom_hm_insert by (simp add: sum.insert_remove map_simps)
  then show ?thesis
    by (cases "hm_get m k") (auto simp: total_bytes_def sum_diff1_nat domIff)
qed

lemma total_bytes_remove:
  "total_bytes (hm_remove k m) = (case hm_get m k of Some r \<Rightarrow> total_bytes m - length (re_packet r) | None \<Rightarrow> total_bytes m)"
proof -
  have "total_bytes (hm_remove k m) = (\<Sum>j\<in>dom (hm_get m) - {k}. length (re_packet (the (hm_get m j))))"
    unfolding total_bytes_def dom_hm_remove by (simp add: map_simps)
  then show ?thesis
    by (cases "hm_get m k") (auto simp: total_bytes_def sum_diff1_nat domIff)
qed

lemma total_bytes_ge: "hm_get m k = Some r \<Longrightarrow> length (re_packet r) \<le> total_bytes m"
  unfolding total_bytes_def
  using member_le_sum [of k "dom (hm_get m)" "\<lambda>k. length (re_packet (the (hm_get m k)))"] by (simp add: domI)

definition entry_ok :: "inner_reassembly \<Rightarrow> bool" where
  "entry_ok r \<longleftrightarrow> length (re_received r) = length (re_packet r) \<and> received_count r = length (filter id (re_received r)) \<and>
    0 < length (re_packet r) \<and> length (re_packet r) \<le> MAX_INNER_PACKET_LEN"

definition reassembly_ok :: "'a inner_state_scheme \<Rightarrow> bool" where
  "reassembly_ok s \<longleftrightarrow> reassembly_bytes s = total_bytes (reassembly s) \<and> reassembly_bytes s \<le> MAX_REASSEMBLY_BYTES \<and>
    hm_len (reassembly s) \<le> MAX_REASSEMBLY_ENTRIES \<and>
    (\<forall>k r. hm_get (reassembly s) k = Some r \<longrightarrow> entry_ok r \<and> received_count r < length (re_packet r))"

lemma count_update:
  "p < length xs \<Longrightarrow> length (filter id (xs[p := True])) = (if xs ! p then length (filter id xs) else Suc (length (filter id xs)))"
proof -
  assume p: "p < length xs"
  have "{i. i < length (xs[p := True]) \<and> id (xs[p := True] ! i)} = insert p {i. i < length xs \<and> id (xs ! i)}"
    using p by (auto simp: nth_list_update split: if_splits)
  then show ?thesis using p by (simp add: length_filter_conv_card card_insert_if)
qed

lemma store_ok:
  assumes "entry_ok r" and "position + length bs \<le> length (re_packet r)"
  shows "\<exists>r'. store r position bs = Ok r' \<and> entry_ok r' \<and> length (re_packet r') = length (re_packet r) \<and>
    created_at r' = created_at r \<and>
    (\<forall>i<length (re_packet r). re_packet r' ! i = (if position \<le> i \<and> i < position + length bs then bs ! (i - position) else re_packet r ! i)) \<and>
    (\<forall>i<length (re_packet r). re_received r' ! i \<longleftrightarrow> re_received r ! i \<or> position \<le> i \<and> i < position + length bs)"
  using assms
proof (induction bs arbitrary: r position)
  case (Cons b bs)
  let ?r = "(if re_received r ! position then r
      else r\<lparr> re_received := (re_received r)[position := True], received_count := received_count r + 1 \<rparr>)
      \<lparr> re_packet := (re_packet r)[position := b] \<rparr>"
  have pos: "position < length (re_packet r)" "length (re_received r) = length (re_packet r)"
    using Cons.prems by (auto simp: entry_ok_def)
  have "entry_ok ?r" using Cons.prems pos by (auto simp: entry_ok_def count_update)
  moreover have "position + 1 + length bs \<le> length (re_packet ?r)" using Cons.prems by simp
  ultimately obtain r' where r': "store ?r (position + 1) bs = Ok r'" "entry_ok r'" "length (re_packet r') = length (re_packet r)"
    "created_at r' = created_at r"
    "\<forall>i<length (re_packet r). re_packet r' ! i = (if position + 1 \<le> i \<and> i < position + 1 + length bs then bs ! (i - (position + 1)) else re_packet ?r ! i)"
    "\<forall>i<length (re_packet r). re_received r' ! i \<longleftrightarrow> re_received ?r ! i \<or> position + 1 \<le> i \<and> i < position + 1 + length bs"
    using Cons.IH [of ?r "position + 1"] by (auto simp del: One_nat_def split: if_splits)
  have eq: "store r position (b # bs) = Ok r'" using r'(1) pos by (auto simp: Let_def)
  have packet: "re_packet r' ! i = (if position \<le> i \<and> i < position + length (b # bs) then (b # bs) ! (i - position) else re_packet r ! i)"
    if "i < length (re_packet r)" for i
    using that r'(5) pos by (cases "i = position") (auto simp: nth_Cons' nth_list_update)
  have received: "re_received r' ! i \<longleftrightarrow> re_received r ! i \<or> position \<le> i \<and> i < position + length (b # bs)"
    if "i < length (re_packet r)" for i
    using that r'(6) pos by (cases "i = position") (auto simp: nth_list_update)
  show ?case using eq r'(2-4) packet received by blast
qed auto

lemma new_reassembly_ok:
  "0 < n \<Longrightarrow> n \<le> MAX_INNER_PACKET_LEN \<Longrightarrow> entry_ok (new_reassembly now n)"
  by (simp add: entry_ok_def new_reassembly_def)

text \<open>Making room for a packet keeps the bounds.\<close>

definition open_entry :: "'a inner_state_scheme \<Rightarrow> instant \<Rightarrow> u64 \<Rightarrow> nat \<Rightarrow> 'a inner_state_scheme" where
  "open_entry s now packet_id total_len =
    (if hm_has (reassembly s) packet_id then s
     else s\<lparr> reassembly := hm_insert packet_id (new_reassembly now total_len) (reassembly s),
            reassembly_bytes := reassembly_bytes s + total_len \<rparr>)"

definition has_room :: "'a inner_state_scheme \<Rightarrow> nat \<Rightarrow> bool" where
  "has_room s total_len \<longleftrightarrow> hm_len (reassembly s) < MAX_REASSEMBLY_ENTRIES \<and> reassembly_bytes s + total_len \<le> MAX_REASSEMBLY_BYTES"

lemma open_entry_ok:
  assumes "reassembly_ok s" and "hm_has (reassembly s) packet_id \<or> has_room s n" and "0 < n" "n \<le> MAX_INNER_PACKET_LEN"
  shows "reassembly_ok (open_entry s now packet_id n)"
proof (cases "hm_has (reassembly s) packet_id")
  case False
  then show ?thesis
    using assms new_reassembly_ok [OF assms(3,4), of now]
    by (auto simp: reassembly_ok_def open_entry_def has_room_def total_bytes_insert hm_len_insert map_simps hm_has_def
        new_reassembly_def split: if_splits)
qed (use assms in \<open>simp add: open_entry_def\<close>)

lemma count_le: "entry_ok r \<Longrightarrow> received_count r \<le> length (re_packet r)"
  by (metis entry_ok_def length_filter_le)

lemma finish_fragment_ok:
  assumes s: "reassembly_ok s" and old: "hm_get (reassembly s) packet_id = Some r" and r': "entry_ok r'"
    and len: "length (re_packet r') = length (re_packet r)"
  shows "\<exists>s'. finish_fragment (s\<lparr> reassembly := hm_insert packet_id r' (reassembly s) \<rparr>) packet_id r' (length (re_packet r)) = (s', Ok ()) \<and>
    reassembly_ok s' \<and>
    (if received_count r' = length (re_packet r)
     then hm_get (reassembly s') = (hm_get (reassembly s))(packet_id := None) \<and> engine_events s' = engine_events s @ [InnerPacket (re_packet r')]
     else hm_get (reassembly s') = (hm_get (reassembly s))(packet_id \<mapsto> r') \<and> engine_events s' = engine_events s)"
proof (cases "received_count r' = length (re_packet r)")
  case True
  have "length (re_packet r) \<le> reassembly_bytes s" using s total_bytes_ge [OF old] by (simp add: reassembly_ok_def)
  then show ?thesis
    using s old True len
    by (auto simp: finish_fragment_def csub_in reassembly_ok_def total_bytes_insert total_bytes_remove map_simps hm_len_remove hm_len_insert
        hm_has_def fun_eq_iff split: if_splits)
next
  case False
  have "received_count r' < length (re_packet r)" using count_le [OF r'] False len by simp
  then show ?thesis
    using s old r' False len total_bytes_ge [OF old]
    by (auto simp: finish_fragment_def reassembly_ok_def total_bytes_insert map_simps hm_len_insert hm_has_def fun_eq_iff split: if_splits)
qed

text \<open>What inserting a fragment does.\<close>

lemma insert_fragment_cases:
  assumes s: "reassembly_ok s" and n: "0 < n" "n \<le> MAX_INNER_PACKET_LEN" and f: "offset + length fragment \<le> n"
  obtains (ignored) s' where "insert_fragment s now packet_id n offset fragment = (s', Ok ())" "reassembly_ok s'"
      "s' = s"
      "(case hm_get (reassembly s) packet_id of None \<Rightarrow> \<not> has_room s n | Some r \<Rightarrow> length (re_packet r) \<noteq> n)"
  | (stored) s' r r' where "insert_fragment s now packet_id n offset fragment = (s', Ok ())" "reassembly_ok s'"
      "r = (case hm_get (reassembly s) packet_id of None \<Rightarrow> new_reassembly now n | Some r \<Rightarrow> r)" "length (re_packet r) = n"
      "store r offset fragment = Ok r'" "entry_ok r" "entry_ok r'"
      "if received_count r' = n
       then hm_get (reassembly s') = (hm_get (reassembly s))(packet_id := None) \<and> engine_events s' = engine_events s @ [InnerPacket (re_packet r')]
       else hm_get (reassembly s') = (hm_get (reassembly s))(packet_id \<mapsto> r') \<and> engine_events s' = engine_events s"
proof (cases "case hm_get (reassembly s) packet_id of None \<Rightarrow> \<not> has_room s n | Some r \<Rightarrow> length (re_packet r) \<noteq> n")
  case True
  then have "insert_fragment s now packet_id n offset fragment = (s, Ok ())"
    by (cases "hm_get (reassembly s) packet_id") (auto simp: insert_fragment_def hm_has_def has_room_def)
  then show ?thesis using ignored s True by blast
next
  case False
  let ?s = "open_entry s now packet_id n"
  define r where "r = (case hm_get (reassembly s) packet_id of None \<Rightarrow> new_reassembly now n | Some r \<Rightarrow> r)"
  have "hm_has (reassembly s) packet_id \<or> has_room s n" using False by (auto simp: hm_has_def split: option.splits)
  then have ok: "reassembly_ok ?s" using open_entry_ok s n by blast
  have r: "hm_get (reassembly ?s) packet_id = Some r" "length (re_packet r) = n"
    using False by (auto simp: r_def open_entry_def hm_has_def map_simps new_reassembly_def split: option.splits)
  have e: "entry_ok r" using ok r by (auto simp: reassembly_ok_def)
  obtain r' where r': "store r offset fragment = Ok r'" "entry_ok r'" "length (re_packet r') = length (re_packet r)"
    using store_ok [OF e, of offset fragment] f r by auto
  have upd: "(hm_get (reassembly ?s))(packet_id := x) = (hm_get (reassembly s))(packet_id := x)" for x
    by (auto simp: open_entry_def map_simps fun_eq_iff)
  have ev: "engine_events ?s = engine_events s" by (simp add: open_entry_def)
  have "insert_fragment s now packet_id n offset fragment =
      finish_fragment (?s\<lparr> reassembly := hm_insert packet_id r' (reassembly ?s) \<rparr>) packet_id r' n"
    using False r r'(1)
    by (cases "hm_get (reassembly s) packet_id") (auto simp: insert_fragment_def hm_has_def has_room_def open_entry_def)
  then show ?thesis
    using finish_fragment_ok [OF ok r(1) r'(2,3)] r r' e stored [of _ r r'] r_def
    unfolding upd ev r(2) by auto
qed

section \<open>Putting a packet together\<close>

definition payload_id :: "bytes \<Rightarrow> u64" where
  "payload_id payload = from_be_bytes (take 8 payload)"

abbreviation offsets :: "bytes \<Rightarrow> nat \<Rightarrow> nat set" where
  "offsets packet width \<equiv> set (step_by (length packet) width)"

definition fragment_payload :: "u64 \<Rightarrow> bytes \<Rightarrow> nat \<Rightarrow> nat \<Rightarrow> bytes" where
  "fragment_payload packet_id packet width offset = tl (fragment_wire packet_id packet width offset)"

lemma u16_of_nat: "n \<le> 65535 \<Longrightarrow> unat (word_of_nat n :: u16) = n"
  by (simp add: unsigned_of_nat take_bit_nat_eq_self)

lemma payload_fields:
  assumes "length packet \<le> MAX_INNER_PACKET_LEN" and o: "offset < length packet" and "0 < width"
  shows "from_be_bytes (take 8 (fragment_payload packet_id packet width offset)) = packet_id"
    and "unat (from_be_bytes (take 2 (drop 8 (fragment_payload packet_id packet width offset))) :: u16) = length packet"
    and "unat (from_be_bytes (take 2 (drop 10 (fragment_payload packet_id packet width offset))) :: u16) = offset"
    and "drop 12 (fragment_payload packet_id packet width offset) = piece packet width offset"
    and "13 \<le> length (fragment_payload packet_id packet width offset)"
proof -
  have id: "from_be_bytes (to_be_bytes 8 packet_id) = packet_id"
    using unsigned_less [of packet_id] by (intro from_to_be_bytes) simp
  have w: "from_be_bytes (to_be_bytes 2 w) = w" for w :: u16
    using unat_u16_less [of w] by (intro from_to_be_bytes) simp
  have "piece packet width offset \<noteq> []" using assms by (simp add: piece_eq)
  then have "1 \<le> length (piece packet width offset)" by (cases "piece packet width offset") auto
  then show "from_be_bytes (take 8 (fragment_payload packet_id packet width offset)) = packet_id"
    and "unat (from_be_bytes (take 2 (drop 8 (fragment_payload packet_id packet width offset))) :: u16) = length packet"
    and "unat (from_be_bytes (take 2 (drop 10 (fragment_payload packet_id packet width offset))) :: u16) = offset"
    and "drop 12 (fragment_payload packet_id packet width offset) = piece packet width offset"
    and "13 \<le> length (fragment_payload packet_id packet width offset)"
    using assms by (simp_all add: fragment_payload_def fragment_wire_def id w u16_of_nat)
qed

lemma length_piece: "offset < length xs \<Longrightarrow> offset + length (piece xs width offset) \<le> length xs"
  by (simp add: piece_eq)

lemma handle_fragment_payload:
  assumes "length packet \<le> MAX_INNER_PACKET_LEN" and "offset < length packet" and "0 < width"
  shows "handle_inner_fragment s now (fragment_payload packet_id packet width offset) =
    insert_fragment s now packet_id (length packet) offset (piece packet width offset)"
  using payload_fields [OF assms, of packet_id] assms length_piece [OF assms(2), of width]
  by (auto simp: handle_inner_fragment_def Let_def)

text \<open>A payload of another packet leaves the entry alone; every payload keeps the bounds.\<close>

lemma handle_inner_fragment_ok:
  assumes s: "reassembly_ok s"
  obtains s' where "handle_inner_fragment s now payload = (s', Ok ())" "reassembly_ok s'"
    "\<forall>k. k \<noteq> payload_id payload \<longrightarrow> hm_get (reassembly s') k = hm_get (reassembly s) k"
    "\<exists>ps. engine_events s' = engine_events s @ map InnerPacket ps"
proof -
  let ?n = "unat (from_be_bytes (take 2 (drop 8 payload)) :: u16)"
  let ?o = "unat (from_be_bytes (take 2 (drop 10 payload)) :: u16)"
  show ?thesis
  proof (cases "length payload < 13 \<or> ?n = 0 \<or> MAX_INNER_PACKET_LEN < ?n \<or> ?n \<le> ?o \<or> ?n < ?o + length (drop 12 payload)")
    case True
    then have "handle_inner_fragment s now payload = (s, Ok ())" by (auto simp: handle_inner_fragment_def Let_def)
    then show ?thesis using that s by (metis append_Nil2 list.simps(8))
  next
    case False
    then have eq: "handle_inner_fragment s now payload = insert_fragment s now (payload_id payload) ?n ?o (drop 12 payload)"
      by (auto simp: handle_inner_fragment_def payload_id_def Let_def)
    have n: "0 < ?n" "?n \<le> MAX_INNER_PACKET_LEN" "?o + length (drop 12 payload) \<le> ?n" using False by auto
    show ?thesis
    proof (rule insert_fragment_cases [OF s n, of now "payload_id payload"], goal_cases ignored stored)
      case (ignored s')
      then show ?case using that [of s'] eq by (auto intro: exI [of _ "[]"])
    next
      case (stored s' r r')
      have "\<exists>ps. engine_events s' = engine_events s @ map InnerPacket ps"
        using stored(8) by (cases "received_count r' = ?n") (auto intro: exI [of _ "[]"] exI [of _ "[re_packet r']"])
      moreover have "\<forall>k. k \<noteq> payload_id payload \<longrightarrow> hm_get (reassembly s') k = hm_get (reassembly s) k"
        using stored(8) by (cases "received_count r' = ?n") auto
      ultimately show ?case using that [of s'] eq stored(1,2) by simp
    qed
  qed
qed

text \<open>The entry of a packet of which the fragments at the offsets \<open>D\<close> have arrived.\<close>

definition gathering :: "u64 \<Rightarrow> bytes \<Rightarrow> nat \<Rightarrow> nat set \<Rightarrow> inner_reassembly \<Rightarrow> bool" where
  "gathering packet_id packet width D r \<longleftrightarrow> length (re_packet r) = length packet \<and>
    (\<forall>i<length packet. re_received r ! i \<longleftrightarrow> (\<exists>d\<in>D. d \<le> i \<and> i < d + width)) \<and>
    (\<forall>i<length packet. re_received r ! i \<longrightarrow> re_packet r ! i = packet ! i)"

lemma gathering_new: "gathering packet_id packet width {} (new_reassembly now (length packet))"
  by (simp add: gathering_def new_reassembly_def)

lemma same_multiple:
  assumes "d mod w = (0 :: nat)" and "e mod w = 0" and "d \<le> e" and "e < d + w"
  shows "d = e"
proof -
  obtain a b where ab: "d = w * a" "e = w * b" using assms(1,2) by (meson dvdE mod_0_imp_dvd)
  have w: "0 < w" using assms by linarith
  have "w * b < w * (a + 1)" using assms(4) ab by simp
  then have "b < a + 1" by (simp only: nat_mult_less_cancel_disj)
  moreover have "a \<le> b" using assms(3) ab w by simp
  ultimately show ?thesis using ab by simp
qed

lemma filter_all_iff: "length (filter id xs) = length xs \<longleftrightarrow> (\<forall>i<length xs. xs ! i)"
proof -
  have "length (filter id xs) = length xs \<longleftrightarrow> (\<forall>x\<in>set xs. x)"
  proof (induction xs)
    case (Cons x xs)
    have "length (filter id xs) \<noteq> Suc (length xs)" using length_filter_le [of id xs] by linarith
    then show ?case using Cons by (auto simp: id_def)
  qed simp
  then show ?thesis by (auto simp: all_set_conv_all_nth)
qed

lemma complete_iff:
  assumes e: "entry_ok r" and g: "gathering packet_id packet width D r" and D: "D \<subseteq> offsets packet width" and w: "0 < width"
  shows "received_count r = length packet \<longleftrightarrow> D = offsets packet width"
proof -
  have "received_count r = length packet \<longleftrightarrow> (\<forall>i<length packet. re_received r ! i)"
    using e g filter_all_iff [of "re_received r"] by (simp add: entry_ok_def gathering_def)
  also have "\<dots> \<longleftrightarrow> (\<forall>i<length packet. \<exists>d\<in>D. d \<le> i \<and> i < d + width)" using g by (auto simp: gathering_def)
  also have "\<dots> \<longleftrightarrow> D = offsets packet width"
  proof
    assume all: "\<forall>i<length packet. \<exists>d\<in>D. d \<le> i \<and> i < d + width"
    have "e \<in> D" if e: "e \<in> offsets packet width" for e
    proof -
      obtain d where d: "d \<in> D" "d \<le> e" "e < d + width" using all e by (auto simp: step_by_iff)
      have "d = e" by (rule same_multiple [OF _ _ d(2,3)]) (use D d(1) e in \<open>auto simp: step_by_iff\<close>)
      then show ?thesis using d(1) by simp
    qed
    then show "D = offsets packet width" using D by blast
  next
    assume "D = offsets packet width"
    then show "\<forall>i<length packet. \<exists>d\<in>D. d \<le> i \<and> i < d + width" using step_by_covers [OF w] by blast
  qed
  finally show ?thesis .
qed

lemma gathering_store:
  assumes e: "entry_ok r" and g: "gathering packet_id packet width D r" and d: "d \<in> offsets packet width"
    and r': "store r d (piece packet width d) = Ok r'"
  shows "gathering packet_id packet width (insert d D) r'"
proof -
  have n: "length (re_packet r) = length packet" "d < length packet" using g d by (auto simp: gathering_def step_by_iff)
  have l: "length (piece packet width d) = min width (length packet - d)" by (simp add: piece_eq min.commute)
  have "d + length (piece packet width d) \<le> length (re_packet r)" using n l by simp
  from store_ok [OF e this] r' have s: "length (re_packet r') = length packet"
    "\<forall>i<length packet. re_packet r' ! i =
      (if d \<le> i \<and> i < d + length (piece packet width d) then piece packet width d ! (i - d) else re_packet r ! i)"
    "\<forall>i<length packet. re_received r' ! i \<longleftrightarrow> re_received r ! i \<or> d \<le> i \<and> i < d + length (piece packet width d)"
    using n by auto
  have "i < d + length (piece packet width d) \<longleftrightarrow> i < d + width" if "i < length packet" for i
    using that n l by auto
  moreover have "piece packet width d ! (i - d) = packet ! i" if "d \<le> i" "i < d + length (piece packet width d)" for i
    using that l n by (simp add: piece_eq)
  ultimately show ?thesis using s g unfolding gathering_def by auto
qed

text \<open>One more fragment of a packet that is being put together.\<close>

lemma fragment_step:
  assumes s: "reassembly_ok s" and n: "length packet \<le> MAX_INNER_PACKET_LEN" and w: "0 < width"
    and d: "d \<in> offsets packet width" and D: "D \<subseteq> offsets packet width"
    and r: "case hm_get (reassembly s) packet_id of None \<Rightarrow> D = {} \<and> has_room s (length packet) | Some r \<Rightarrow> gathering packet_id packet width D r"
  obtains s' where "handle_inner_fragment s now (fragment_payload packet_id packet width d) = (s', Ok ())" "reassembly_ok s'"
    "if insert d D = offsets packet width
     then hm_get (reassembly s') packet_id = None \<and> engine_events s' = engine_events s @ [InnerPacket packet]
     else (\<exists>r. hm_get (reassembly s') packet_id = Some r \<and> gathering packet_id packet width (insert d D) r) \<and> engine_events s' = engine_events s"
proof -
  have dn: "d < length packet" using d by (simp add: step_by_iff)
  have eq: "handle_inner_fragment s now (fragment_payload packet_id packet width d) =
      insert_fragment s now packet_id (length packet) d (piece packet width d)"
    by (rule handle_fragment_payload [OF n dn w])
  have pos: "0 < length packet" using dn by linarith
  show ?thesis
  proof (rule insert_fragment_cases [OF s pos n length_piece [OF dn, of width], of now packet_id], goal_cases ignored stored)
    case (ignored s')
    then show ?case using r by (auto simp: gathering_def split: option.splits)
  next
    case (stored s' e e')
    have "gathering packet_id packet width D e"
      using r stored(3) gathering_new by (auto split: option.splits)
    then have g: "gathering packet_id packet width (insert d D) e'" by (rule gathering_store [OF stored(6) _ d stored(5)])
    have c: "received_count e' = length packet \<longleftrightarrow> insert d D = offsets packet width"
      by (rule complete_iff [OF stored(7) g _ w]) (use d D in simp)
    have "re_packet e' = packet" if "received_count e' = length packet"
    proof (rule nth_equalityI)
      show "length (re_packet e') = length packet" using g by (simp add: gathering_def)
      fix i assume "i < length (re_packet e')"
      then have i: "i < length packet" using g by (simp add: gathering_def)
      have "i - i mod width \<in> insert d D" "i - i mod width \<le> i" "i < i - i mod width + width"
        using step_by_covers [OF w i] c that by simp_all
      then have "re_received e' ! i" using g i unfolding gathering_def by blast
      then show "re_packet e' ! i = packet ! i" using g i by (simp add: gathering_def)
    qed
    then show ?case using that [of s'] eq stored(1,2,8) c g by (auto split: if_splits)
  qed
qed

subsection \<open>Sequences of fragments\<close>

fun deliver :: "'a inner_state_scheme \<Rightarrow> (instant \<times> bytes) list \<Rightarrow> 'a inner_state_scheme \<times> (unit, unit) result" where
  "deliver s [] = (s, Ok ())"
| "deliver s ((now, payload) # rest) = (case handle_inner_fragment s now payload of (s, Ok _) \<Rightarrow> deliver s rest | (s, r) \<Rightarrow> (s, r))"

definition arrived :: "u64 \<Rightarrow> bytes \<Rightarrow> nat \<Rightarrow> (instant \<times> bytes) list \<Rightarrow> nat set" where
  "arrived packet_id packet width ps = {d \<in> offsets packet width. fragment_payload packet_id packet width d \<in> snd ` set ps}"

lemma payload_inj:
  assumes "length packet \<le> MAX_INNER_PACKET_LEN" and "0 < width" and "d \<in> offsets packet width" and "e \<in> offsets packet width"
    and "fragment_payload packet_id packet width d = fragment_payload packet_id packet width e"
  shows "d = e"
proof -
  have "d < length packet" "e < length packet" using assms(3,4) by (simp_all add: step_by_iff)
  then show ?thesis
    using payload_fields(3) [OF assms(1) _ assms(2), of _ packet_id] assms(5) by metis
qed

lemma deliver_gathers:
  assumes n: "length packet \<le> MAX_INNER_PACKET_LEN" and w: "0 < width"
  shows "reassembly_ok s \<Longrightarrow> hm_get (reassembly s) packet_id = Some r \<Longrightarrow> gathering packet_id packet width D r \<Longrightarrow>
    D \<subseteq> offsets packet width \<Longrightarrow>
    \<forall>(now, p)\<in>set ps. p \<in> fragment_payload packet_id packet width ` offsets packet width \<or> payload_id p \<noteq> packet_id \<Longrightarrow>
    D \<union> arrived packet_id packet width ps \<noteq> offsets packet width \<Longrightarrow>
    \<exists>s' r. deliver s ps = (s', Ok ()) \<and> reassembly_ok s' \<and> hm_get (reassembly s') packet_id = Some r \<and>
      gathering packet_id packet width (D \<union> arrived packet_id packet width ps) r \<and>
      ((\<forall>(now, p)\<in>set ps. p \<in> fragment_payload packet_id packet width ` offsets packet width) \<longrightarrow> engine_events s' = engine_events s)"
proof (induction ps arbitrary: s r D)
  case Nil
  then show ?case by (auto simp: arrived_def)
next
  case (Cons x ps)
  obtain now p where x: "x = (now, p)" by (cases x)
  show ?case
  proof (cases "p \<in> fragment_payload packet_id packet width ` offsets packet width")
    case True
    then obtain d where d: "d \<in> offsets packet width" "p = fragment_payload packet_id packet width d" by blast
    have a: "arrived packet_id packet width (x # ps) = insert d (arrived packet_id packet width ps)"
      using d payload_inj [OF n w _ d(1), of _ packet_id] by (auto simp: arrived_def x)
    have "insert d D \<noteq> offsets packet width" using Cons.prems(6) a by (auto simp: arrived_def)
    moreover obtain s1 where s1: "handle_inner_fragment s now p = (s1, Ok ())" "reassembly_ok s1"
      "if insert d D = offsets packet width
       then hm_get (reassembly s1) packet_id = None \<and> engine_events s1 = engine_events s @ [InnerPacket packet]
       else (\<exists>r. hm_get (reassembly s1) packet_id = Some r \<and> gathering packet_id packet width (insert d D) r) \<and> engine_events s1 = engine_events s"
      by (rule fragment_step [OF Cons.prems(1) n w d(1) Cons.prems(4), of packet_id now])
        (use Cons.prems(2,3) d(2) in auto)
    ultimately obtain r1 where r1: "hm_get (reassembly s1) packet_id = Some r1" "gathering packet_id packet width (insert d D) r1"
      and ev: "engine_events s1 = engine_events s" by auto
    have "\<exists>s' r. deliver s1 ps = (s', Ok ()) \<and> reassembly_ok s' \<and> hm_get (reassembly s') packet_id = Some r \<and>
        gathering packet_id packet width (insert d D \<union> arrived packet_id packet width ps) r \<and>
        ((\<forall>(now, p)\<in>set ps. p \<in> fragment_payload packet_id packet width ` offsets packet width) \<longrightarrow> engine_events s' = engine_events s1)"
      by (rule Cons.IH [OF s1(2) r1]) (use Cons.prems(4-6) d a in auto)
    then show ?thesis using s1(1) a ev True by (simp add: x)
  next
    case False
    then have other: "payload_id p \<noteq> packet_id" using Cons.prems(5) by (simp add: x)
    have a: "arrived packet_id packet width (x # ps) = arrived packet_id packet width ps" using False by (auto simp: arrived_def x)
    obtain s1 where s1: "handle_inner_fragment s now p = (s1, Ok ())" "reassembly_ok s1"
      "\<forall>k. k \<noteq> payload_id p \<longrightarrow> hm_get (reassembly s1) k = hm_get (reassembly s) k"
      by (rule handle_inner_fragment_ok [OF Cons.prems(1)])
    have "hm_get (reassembly s1) packet_id = Some r" using s1(3) other Cons.prems(2) by simp
    then have "\<exists>s' r. deliver s1 ps = (s', Ok ()) \<and> reassembly_ok s' \<and> hm_get (reassembly s') packet_id = Some r \<and>
        gathering packet_id packet width (D \<union> arrived packet_id packet width ps) r"
      using Cons.IH [OF s1(2) _ Cons.prems(3,4)] Cons.prems(5,6) a by fastforce
    then show ?thesis using s1(1) a False by (simp add: x)
  qed
qed

section \<open>Properties\<close>

lemma fragments_arrive:
  assumes s: "reassembly_ok s" and n: "length packet \<le> MAX_INNER_PACKET_LEN" and w: "0 < width"
    and fresh: "hm_get (reassembly s) packet_id = None" and room: "has_room s (length packet)"
    and ps: "\<forall>(now, p)\<in>set ps. p \<in> set (map tl (fragments packet_id packet width)) \<or> payload_id p \<noteq> packet_id"
    and first: "ps \<noteq> [] \<longrightarrow> snd (hd ps) \<in> set (map tl (fragments packet_id packet width))"
    and final: "p \<in> set (map tl (fragments packet_id packet width))" "p \<notin> snd ` set ps"
      "set (map tl (fragments packet_id packet width)) \<subseteq> insert p (snd ` set ps)"
  shows "\<exists>s1 s2. deliver s ps = (s1, Ok ()) \<and> deliver s1 [(now, p)] = (s2, Ok ()) \<and>
    engine_events s2 = engine_events s1 @ [InnerPacket packet] \<and> hm_get (reassembly s2) packet_id = None \<and> reassembly_ok s2 \<and>
    ((\<forall>(now, p)\<in>set ps. p \<in> set (map tl (fragments packet_id packet width))) \<longrightarrow> engine_events s1 = engine_events s)"
proof -
  let ?f = "fragment_payload packet_id packet width" and ?a = "arrived packet_id packet width"
  have frags: "set (map tl (fragments packet_id packet width)) = ?f ` offsets packet width"
    by (auto simp: fragments_def fragment_payload_def)
  obtain d where d: "d \<in> offsets packet width" "p = ?f d" using final(1) unfolding frags by blast
  have all: "insert d (?a ps) = offsets packet width" and not: "?a ps \<noteq> offsets packet width"
    using final(2,3) d payload_inj [OF n w _ d(1), of _ packet_id] unfolding frags arrived_def by auto
  have "\<exists>s1. deliver s ps = (s1, Ok ()) \<and> reassembly_ok s1 \<and>
    (case hm_get (reassembly s1) packet_id of None \<Rightarrow> ?a ps = {} \<and> has_room s1 (length packet) | Some r \<Rightarrow> gathering packet_id packet width (?a ps) r) \<and>
    ((\<forall>(now, p)\<in>set ps. p \<in> ?f ` offsets packet width) \<longrightarrow> engine_events s1 = engine_events s)"
  proof (cases ps)
    case Nil
    then show ?thesis using s fresh room by (simp add: arrived_def)
  next
    case (Cons x rest)
    obtain t q where x: "x = (t, q)" by (cases x)
    obtain e where e: "e \<in> offsets packet width" "q = ?f e" using first Cons x unfolding frags by auto
    have a: "?a ps = insert e (?a rest)"
      using e payload_inj [OF n w _ e(1), of _ packet_id] by (auto simp: arrived_def Cons x)
    obtain s0 where s0: "handle_inner_fragment s t q = (s0, Ok ())" "reassembly_ok s0"
      "if insert e {} = offsets packet width
       then hm_get (reassembly s0) packet_id = None \<and> engine_events s0 = engine_events s @ [InnerPacket packet]
       else (\<exists>r. hm_get (reassembly s0) packet_id = Some r \<and> gathering packet_id packet width (insert e {}) r) \<and> engine_events s0 = engine_events s"
      by (rule fragment_step [OF s n w e(1), of "{}" packet_id t]) (use fresh room e(2) in auto)
    have rest: "\<forall>(now, p)\<in>set rest. p \<in> ?f ` offsets packet width \<or> payload_id p \<noteq> packet_id"
      using ps unfolding frags by (simp add: Cons)
    have "insert e {} \<noteq> offsets packet width" using not a by (auto simp: arrived_def)
    then obtain r0 where r0: "hm_get (reassembly s0) packet_id = Some r0" "gathering packet_id packet width {e} r0"
      and ev: "engine_events s0 = engine_events s" using s0(3) by auto
    have "\<exists>s' r. deliver s0 rest = (s', Ok ()) \<and> reassembly_ok s' \<and> hm_get (reassembly s') packet_id = Some r \<and>
        gathering packet_id packet width ({e} \<union> ?a rest) r \<and>
        ((\<forall>(now, p)\<in>set rest. p \<in> ?f ` offsets packet width) \<longrightarrow> engine_events s' = engine_events s0)"
      by (rule deliver_gathers [OF n w s0(2) r0 _ rest]) (use e(1) not a in auto)
    then obtain s' r where "deliver s0 rest = (s', Ok ())" "reassembly_ok s'" "hm_get (reassembly s') packet_id = Some r"
      "gathering packet_id packet width ({e} \<union> ?a rest) r"
      "(\<forall>(now, p)\<in>set rest. p \<in> ?f ` offsets packet width) \<longrightarrow> engine_events s' = engine_events s0" by blast
    then show ?thesis using s0(1) a ev by (intro exI [of _ s']) (simp add: Cons x)
  qed
  then obtain s1 where s1: "deliver s ps = (s1, Ok ())" "reassembly_ok s1"
    "case hm_get (reassembly s1) packet_id of None \<Rightarrow> ?a ps = {} \<and> has_room s1 (length packet) | Some r \<Rightarrow> gathering packet_id packet width (?a ps) r"
    "(\<forall>(now, p)\<in>set ps. p \<in> ?f ` offsets packet width) \<longrightarrow> engine_events s1 = engine_events s"
    by blast
  obtain s2 where "handle_inner_fragment s1 now p = (s2, Ok ())" "reassembly_ok s2"
    "if insert d (?a ps) = offsets packet width
     then hm_get (reassembly s2) packet_id = None \<and> engine_events s2 = engine_events s1 @ [InnerPacket packet]
     else (\<exists>r. hm_get (reassembly s2) packet_id = Some r \<and> gathering packet_id packet width (insert d (?a ps)) r) \<and> engine_events s2 = engine_events s1"
    by (rule fragment_step [OF s1(2) n w d(1) _ s1(3), of now]) (use d(2) in \<open>auto simp: arrived_def\<close>)
  then show ?thesis using s1(1,4) all unfolding frags by simp
qed


definition empty_inner :: inner_state where
  "empty_inner = \<lparr> next_inner_packet_id = 0, reassembly = hm_empty, reassembly_bytes = 0, engine_events = [] \<rparr>"

lemma empty_inner_ok: "reassembly_ok empty_inner"
  by (auto simp: reassembly_ok_def empty_inner_def total_bytes_def)

definition sample_fragments :: "bytes list" where
  "sample_fragments = map tl (fragments 7 [1, 2, 3, 4, 5] 2)"


end
