(* ===== verification/Quic_Engine.thy ===== *)
theory Quic_Engine
  imports Quic_Inner
begin

text \<open>
  The QUIC engine of a flow worker (\<open>quic_engine.rs\<close>): the active connection, the candidate that may
  replace it, the connection ids they use and the queue of events for the worker.  The endpoint of
  \<open>quinn_proto\<close> and what it does to connections is a parameter, \<open>endpoint_ops\<close>; every endpoint
  operation also returns the connection ids it made the generator produce.  What the turns of
  the two connections poll is an argument (\<open>turn_input\<close>).
\<close>

section \<open>Model\<close>

datatype quic_engine_error =
    InvalidDcidLength
  | MissingRemote
  | MissingClientConfig
  | ConnectFailed
  | NotConnected
  | NotAuthenticated
  | EmptyInnerPacket
  | DatagramTooLarge

datatype 'c datagram_event = NewConnection 'c | ConnectionEvent nat

record ('c, 'e) endpoint_ops =
  ep_new :: "nat \<Rightarrow> 'e"
  ep_connect :: "'e \<Rightarrow> 'e \<times> dcid list \<times> (nat \<times> 'c) option"
  ep_handle :: "'e \<Rightarrow> instant \<Rightarrow> socket_addr \<Rightarrow> ip_addr option \<Rightarrow> bytes \<Rightarrow> 'e \<times> dcid list \<times> (nat \<times> 'c datagram_event) option"
  ep_handle_event :: "'e \<Rightarrow> nat \<Rightarrow> endpoint_event \<Rightarrow> 'e \<times> dcid list \<times> nat option"
  ep_transmits :: "'e \<Rightarrow> 'e \<times> outer_transmit list"
  conn_handle_event :: "'c \<Rightarrow> nat \<Rightarrow> 'c"
  conn_close :: "'c \<Rightarrow> instant \<Rightarrow> bytes \<Rightarrow> 'c"
  conn_max_size :: "'c \<Rightarrow> nat option"
  conn_send :: "'c \<Rightarrow> bytes \<Rightarrow> 'c \<times> bool"

type_synonym turn_input = "(connection_event list \<times> u64) \<times> (connection_event list \<times> u64)"

record client_reconnect =
  cr_worker_id :: nat
  cr_worker_count :: nat

record ('c, 'e) quic_engine = inner_state +
  qe_role :: quic_role
  qe_endpoint :: 'e
  qe_connection :: "'c managed_connection option"
  qe_candidate :: "'c managed_connection option"
  qe_reconnect :: "client_reconnect option"
  qe_shared_key :: bytes
  qe_dcid_len :: nat
  generated_dcids :: "dcid list"
  published_dcids :: "dcid list"
  candidate_promotion_pending :: bool

definition push_event :: "quic_engine_event \<Rightarrow> ('c, 'e) quic_engine \<Rightarrow> ('c, 'e) quic_engine" where
  "push_event event e = e\<lparr> engine_events := engine_events e @ [event] \<rparr>"

subsection \<open>Connection ids\<close>

definition extract_dcid :: "bytes \<Rightarrow> nat \<Rightarrow> dcid option" where
  "extract_dcid packet fixed_len =
    Option.bind (byte_get packet 0) (\<lambda>first.
      if first AND 0x80 \<noteq> 0 then
        Option.bind (byte_get packet 5) (\<lambda>b.
          let dcid_len = unat b in
          if dcid_len = 0 \<or> 20 < dcid_len then None else slice_get packet 6 (6 + dcid_len))
      else slice_get packet 1 (1 + fixed_len))"

definition validate_dcid_len :: "nat \<Rightarrow> (unit, quic_engine_error) result" where
  "validate_dcid_len dcid_len = (if 1 \<le> dcid_len \<and> dcid_len \<le> 20 then Ok () else Err InvalidDcidLength)"

text \<open>The generator tries random identifiers until one belongs to its worker.\<close>

fun generate_cid :: "nat \<Rightarrow> nat \<Rightarrow> nat \<Rightarrow> dcid list \<Rightarrow> dcid option" where
  "generate_cid dcid_len worker_id worker_count [] = None"
| "generate_cid dcid_len worker_id worker_count (random # rest) =
    (if bootstrap_owner (take dcid_len random) worker_count = Ok worker_id then Some (take dcid_len random)
     else generate_cid dcid_len worker_id worker_count rest)"

definition on_handle ::
  "nat \<Rightarrow> ('c managed_connection \<Rightarrow> 'c managed_connection) \<Rightarrow> ('c, 'e) quic_engine \<Rightarrow> ('c, 'e) quic_engine" where
  "on_handle handle f e =
    (case qe_connection e of
       Some m \<Rightarrow>
         if mc_handle m = handle then e\<lparr> qe_connection := Some (f m) \<rparr>
         else e\<lparr> qe_candidate := map_option (\<lambda>m. if mc_handle m = handle then f m else m) (qe_candidate e) \<rparr>
     | None \<Rightarrow> e\<lparr> qe_candidate := map_option (\<lambda>m. if mc_handle m = handle then f m else m) (qe_candidate e) \<rparr>)"

definition connection_for_handle :: "('c, 'e) quic_engine \<Rightarrow> nat \<Rightarrow> 'c managed_connection option" where
  "connection_for_handle e handle =
    (case qe_connection e of
       Some m \<Rightarrow> if mc_handle m = handle then Some m else Option.bind (qe_candidate e) (\<lambda>m. if mc_handle m = handle then Some m else None)
     | None \<Rightarrow> Option.bind (qe_candidate e) (\<lambda>m. if mc_handle m = handle then Some m else None))"

definition publish_dcid :: "dcid \<Rightarrow> ('c, 'e) quic_engine \<Rightarrow> ('c, 'e) quic_engine" where
  "publish_dcid d e =
    (if d \<in> set (published_dcids e) then e
     else push_event (DcidPublished d) (e\<lparr> published_dcids := published_dcids e @ [d] \<rparr>))"

definition stage_dcids_for_handle :: "nat \<Rightarrow> dcid list \<Rightarrow> ('c, 'e) quic_engine \<Rightarrow> ('c, 'e) quic_engine" where
  "stage_dcids_for_handle handle generated e =
    (let e = on_handle handle (\<lambda>m. foldl track_dcid m generated) e in
     case connection_for_handle e handle of
       None \<Rightarrow> e
     | Some m \<Rightarrow>
         if dcid_limit_exceeded m then e
         else fold (\<lambda>d. if authenticated (mc_auth m) then publish_dcid d else push_event (DcidStaged d)) generated e)"

definition publish_active_dcids :: "('c, 'e) quic_engine \<Rightarrow> ('c, 'e) quic_engine" where
  "publish_active_dcids e = fold publish_dcid (case qe_connection e of Some m \<Rightarrow> mc_dcids m | None \<Rightarrow> []) e"

definition retire_staged_dcids :: "dcid list \<Rightarrow> ('c, 'e) quic_engine \<Rightarrow> ('c, 'e) quic_engine" where
  "retire_staged_dcids dcids e =
    fold (\<lambda>d e. if d \<in> set (published_dcids e) then e else push_event (DcidRetired d) e) dcids e"

definition retire_all_dcids :: "('c, 'e) quic_engine \<Rightarrow> ('c, 'e) quic_engine" where
  "retire_all_dcids e =
    e\<lparr> published_dcids := [], engine_events := engine_events e @ map DcidRetired (published_dcids e) \<rparr>"

subsection \<open>Connections that come and go\<close>

fun dispose_events ::
  "('c, 'e) endpoint_ops \<Rightarrow> nat \<Rightarrow> endpoint_event list \<Rightarrow> bool \<Rightarrow> ('c, 'e) quic_engine \<Rightarrow> ('c, 'e) quic_engine \<times> bool" where
  "dispose_events ep handle [] registered e = (e, registered)"
| "dispose_events ep handle (event # events) registered e =
    dispose_events ep handle events (registered \<and> event \<noteq> Drained)
      (e\<lparr> qe_endpoint := fst (ep_handle_event ep (qe_endpoint e) handle event), generated_dcids := [] \<rparr>)"

definition dispose_managed_connection ::
  "'c quinn \<Rightarrow> ('c, 'e) endpoint_ops \<Rightarrow> 'c managed_connection \<Rightarrow> instant \<Rightarrow> bytes option \<Rightarrow> ('c, 'e) quic_engine \<Rightarrow> ('c, 'e) quic_engine" where
  "dispose_managed_connection q ep m now reason e =
    (let c = (case reason of Some r \<Rightarrow> conn_close ep (mc_connection m) now r | None \<Rightarrow> mc_connection m);
         (e, registered) = dispose_events ep (mc_handle m) (snd (q_endpoint_events q c)) (endpoint_registered m) e
     in if registered then fst (dispose_events ep (mc_handle m) [Drained] registered e) else e)"

definition promote_candidate :: "('c, 'e) quic_engine \<Rightarrow> ('c, 'e) quic_engine" where
  "promote_candidate e =
    (case qe_candidate e of
       None \<Rightarrow> e
     | Some m \<Rightarrow>
         if qe_connection e \<noteq> None then push_event (Replaced (mc_dcids m)) (e\<lparr> candidate_promotion_pending := True \<rparr>)
         else push_event Authenticated (fold publish_dcid (mc_dcids m) (e\<lparr> qe_candidate := None, qe_connection := Some m \<rparr>)))"

definition commit_candidate_replacement ::
  "'c quinn \<Rightarrow> ('c, 'e) endpoint_ops \<Rightarrow> instant \<Rightarrow> ('c, 'e) quic_engine \<Rightarrow> ('c, 'e) quic_engine" where
  "commit_candidate_replacement q ep now e =
    (case qe_candidate e of
       None \<Rightarrow> e
     | Some m \<Rightarrow>
         let previous = qe_connection e;
             e = e\<lparr> qe_candidate := None, qe_connection := Some m \<rparr>;
             e = (case previous of Some active \<Rightarrow> dispose_managed_connection q ep active now (Some (ascii ''peer restarted'')) e | None \<Rightarrow> e);
             e = clear_reassembly e;
             e = e\<lparr> published_dcids := mc_dcids m,
                    engine_events := engine_events e @ map DcidRetired (filter (\<lambda>d. d \<notin> set (mc_dcids m)) (published_dcids e)) \<rparr>
         in push_event Authenticated e)"

text \<open>Giving the candidate up.\<close>

definition drop_candidate ::
  "'c quinn \<Rightarrow> ('c, 'e) endpoint_ops \<Rightarrow> instant \<Rightarrow> bytes option \<Rightarrow> ('c, 'e) quic_engine \<Rightarrow> ('c, 'e) quic_engine" where
  "drop_candidate q ep now reason e =
    (case qe_candidate e of
       None \<Rightarrow> e
     | Some m \<Rightarrow> dispose_managed_connection q ep m now reason (retire_staged_dcids (mc_dcids m) (e\<lparr> qe_candidate := None \<rparr>)))"

definition resolve_candidate_replacement ::
  "'c quinn \<Rightarrow> ('c, 'e) endpoint_ops \<Rightarrow> instant \<Rightarrow> bool \<Rightarrow> ('c, 'e) quic_engine \<Rightarrow> ('c, 'e) quic_engine" where
  "resolve_candidate_replacement q ep now publish_succeeded e =
    (if \<not> candidate_promotion_pending e then e
     else
       let e = e\<lparr> candidate_promotion_pending := False \<rparr> in
       if publish_succeeded then commit_candidate_replacement q ep now e
       else drop_candidate q ep now (Some (ascii ''DCID publication rejected'')) e)"

definition is_authenticated :: "('c, 'e) quic_engine \<Rightarrow> bool" where
  "is_authenticated e = (case qe_connection e of Some m \<Rightarrow> authenticated (mc_auth m) | None \<Rightarrow> False)"

definition dispose_option ::
  "'c quinn \<Rightarrow> ('c, 'e) endpoint_ops \<Rightarrow> instant \<Rightarrow> bytes option \<Rightarrow> 'c managed_connection option \<Rightarrow> ('c, 'e) quic_engine \<Rightarrow> ('c, 'e) quic_engine" where
  "dispose_option q ep now reason mo e = (case mo of Some m \<Rightarrow> dispose_managed_connection q ep m now reason e | None \<Rightarrow> e)"

definition close_engine :: "'c quinn \<Rightarrow> ('c, 'e) endpoint_ops \<Rightarrow> instant \<Rightarrow> ('c, 'e) quic_engine \<Rightarrow> ('c, 'e) quic_engine" where
  "close_engine q ep now e =
    (let e = dispose_option q ep now (Some (ascii ''closed'')) (qe_connection e) (e\<lparr> qe_connection := None \<rparr>);
         e = dispose_option q ep now (Some (ascii ''closed'')) (qe_candidate e) (e\<lparr> qe_candidate := None \<rparr>)
     in push_event Closed (retire_all_dcids (clear_reassembly e)))"

subsection \<open>Turns of the engine\<close>

definition drive_part ::
  "'c quinn \<Rightarrow> instant \<Rightarrow> ('c, 'e) quic_engine \<Rightarrow> 'c managed_connection option \<Rightarrow> connection_event list \<times> u64 \<Rightarrow>
   ('c managed_connection option \<times> (connection_drive option, unit) result) option" where
  "drive_part q now e mo input =
    (case mo of
       None \<Rightarrow> Some (None, Ok None)
     | Some m \<Rightarrow>
         Option.bind (drive_connection q (qe_role e) (qe_shared_key e) now m (fst input) (snd input)) (\<lambda>(m, r).
           Some (Some m, and_then r (\<lambda>drive. Ok (Some drive)))))"

definition handle_endpoint_event ::
  "('c, 'e) endpoint_ops \<Rightarrow> nat \<times> endpoint_event \<Rightarrow> ('c, 'e) quic_engine \<Rightarrow> ('c, 'e) quic_engine" where
  "handle_endpoint_event ep he e =
    (let (handle, event) = he;
         e = (if event = Drained then on_handle handle (\<lambda>m. m\<lparr> endpoint_registered := False \<rparr>) e else e);
         (endpoint, generated, connection_event) = ep_handle_event ep (qe_endpoint e) handle event;
         e = e\<lparr> qe_endpoint := endpoint, generated_dcids := [] \<rparr>;
         e = (case connection_event of
                Some v \<Rightarrow> on_handle handle (\<lambda>m. m\<lparr> mc_connection := conn_handle_event ep (mc_connection m) v \<rparr>) e
              | None \<Rightarrow> e)
     in stage_dcids_for_handle handle generated e)"

definition drive_flag :: "(connection_drive \<Rightarrow> bool) \<Rightarrow> connection_drive option \<Rightarrow> bool" where
  "drive_flag f d = (case d of Some d \<Rightarrow> f d | None \<Rightarrow> False)"

definition drive_list :: "(connection_drive \<Rightarrow> 'x list) \<Rightarrow> connection_drive option \<Rightarrow> 'x list" where
  "drive_list f d = (case d of Some d \<Rightarrow> f d | None \<Rightarrow> [])"

text \<open>What the two turns mean for the connections.\<close>

definition settle ::
  "'c quinn \<Rightarrow> ('c, 'e) endpoint_ops \<Rightarrow> instant \<Rightarrow> connection_drive option \<Rightarrow> connection_drive option \<Rightarrow> ('c, 'e) quic_engine \<Rightarrow> ('c, 'e) quic_engine" where
  "settle q ep now active_drive candidate_drive e =
    (let e = (if drive_flag authenticated_now active_drive then push_event Authenticated (publish_active_dcids e) else e);
         e = (if drive_flag authenticated_now candidate_drive then promote_candidate e
              else if drive_flag lost candidate_drive then drop_candidate q ep now None e
              else e)
     in
     if drive_flag lost active_drive \<and> \<not> drive_flag authenticated_now candidate_drive then
       let e = drop_candidate q ep now (Some (ascii ''active connection lost'')) e;
           e = dispose_option q ep now None (qe_connection e) (e\<lparr> qe_connection := None \<rparr>)
       in push_event Closed (retire_all_dcids (clear_reassembly e))
     else e)"

definition handle_application_datagram ::
  "instant \<Rightarrow> ('c, 'e) quic_engine \<Rightarrow> bytes \<Rightarrow> ('c, 'e) quic_engine \<times> (unit, unit) result" where
  "handle_application_datagram now e datagram =
    (case datagram of
       [] \<Rightarrow> (e, Ok ())
     | kind # payload \<Rightarrow>
         if kind = INNER_PACKET \<and> is_authenticated e \<and> payload \<noteq> [] then (push_event (InnerPacket payload) e, Ok ())
         else if kind = INNER_FRAGMENT \<and> is_authenticated e then handle_inner_fragment e now payload
         else (e, Ok ()))"

fun handle_application_datagrams ::
  "instant \<Rightarrow> ('c, 'e) quic_engine \<Rightarrow> bytes list \<Rightarrow> ('c, 'e) quic_engine \<times> (unit, unit) result" where
  "handle_application_datagrams now e [] = (e, Ok ())"
| "handle_application_datagrams now e (datagram # rest) =
    (case handle_application_datagram now e datagram of
       (e, Ok _) \<Rightarrow> handle_application_datagrams now e rest
     | (e, r) \<Rightarrow> (e, r))"

definition application_datagrams :: "connection_drive option \<Rightarrow> connection_drive option \<Rightarrow> bytes list" where
  "application_datagrams active_drive candidate_drive =
    (if drive_flag authenticated_now candidate_drive then drive_list drive_datagrams candidate_drive
     else if \<not> drive_flag lost active_drive then drive_list drive_datagrams active_drive
     else [])"

definition after_turns ::
  "'c quinn \<Rightarrow> ('c, 'e) endpoint_ops \<Rightarrow> instant \<Rightarrow> connection_drive option \<Rightarrow> connection_drive option \<Rightarrow> ('c, 'e) quic_engine \<Rightarrow>
   ('c, 'e) quic_engine \<times> (unit, unit) result" where
  "after_turns q ep now active_drive candidate_drive e =
    (let e = fold (handle_endpoint_event ep)
               (drive_list drive_endpoint_events active_drive @ drive_list drive_endpoint_events candidate_drive) e;
         (endpoint, outgoing) = ep_transmits ep (qe_endpoint e);
         transmits = drive_list drive_transmits active_drive @ drive_list drive_transmits candidate_drive @ outgoing;
         e = prune_reassembly (settle q ep now active_drive candidate_drive (e\<lparr> qe_endpoint := endpoint \<rparr>)) now
     in case handle_application_datagrams now e (application_datagrams active_drive candidate_drive) of
          (e, Ok _) \<Rightarrow> (e\<lparr> engine_events := engine_events e @ map Transmit transmits \<rparr>, Ok ())
        | (e, r) \<Rightarrow> (e, r))"

definition drive_engine ::
  "'c quinn \<Rightarrow> ('c, 'e) endpoint_ops \<Rightarrow> instant \<Rightarrow> turn_input \<Rightarrow> ('c, 'e) quic_engine \<Rightarrow> (('c, 'e) quic_engine \<times> (unit, unit) result) option" where
  "drive_engine q ep now input e =
    Option.bind (drive_part q now e (qe_connection e) (fst input)) (\<lambda>(active, r).
      let e = e\<lparr> qe_connection := active \<rparr> in
      case r of
        Err x \<Rightarrow> Some (e, Err x)
      | Panic \<Rightarrow> Some (e, Panic)
      | Ok active_drive \<Rightarrow>
          Option.bind (drive_part q now e (qe_candidate e) (snd input)) (\<lambda>(candidate, r).
            let e = e\<lparr> qe_candidate := candidate \<rparr> in
            case r of
              Err x \<Rightarrow> Some (e, Err x)
            | Panic \<Rightarrow> Some (e, Panic)
            | Ok candidate_drive \<Rightarrow> Some (after_turns q ep now active_drive candidate_drive e)))"

subsection \<open>Operations\<close>

definition handle_outer ::
  "'c quinn \<Rightarrow> ('c, 'e) endpoint_ops \<Rightarrow> instant \<Rightarrow> socket_addr \<Rightarrow> ip_addr option \<Rightarrow> bytes \<Rightarrow> turn_input \<Rightarrow> ('c, 'e) quic_engine \<Rightarrow>
   (('c, 'e) quic_engine \<times> (unit, unit) result) option" where
  "handle_outer q ep now remote local_ip packet input e =
    (let accepted_dcid = extract_dcid packet (qe_dcid_len e);
         (endpoint, generated, handled) = ep_handle ep (qe_endpoint e) now remote local_ip packet;
         e = e\<lparr> qe_endpoint := endpoint, generated_dcids := [] \<rparr>
     in
     case handled of
       None \<Rightarrow> drive_engine q ep now input e
     | Some (handle, event) \<Rightarrow>
         let e = (case event of
                    NewConnection connection \<Rightarrow>
                      if qe_candidate e \<noteq> None
                      then dispose_managed_connection q ep (new_managed handle connection now) now (Some (ascii ''candidate busy'')) e
                      else e\<lparr> qe_candidate := Some (new_managed handle connection now) \<rparr>
                  | ConnectionEvent v \<Rightarrow> on_handle handle (\<lambda>m. m\<lparr> mc_connection := conn_handle_event ep (mc_connection m) v \<rparr>) e);
             e = (case accepted_dcid of Some d \<Rightarrow> on_handle handle (\<lambda>m. track_dcid m d) e | None \<Rightarrow> e)
         in drive_engine q ep now input (stage_dcids_for_handle handle generated e))"

definition send_datagram :: "('c, 'e) endpoint_ops \<Rightarrow> bytes \<Rightarrow> ('c, 'e) quic_engine \<Rightarrow> ('c, 'e) quic_engine \<times> bool" where
  "send_datagram ep datagram e =
    (case qe_connection e of
       None \<Rightarrow> (e, False)
     | Some m \<Rightarrow>
         let (c, sent) = conn_send ep (mc_connection m) datagram in
         (e\<lparr> qe_connection := Some (m\<lparr> mc_connection := c \<rparr>) \<rparr>, sent))"

fun send_datagrams ::
  "('c, 'e) endpoint_ops \<Rightarrow> bytes list \<Rightarrow> ('c, 'e) quic_engine \<Rightarrow> ('c, 'e) quic_engine \<times> (unit, quic_engine_error) result" where
  "send_datagrams ep [] e = (e, Ok ())"
| "send_datagrams ep (datagram # rest) e =
    (case send_datagram ep datagram e of (e, sent) \<Rightarrow> if sent then send_datagrams ep rest e else (e, Err DatagramTooLarge))"

definition send_fragmented_inner ::
  "('c, 'e) endpoint_ops \<Rightarrow> bytes \<Rightarrow> nat \<Rightarrow> ('c, 'e) quic_engine \<Rightarrow> ('c, 'e) quic_engine \<times> (unit, quic_engine_error) result" where
  "send_fragmented_inner ep packet max_datagram_size e =
    (if MAX_INNER_PACKET_LEN < length packet \<or> max_datagram_size \<le> INNER_FRAGMENT_HEADER_LEN then (e, Err DatagramTooLarge)
     else
       let packet_id = next_inner_packet_id e in
       send_datagrams ep (fragments packet_id packet (max_datagram_size - INNER_FRAGMENT_HEADER_LEN))
         (e\<lparr> next_inner_packet_id := packet_id + 1 \<rparr>))"

definition drive_after ::
  "'c quinn \<Rightarrow> ('c, 'e) endpoint_ops \<Rightarrow> instant \<Rightarrow> turn_input \<Rightarrow> ('c, 'e) quic_engine \<times> (unit, quic_engine_error) result \<Rightarrow>
   (('c, 'e) quic_engine \<times> (unit, quic_engine_error) result) option" where
  "drive_after q ep now input er =
    (case er of
       (e, Ok _) \<Rightarrow> map_option (map_prod id (\<lambda>r. case r of Ok _ \<Rightarrow> Ok () | _ \<Rightarrow> Panic)) (drive_engine q ep now input e)
     | (e, r) \<Rightarrow> Some (e, r))"

definition send_inner ::
  "'c quinn \<Rightarrow> ('c, 'e) endpoint_ops \<Rightarrow> instant \<Rightarrow> bytes \<Rightarrow> turn_input \<Rightarrow> ('c, 'e) quic_engine \<Rightarrow>
   (('c, 'e) quic_engine \<times> (unit, quic_engine_error) result) option" where
  "send_inner q ep now packet input e =
    (if packet = [] then Some (e, Err EmptyInnerPacket)
     else if \<not> is_authenticated e then Some (e, Err NotAuthenticated)
     else
       case Option.bind (qe_connection e) (\<lambda>m. conn_max_size ep (mc_connection m)) of
         None \<Rightarrow> Some (e, Err NotConnected)
       | Some max_datagram_size \<Rightarrow>
           drive_after q ep now input
             (if length packet < max_datagram_size then send_datagrams ep [INNER_PACKET # packet] e
              else send_fragmented_inner ep packet max_datagram_size e))"

definition poll_engine ::
  "'c quinn \<Rightarrow> ('c, 'e) endpoint_ops \<Rightarrow> instant \<Rightarrow> turn_input \<Rightarrow> ('c, 'e) quic_engine \<Rightarrow>
   (('c, 'e) quic_engine \<times> (quic_engine_event option, unit) result) option" where
  "poll_engine q ep now input e =
    Option.bind (drive_engine q ep now input e) (\<lambda>(e, r).
      Some (case r of
              Ok _ \<Rightarrow> (case engine_events e of [] \<Rightarrow> (e, Ok None) | event # rest \<Rightarrow> (e\<lparr> engine_events := rest \<rparr>, Ok (Some event)))
            | Err x \<Rightarrow> (e, Err x)
            | Panic \<Rightarrow> (e, Panic)))"

definition new_engine :: "quic_role \<Rightarrow> 'e \<Rightarrow> bytes \<Rightarrow> nat \<Rightarrow> ('c, 'e) quic_engine" where
  "new_engine role endpoint shared_key dcid_len =
    \<lparr> next_inner_packet_id = 0, reassembly = hm_empty, reassembly_bytes = 0, engine_events = [], qe_role = role, qe_endpoint = endpoint,
      qe_connection = None, qe_candidate = None, qe_reconnect = None, qe_shared_key = shared_key, qe_dcid_len = dcid_len,
      generated_dcids = [], published_dcids = [], candidate_promotion_pending = False \<rparr>"

definition server_for_worker :: "('c, 'e) endpoint_ops \<Rightarrow> bytes \<Rightarrow> nat \<Rightarrow> (('c, 'e) quic_engine, quic_engine_error) result" where
  "server_for_worker ep shared_key dcid_len =
    and_then (validate_dcid_len dcid_len) (\<lambda>_. Ok (new_engine QuicServer (ep_new ep 0) shared_key dcid_len))"

definition owner_matches :: "('c, 'e) quic_engine \<Rightarrow> nat \<Rightarrow> nat \<Rightarrow> bool" where
  "owner_matches e worker_id worker_count \<longleftrightarrow>
    find_map (\<lambda>event. case event of
        Transmit t \<Rightarrow> Option.bind (extract_dcid (ot_contents t) (qe_dcid_len e)) (\<lambda>d. ok (bootstrap_owner d worker_count))
      | _ \<Rightarrow> None) (engine_events e) = Some worker_id"

text \<open>
  A client tries up to 1024 endpoints until the first packet it would send is owned by its
  worker; \<open>attempts\<close> gives the clock reading and the input of each attempt.
\<close>

fun client_attempts ::
  "'c quinn \<Rightarrow> ('c, 'e) endpoint_ops \<Rightarrow> bytes \<Rightarrow> nat \<Rightarrow> nat \<Rightarrow> nat \<Rightarrow> (nat \<Rightarrow> instant \<times> turn_input) \<Rightarrow> nat \<Rightarrow> nat \<Rightarrow>
   (('c, 'e) quic_engine, quic_engine_error) result option" where
  "client_attempts q ep shared_key dcid_len worker_id worker_count attempts i 0 = Some (Err ConnectFailed)"
| "client_attempts q ep shared_key dcid_len worker_id worker_count attempts i (Suc n) =
    (let (endpoint, generated, connected) = ep_connect ep (ep_new ep i); (now, input) = attempts i in
     case connected of
       None \<Rightarrow> Some (Err ConnectFailed)
     | Some (handle, connection) \<Rightarrow>
         let e = (new_engine QuicClient endpoint shared_key dcid_len)\<lparr> qe_connection := Some (new_managed handle connection now),
                   qe_reconnect := Some \<lparr> cr_worker_id = worker_id, cr_worker_count = worker_count \<rparr> \<rparr>
         in Option.bind (drive_engine q ep now input (stage_dcids_for_handle handle generated e)) (\<lambda>(e, r).
              case r of
                Ok _ \<Rightarrow>
                  if owner_matches e worker_id worker_count then Some (Ok e)
                  else client_attempts q ep shared_key dcid_len worker_id worker_count attempts (i + 1) n
              | _ \<Rightarrow> Some Panic))"

definition client_for_worker ::
  "'c quinn \<Rightarrow> ('c, 'e) endpoint_ops \<Rightarrow> bytes \<Rightarrow> nat \<Rightarrow> nat \<Rightarrow> nat \<Rightarrow> (nat \<Rightarrow> instant \<times> turn_input) \<Rightarrow>
   (('c, 'e) quic_engine, quic_engine_error) result option" where
  "client_for_worker q ep shared_key dcid_len worker_id worker_count attempts =
    (case validate_dcid_len dcid_len of
       Ok _ \<Rightarrow>
         if worker_count = 0 \<or> worker_count \<le> worker_id then Some (Err ConnectFailed)
         else client_attempts q ep shared_key dcid_len worker_id worker_count attempts 0 1024
     | Err x \<Rightarrow> Some (Err x)
     | Panic \<Rightarrow> Some Panic)"

definition reconnect_client ::
  "'c quinn \<Rightarrow> ('c, 'e) endpoint_ops \<Rightarrow> (nat \<Rightarrow> instant \<times> turn_input) \<Rightarrow> ('c, 'e) quic_engine \<Rightarrow>
   (('c, 'e) quic_engine \<times> (unit, quic_engine_error) result) option" where
  "reconnect_client q ep attempts e =
    (case qe_reconnect e of
       None \<Rightarrow> Some (e, Err MissingClientConfig)
     | Some c \<Rightarrow>
         Option.bind (client_for_worker q ep (qe_shared_key e) (qe_dcid_len e) (cr_worker_id c) (cr_worker_count c) attempts) (\<lambda>r.
           Some (case r of Ok e' \<Rightarrow> (e', Ok ()) | Err x \<Rightarrow> (e, Err x) | Panic \<Rightarrow> (e, Panic))))"

section \<open>Invariant and event log\<close>

text \<open>
  The state of an engine.  When \<open>u\<close> holds no peer can prove the key; then nothing the engine does
  lets a packet in or a connection id out.
\<close>

definition conn_good :: "bool \<Rightarrow> (bytes \<Rightarrow> bool) \<Rightarrow> 'c managed_connection \<Rightarrow> bool" where
  "conn_good u content m \<longleftrightarrow> tx_ok (mc_auth m) \<and> distinct (mc_dcids m) \<and> length (mc_dcids m) \<le> MAX_TRACKED_DCIDS \<and>
    (u \<longrightarrow> \<not> authenticated (mc_auth m) \<and> \<not> authenticate_after_flush (mc_auth m) \<and> content (auth_receive (mc_auth m)))"

fun quiet :: "quic_engine_event \<Rightarrow> bool" where
  "quiet (Transmit _) = True"
| "quiet (DcidStaged _) = True"
| "quiet (DcidRetired _) = True"
| "quiet Closed = True"
| "quiet _ = False"

definition engine_ok :: "bool \<Rightarrow> (bytes \<Rightarrow> bool) \<Rightarrow> 'c quinn \<Rightarrow> ('c, 'e) quic_engine \<Rightarrow> bool" where
  "engine_ok u content q e \<longleftrightarrow> reassembly_ok e \<and> distinct (published_dcids e) \<and>
    (\<forall>m. qe_connection e = Some m \<or> qe_candidate e = Some m \<longrightarrow> conn_good u content m) \<and>
    (u \<longrightarrow> (\<forall>ex. no_proof q (qe_shared_key e) (qe_role e) ex content) \<and> published_dcids e = [] \<and>
      \<not> candidate_promotion_pending e \<and> (\<forall>event\<in>set (engine_events e). quiet event))"

text \<open>The set of published connection ids that follows from the events; publishing one twice is an error.\<close>

fun replay :: "quic_engine_event list \<Rightarrow> dcid set \<Rightarrow> dcid set option" where
  "replay [] S = Some S"
| "replay (DcidPublished d # events) S = (if d \<in> S then None else replay events (insert d S))"
| "replay (DcidRetired d # events) S = replay events (S - {d})"
| "replay (_ # events) S = replay events S"

lemma replay_append: "replay (a @ b) S = Option.bind (replay a S) (replay b)"
  by (induction a S rule: replay.induct) auto

lemma replay_retired: "replay (map DcidRetired ds) S = Some (S - set ds)"
  by (induction ds arbitrary: S) auto

lemma replay_other: "(\<And>d. ev \<noteq> DcidPublished d) \<Longrightarrow> (\<And>d. ev \<noteq> DcidRetired d) \<Longrightarrow> replay [ev] S = Some S"
  by (cases ev) auto

lemma replay_transmits: "replay (map Transmit ts) S = Some S"
  by (induction ts) auto

lemma replay_inner: "replay (map InnerPacket ps) S = Some S"
  by (induction ps) auto

definition logged :: "('c, 'e) quic_engine \<Rightarrow> ('c, 'e) quic_engine \<Rightarrow> bool" where
  "logged e e' \<longleftrightarrow> (\<exists>new. engine_events e' = engine_events e @ new \<and> replay new (set (published_dcids e)) = Some (set (published_dcids e')))"

definition keeps :: "bool \<Rightarrow> (bytes \<Rightarrow> bool) \<Rightarrow> 'c quinn \<Rightarrow> ('c, 'e) quic_engine \<Rightarrow> ('c, 'e) quic_engine \<Rightarrow> bool" where
  "keeps u content q e e' \<longleftrightarrow> (engine_ok u content q e \<longrightarrow> engine_ok u content q e' \<and> logged e e')"

lemma logged_refl [simp]: "logged e e"
  by (simp add: logged_def)

lemma logged_trans: "logged a b \<Longrightarrow> logged b c \<Longrightarrow> logged a c"
  unfolding logged_def by (force simp: replay_append)

lemma keeps_refl [simp]: "keeps u content q e e"
  by (simp add: keeps_def)

lemma keepsD: "keeps u content q e e' \<Longrightarrow> engine_ok u content q e \<Longrightarrow> engine_ok u content q e'"
  "keeps u content q e e' \<Longrightarrow> engine_ok u content q e \<Longrightarrow> logged e e'"
  by (simp_all add: keeps_def)

lemma keeps_trans [trans]: "keeps u content q a b \<Longrightarrow> keeps u content q b c \<Longrightarrow> keeps u content q a c"
  unfolding keeps_def using logged_trans by blast

lemma keeps_if: "(P \<Longrightarrow> keeps u content q e a) \<Longrightarrow> (\<not> P \<Longrightarrow> keeps u content q e b) \<Longrightarrow> keeps u content q e (if P then a else b)"
  by simp

lemma keeps_fold: "(\<And>x e. x \<in> set xs \<Longrightarrow> keeps u content q e (f x e)) \<Longrightarrow> keeps u content q e (fold f xs e)"
proof (induction xs arbitrary: e)
  case (Cons x xs)
  have "keeps u content q e (f x e)" using Cons.prems by simp
  also have "keeps u content q (f x e) (fold f xs (f x e))" by (rule Cons.IH) (use Cons.prems in simp)
  finally show ?case by simp
qed simp

lemma reassembly_ok_more [simp]:
  "reassembly_ok (e\<lparr> engine_events := x \<rparr>) = reassembly_ok e"
  "reassembly_ok (e\<lparr> qe_endpoint := ep \<rparr>) = reassembly_ok e" "reassembly_ok (e\<lparr> qe_connection := c \<rparr>) = reassembly_ok e"
  "reassembly_ok (e\<lparr> qe_candidate := c \<rparr>) = reassembly_ok e" "reassembly_ok (e\<lparr> generated_dcids := g \<rparr>) = reassembly_ok e"
  "reassembly_ok (e\<lparr> published_dcids := g \<rparr>) = reassembly_ok e" "reassembly_ok (e\<lparr> candidate_promotion_pending := b \<rparr>) = reassembly_ok e"
  "reassembly_ok (e\<lparr> next_inner_packet_id := i \<rparr>) = reassembly_ok e"
  for e :: "('c, 'e) quic_engine"
  by (simp_all add: reassembly_ok_def)

lemma keeps_push:
  assumes "u \<longrightarrow> quiet ev" and "\<And>d. ev \<noteq> DcidPublished d" and "\<And>d. ev = DcidRetired d \<Longrightarrow> d \<notin> set (published_dcids e)"
  shows "keeps u content q e (push_event ev e)"
proof -
  have "replay [ev] (set (published_dcids e)) = Some (set (published_dcids e))"
    using assms(2,3) by (cases ev) auto
  then have "logged e (push_event ev e)" by (auto simp: logged_def push_event_def)
  then show ?thesis using assms(1) by (auto simp: keeps_def engine_ok_def push_event_def)
qed

lemma keeps_fields:
  "keeps u content q e (e\<lparr> qe_endpoint := x \<rparr>)" "keeps u content q e (e\<lparr> generated_dcids := g \<rparr>)"
  "keeps u content q e (e\<lparr> qe_endpoint := x, generated_dcids := g \<rparr>)" "keeps u content q e (e\<lparr> qe_connection := None \<rparr>)"
  "keeps u content q e (e\<lparr> qe_candidate := None \<rparr>)" "keeps u content q e (e\<lparr> next_inner_packet_id := i \<rparr>)"
  "keeps u content q e (e\<lparr> candidate_promotion_pending := False \<rparr>)"
  by (auto simp: keeps_def engine_ok_def logged_def)

lemma keeps_on_handle:
  assumes "\<And>m. conn_good u content m \<Longrightarrow> conn_good u content (f m)"
  shows "keeps u content q e (on_handle handle f e)"
  using assms by (auto simp: keeps_def engine_ok_def logged_def on_handle_def split: option.splits)

lemma track_dcid_good: "conn_good u content m \<Longrightarrow> conn_good u content (track_dcid m d)"
  by (auto simp: conn_good_def track_dcid_def)

lemma foldl_track_good: "conn_good u content m \<Longrightarrow> conn_good u content (foldl track_dcid m ds)"
  by (induction ds arbitrary: m) (simp_all add: track_dcid_good)

lemma keeps_publish_dcid: "\<not> u \<Longrightarrow> keeps u content q e (publish_dcid d e)"
  by (auto simp: keeps_def engine_ok_def logged_def publish_dcid_def push_event_def)

lemma keeps_publish_dcids: "\<not> u \<Longrightarrow> keeps u content q e (fold publish_dcid ds e)"
  by (rule keeps_fold) (rule keeps_publish_dcid)

lemma connection_for_handle_good:
  "engine_ok u content q e \<Longrightarrow> connection_for_handle e handle = Some m \<Longrightarrow> conn_good u content m"
  by (auto simp: engine_ok_def connection_for_handle_def split: option.splits if_splits Option.bind_splits)

lemma keeps_staged: "keeps u content q e (push_event (DcidStaged d) e)"
  by (rule keeps_push) auto

lemma keeps_retired: "keeps u content q e (if d \<in> set (published_dcids e) then e else push_event (DcidRetired d) e)"
  by (rule keeps_if) (auto intro: keeps_push)

lemma keeps_stage: "keeps u content q e (stage_dcids_for_handle handle generated e)"
proof -
  let ?e = "on_handle handle (\<lambda>m. foldl track_dcid m generated) e"
  have 1: "keeps u content q e ?e" by (rule keeps_on_handle) (rule foldl_track_good)
  have 2: "keeps u content q ?e (case connection_for_handle ?e handle of None \<Rightarrow> ?e
    | Some m \<Rightarrow> if dcid_limit_exceeded m then ?e
        else fold (\<lambda>d. if authenticated (mc_auth m) then publish_dcid d else push_event (DcidStaged d)) generated ?e)"
  proof (cases "connection_for_handle ?e handle")
    case (Some m)
    have "keeps u content q ?e (fold (\<lambda>d. if authenticated (mc_auth m) then publish_dcid d else push_event (DcidStaged d)) generated ?e)"
    proof (cases "engine_ok u content q ?e \<and> authenticated (mc_auth m)")
      case True
      then have "\<not> u" using connection_for_handle_good [OF _ Some] by (auto simp: conn_good_def)
      then show ?thesis using True by (simp add: keeps_publish_dcids)
    next
      case False
      have "keeps u content q ?e (fold (\<lambda>d. push_event (DcidStaged d)) generated ?e)" by (intro keeps_fold keeps_staged)
      then show ?thesis using False by (cases "authenticated (mc_auth m)") (auto simp: keeps_def [of _ _ _ ?e])
    qed
    then show ?thesis using Some by simp
  qed simp
  show ?thesis unfolding stage_dcids_for_handle_def Let_def by (rule keeps_trans [OF 1 2])
qed

lemma keeps_retire_staged: "keeps u content q e (retire_staged_dcids ds e)"
  unfolding retire_staged_dcids_def by (intro keeps_fold keeps_retired)

lemma keeps_retire_all: "keeps u content q e (retire_all_dcids e)"
  by (auto simp: keeps_def engine_ok_def logged_def retire_all_dcids_def replay_retired)

lemma keeps_dispose_events: "keeps u content q e (fst (dispose_events ep handle events registered e))"
proof (induction events arbitrary: registered e)
  case (Cons event events)
  show ?case unfolding dispose_events.simps by (rule keeps_trans [OF keeps_fields(3) Cons.IH])
qed simp

lemma keeps_dispose: "keeps u content q e (dispose_managed_connection q ep m now reason e)"
proof -
  let ?c = "case reason of Some r \<Rightarrow> conn_close ep (mc_connection m) now r | None \<Rightarrow> mc_connection m"
  obtain e' registered where d: "dispose_events ep (mc_handle m) (snd (q_endpoint_events q ?c)) (endpoint_registered m) e = (e', registered)"
    by (cases "dispose_events ep (mc_handle m) (snd (q_endpoint_events q ?c)) (endpoint_registered m) e")
  have "keeps u content q e e'" using keeps_dispose_events [of u content q e] d by (metis fst_conv)
  also have "keeps u content q e' (if registered then fst (dispose_events ep (mc_handle m) [Drained] registered e') else e')"
    by (rule keeps_if [OF keeps_dispose_events]) simp
  finally show ?thesis unfolding dispose_managed_connection_def Let_def d by simp
qed

lemma keeps_dispose_option: "keeps u content q e (dispose_option q ep now reason mo e)"
  by (cases mo) (simp_all add: dispose_option_def keeps_dispose)

lemma keeps_drop_candidate: "keeps u content q e (drop_candidate q ep now reason e)"
proof (cases "qe_candidate e")
  case (Some m)
  have "keeps u content q e (e\<lparr> qe_candidate := None \<rparr>)" by (rule keeps_fields)
  also have "keeps u content q \<dots> (retire_staged_dcids (mc_dcids m) (e\<lparr> qe_candidate := None \<rparr>))" by (rule keeps_retire_staged)
  also have "keeps u content q \<dots> (drop_candidate q ep now reason e)" unfolding drop_candidate_def Some option.case by (rule keeps_dispose)
  finally show ?thesis .
qed (simp add: drop_candidate_def)

lemma keeps_clear: "keeps u content q e (clear_reassembly e)"
proof -
  have "reassembly_ok (clear_reassembly e)" by (auto simp: reassembly_ok_def clear_reassembly_def total_bytes_def)
  then show ?thesis by (auto simp: keeps_def engine_ok_def logged_def) (simp_all add: clear_reassembly_def)
qed

lemma prune_ok:
  assumes "reassembly_ok s"
  shows "reassembly_ok (prune_reassembly s now)"
proof -
  let ?kept = "hm_retain (\<lambda>_ entry. now - created_at entry < REASSEMBLY_TIMEOUT) (reassembly s)"
  have sub: "dom (hm_get ?kept) \<subseteq> dom (hm_get (reassembly s))" by (auto simp: hm_get_retain split: option.splits)
  have "total_bytes ?kept = (\<Sum>k\<in>dom (hm_get ?kept). length (re_packet (the (hm_get (reassembly s) k))))"
    unfolding total_bytes_def by (rule sum.cong) (auto simp: hm_get_retain split: option.splits if_splits)
  also have "\<dots> \<le> total_bytes (reassembly s)" unfolding total_bytes_def by (rule sum_mono2) (use sub in auto)
  finally have "total_bytes ?kept \<le> total_bytes (reassembly s)" .
  moreover have "reassembly_bytes (prune_reassembly s now) = total_bytes ?kept"
    by (simp add: prune_reassembly_def Let_def sum_hm_vals total_bytes_def)
  ultimately show ?thesis
    using assms hm_len_retain_le [of _ "reassembly s"] unfolding reassembly_ok_def
    by (auto simp: prune_reassembly_def Let_def hm_get_retain split: option.splits if_splits intro: le_trans)
qed

lemma keeps_prune: "keeps u content q e (prune_reassembly e now)"
  using prune_ok [of e now]
  by (auto simp: keeps_def engine_ok_def logged_def) (simp_all add: prune_reassembly_def Let_def)

lemma fragment_only_inner:
  "qe_connection (fst (handle_inner_fragment e now p)) = qe_connection e" "qe_candidate (fst (handle_inner_fragment e now p)) = qe_candidate e"
  "published_dcids (fst (handle_inner_fragment e now p)) = published_dcids e" "qe_role (fst (handle_inner_fragment e now p)) = qe_role e"
  "qe_shared_key (fst (handle_inner_fragment e now p)) = qe_shared_key e"
  "candidate_promotion_pending (fst (handle_inner_fragment e now p)) = candidate_promotion_pending e"
  by (simp_all add: handle_inner_fragment_def insert_fragment_def finish_fragment_def Let_def split: option.split result.split)

lemma datagram_ok:
  assumes e: "engine_ok u content q e"
  obtains e' where "handle_application_datagram now e datagram = (e', Ok ())" "engine_ok u content q e'" "logged e e'"
    "qe_connection e' = qe_connection e" "qe_candidate e' = qe_candidate e"
    "\<not> is_authenticated e \<longrightarrow> e' = e"
proof (cases "\<exists>kind payload. datagram = kind # payload \<and> is_authenticated e \<and> (kind = INNER_PACKET \<and> payload \<noteq> [] \<or> kind = INNER_FRAGMENT)")
  case False
  then have "handle_application_datagram now e datagram = (e, Ok ())"
    by (auto simp: handle_application_datagram_def split: list.split)
  then show ?thesis using that e by simp
next
  case True
  then obtain kind payload where d: "datagram = kind # payload" and a: "is_authenticated e"
    and k: "kind = INNER_PACKET \<and> payload \<noteq> [] \<or> kind = INNER_FRAGMENT" by blast
  have u: "\<not> u" using e a by (auto simp: engine_ok_def conn_good_def is_authenticated_def split: option.splits)
  show ?thesis
  proof (cases "kind = INNER_PACKET \<and> payload \<noteq> []")
    case True
    have "keeps u content q e (push_event (InnerPacket payload) e)" by (rule keeps_push) (use u in auto)
    then show ?thesis
      using that [of "push_event (InnerPacket payload) e"] d a True e
      by (simp add: handle_application_datagram_def keeps_def push_event_def)
  next
    case False
    then have f: "handle_application_datagram now e datagram = handle_inner_fragment e now payload"
      using d a k by (auto simp: handle_application_datagram_def)
    have "reassembly_ok e" using e by (simp add: engine_ok_def)
    then obtain e' ps where e': "handle_inner_fragment e now payload = (e', Ok ())" "reassembly_ok e'"
      "engine_events e' = engine_events e @ map InnerPacket ps"
      by (rule handle_inner_fragment_ok) blast
    have same: "qe_connection e' = qe_connection e" "qe_candidate e' = qe_candidate e" "published_dcids e' = published_dcids e"
      "qe_role e' = qe_role e" "qe_shared_key e' = qe_shared_key e" "candidate_promotion_pending e' = candidate_promotion_pending e"
      using fragment_only_inner [of e now payload] e'(1) by simp_all
    have "engine_ok u content q e'" using e e'(2) same u by (simp add: engine_ok_def)
    moreover have "logged e e'" using e'(3) same by (auto simp: logged_def replay_inner)
    ultimately show ?thesis using that [of e'] f e'(1) same a by simp
  qed
qed

lemma datagrams_ok:
  "engine_ok u content q e \<Longrightarrow> \<exists>e'. handle_application_datagrams now e ds = (e', Ok ()) \<and> engine_ok u content q e' \<and> logged e e' \<and>
    qe_connection e' = qe_connection e \<and> qe_candidate e' = qe_candidate e \<and> (\<not> is_authenticated e \<longrightarrow> e' = e)"
proof (induction ds arbitrary: e)
  case (Cons d ds)
  obtain e1 where e1: "handle_application_datagram now e d = (e1, Ok ())" "engine_ok u content q e1" "logged e e1"
    "qe_connection e1 = qe_connection e" "qe_candidate e1 = qe_candidate e" "\<not> is_authenticated e \<longrightarrow> e1 = e"
    by (rule datagram_ok [OF Cons.prems])
  have "is_authenticated e1 = is_authenticated e" using e1(4) by (simp add: is_authenticated_def)
  then show ?case using Cons.IH [OF e1(2)] e1 logged_trans [OF e1(3)] by auto
qed simp

subsection \<open>Turns\<close>

lemma keeps_promote:
  assumes u: "\<not> u"
  shows "keeps u content q e (promote_candidate e)"
proof (cases "qe_candidate e")
  case (Some m)
  show ?thesis
  proof (cases "qe_connection e = None")
    case True
    let ?e = "e\<lparr> qe_candidate := None, qe_connection := Some m \<rparr>"
    have "keeps u content q e ?e" using Some by (auto simp: keeps_def engine_ok_def logged_def)
    also have "keeps u content q ?e (fold publish_dcid (mc_dcids m) ?e)" by (rule keeps_publish_dcids [OF u])
    also have "keeps u content q \<dots> (push_event Authenticated (fold publish_dcid (mc_dcids m) ?e))" by (rule keeps_push) (use u in auto)
    finally show ?thesis using Some True by (simp add: promote_candidate_def)
  next
    case False
    have "keeps u content q e (e\<lparr> candidate_promotion_pending := True \<rparr>)" using u by (auto simp: keeps_def engine_ok_def logged_def)
    also have "keeps u content q \<dots> (push_event (Replaced (mc_dcids m)) (e\<lparr> candidate_promotion_pending := True \<rparr>))"
      by (rule keeps_push) (use u in auto)
    finally show ?thesis using Some False by (simp add: promote_candidate_def)
  qed
qed (simp add: promote_candidate_def)

lemma keeps_shut:
  "keeps u content q e (push_event Closed (retire_all_dcids (clear_reassembly e)))"
proof -
  have "keeps u content q e (clear_reassembly e)" by (rule keeps_clear)
  also have "keeps u content q \<dots> (retire_all_dcids (clear_reassembly e))" by (rule keeps_retire_all)
  also have "keeps u content q \<dots> (push_event Closed (retire_all_dcids (clear_reassembly e)))" by (rule keeps_push) auto
  finally show ?thesis .
qed

lemma drop_active: "keeps u content q e (dispose_option q ep now reason (qe_connection e) (e\<lparr> qe_connection := None \<rparr>))"
  by (rule keeps_trans [OF keeps_fields(4) keeps_dispose_option])

definition drive_fine :: "bool \<Rightarrow> connection_drive option \<Rightarrow> bool" where
  "drive_fine u d \<longleftrightarrow> (u \<longrightarrow> \<not> drive_flag authenticated_now d)"

lemma keeps_settle:
  assumes "drive_fine u a" and "drive_fine u c"
  shows "keeps u content q e (settle q ep now a c e)"
proof -
  let ?e1 = "if drive_flag authenticated_now a then push_event Authenticated (publish_active_dcids e) else e"
  let ?e2 = "if drive_flag authenticated_now c then promote_candidate ?e1
             else if drive_flag lost c then drop_candidate q ep now None ?e1 else ?e1"
  have "keeps u content q e ?e1"
  proof (rule keeps_if)
    assume "drive_flag authenticated_now a"
    then have u: "\<not> u" using assms by (auto simp: drive_fine_def)
    have "keeps u content q e (publish_active_dcids e)" unfolding publish_active_dcids_def by (rule keeps_publish_dcids [OF u])
    also have "keeps u content q \<dots> (push_event Authenticated (publish_active_dcids e))" by (rule keeps_push) (use u in auto)
    finally show "keeps u content q e (push_event Authenticated (publish_active_dcids e))" .
  qed simp
  also have "keeps u content q ?e1 ?e2"
    by (intro keeps_if keeps_promote keeps_drop_candidate) (use assms in \<open>auto simp: drive_fine_def\<close>)
  also have "keeps u content q ?e2 (settle q ep now a c e)"
    unfolding settle_def Let_def
    by (rule keeps_if) (rule keeps_trans [OF keeps_drop_candidate keeps_trans [OF drop_active keeps_shut]], simp)
  finally show ?thesis .
qed

lemma connection_event_good: "conn_good u content m \<Longrightarrow> conn_good u content (m\<lparr> mc_connection := c \<rparr>)"
  "conn_good u content m \<Longrightarrow> conn_good u content (m\<lparr> endpoint_registered := b \<rparr>)"
  by (simp_all add: conn_good_def)

lemma keeps_endpoint_event: "keeps u content q e (handle_endpoint_event ep he e)"
proof -
  obtain handle event where he: "he = (handle, event)" by (cases he)
  let ?e1 = "if event = Drained then on_handle handle (\<lambda>m. m\<lparr> endpoint_registered := False \<rparr>) e else e"
  obtain x g v where x: "ep_handle_event ep (qe_endpoint ?e1) handle event = (x, g, v)"
    by (cases "ep_handle_event ep (qe_endpoint ?e1) handle event") auto
  let ?e2 = "?e1\<lparr> qe_endpoint := x, generated_dcids := [] \<rparr>"
  let ?e3 = "case v of Some v \<Rightarrow> on_handle handle (\<lambda>m. m\<lparr> mc_connection := conn_handle_event ep (mc_connection m) v \<rparr>) ?e2 | None \<Rightarrow> ?e2"
  have "keeps u content q e ?e1" by (intro keeps_if keeps_on_handle connection_event_good) simp_all
  also have "keeps u content q ?e1 ?e2" by (rule keeps_fields)
  also have "keeps u content q ?e2 ?e3" by (cases v) (simp_all add: keeps_on_handle connection_event_good)
  also have "keeps u content q ?e3 (stage_dcids_for_handle handle g ?e3)" by (rule keeps_stage)
  finally show ?thesis unfolding handle_endpoint_event_def he Let_def prod.case x .
qed

lemma after_turns_ok:
  assumes e: "engine_ok u content q e" and d: "drive_fine u a" "drive_fine u c"
  shows "\<exists>e'. after_turns q ep now a c e = (e', Ok ()) \<and> engine_ok u content q e' \<and> logged e e'"
proof -
  define e1 where "e1 = fold (handle_endpoint_event ep) (drive_list drive_endpoint_events a @ drive_list drive_endpoint_events c) e"
  obtain x ts where x: "ep_transmits ep (qe_endpoint e1) = (x, ts)" by (cases "ep_transmits ep (qe_endpoint e1)")
  define e2 where "e2 = prune_reassembly (settle q ep now a c (e1\<lparr> qe_endpoint := x \<rparr>)) now"
  have "keeps u content q e e1" unfolding e1_def by (rule keeps_fold) (rule keeps_endpoint_event)
  also have "keeps u content q e1 (e1\<lparr> qe_endpoint := x \<rparr>)" by (rule keeps_fields)
  also have "keeps u content q \<dots> (settle q ep now a c (e1\<lparr> qe_endpoint := x \<rparr>))" by (rule keeps_settle [OF d])
  also have "keeps u content q \<dots> e2" unfolding e2_def by (rule keeps_prune)
  finally have e2: "engine_ok u content q e2" "logged e e2" using e by (simp_all add: keeps_def)
  obtain e3 where e3: "handle_application_datagrams now e2 (application_datagrams a c) = (e3, Ok ())" "engine_ok u content q e3" "logged e2 e3"
    using datagrams_ok [OF e2(1)] by blast
  let ?ts = "drive_list drive_transmits a @ drive_list drive_transmits c @ ts"
  let ?e4 = "e3\<lparr> engine_events := engine_events e3 @ map Transmit ?ts \<rparr>"
  have "after_turns q ep now a c e = (?e4, Ok ())"
    unfolding after_turns_def Let_def e1_def [symmetric] x prod.case e2_def [symmetric] e3(1) by simp
  moreover have "engine_ok u content q ?e4" using e3(2) by (auto simp: engine_ok_def)
  moreover have "logged e3 ?e4" unfolding logged_def by (intro exI [of _ "map Transmit ?ts"]) (simp add: replay_transmits del: map_append)
  ultimately show ?thesis using logged_trans [OF logged_trans [OF e2(2) e3(3)]] by blast
qed

lemma drive_part_ok:
  assumes q: "quinn_ok q" and e: "engine_ok u content q e" and m: "\<And>m. mo = Some m \<Longrightarrow> conn_good u content m"
  shows "\<exists>mo' d. drive_part q now e mo input = Some (mo', Ok d) \<and> drive_fine u d \<and> (\<forall>m. mo' = Some m \<longrightarrow> conn_good u content m)"
proof (cases mo)
  case None
  then show ?thesis by (simp add: drive_part_def drive_fine_def drive_flag_def)
next
  case (Some m)
  have g: "auth_good u content q (auth_exporter q m) (ident m) m" using m [OF Some] by (auto simp: auth_good_def conn_good_def)
  have p: "u \<longrightarrow> no_proof q (qe_shared_key e) (qe_role e) (auth_exporter q m) content" using e by (simp add: engine_ok_def)
  obtain m' d where d: "drive_connection q (qe_role e) (qe_shared_key e) now m (fst input) (snd input) = Some (m', Ok d)"
    "auth_good u content q (auth_exporter q m) (ident m) m'" "drive_good u d"
    using drive_connection_run [OF q p g, of now "fst input" "snd input"] by (auto simp: auth_run_def)
  have "conn_good u content m'" using d(2) m [OF Some] by (auto simp: auth_good_def conn_good_def ident_def)
  then show ?thesis using Some d by (auto simp: drive_part_def drive_fine_def drive_flag_def drive_good_def)
qed

lemma drive_engine_ok:
  assumes q: "quinn_ok q" and e: "engine_ok u content q e"
  obtains e' where "drive_engine q ep now input e = Some (e', Ok ())" "engine_ok u content q e'" "logged e e'"
proof -
  have "qe_connection e = Some m \<Longrightarrow> conn_good u content m" for m using e by (simp add: engine_ok_def)
  from drive_part_ok [OF q e this, where now = now and input = "fst input"] obtain a d where
    a: "drive_part q now e (qe_connection e) (fst input) = Some (a, Ok d)" "drive_fine u d" "\<forall>m. a = Some m \<longrightarrow> conn_good u content m" by blast
  let ?e1 = "e\<lparr> qe_connection := a \<rparr>"
  have e1: "engine_ok u content q ?e1" using e a(3) by (auto simp: engine_ok_def)
  have "qe_candidate ?e1 = Some m \<Longrightarrow> conn_good u content m" for m using e by (simp add: engine_ok_def)
  from drive_part_ok [OF q e1 this, where now = now and input = "snd input"] obtain c d' where
    c: "drive_part q now ?e1 (qe_candidate ?e1) (snd input) = Some (c, Ok d')" "drive_fine u d'" "\<forall>m. c = Some m \<longrightarrow> conn_good u content m" by blast
  let ?e2 = "?e1\<lparr> qe_candidate := c \<rparr>"
  have e2: "engine_ok u content q ?e2" using e1 c(3) by (auto simp: engine_ok_def)
  obtain e' where e': "after_turns q ep now d d' ?e2 = (e', Ok ())" "engine_ok u content q e'" "logged ?e2 e'"
    using after_turns_ok [OF e2 a(2) c(2)] by blast
  have "logged e e'" using e'(3) by (simp add: logged_def)
  then show ?thesis using that [of e'] a(1) c(1) e' by (simp add: drive_engine_def)
qed

lemma handle_outer_ok:
  assumes q: "quinn_ok q" and e: "engine_ok u content q e" and c: "u \<longrightarrow> content []"
  obtains e' where "handle_outer q ep now remote local_ip packet input e = Some (e', Ok ())" "engine_ok u content q e'" "logged e e'"
proof -
  obtain x g h where x: "ep_handle ep (qe_endpoint e) now remote local_ip packet = (x, g, h)"
    by (cases "ep_handle ep (qe_endpoint e) now remote local_ip packet") auto
  let ?e1 = "e\<lparr> qe_endpoint := x, generated_dcids := [] \<rparr>"
  have 1: "keeps u content q e ?e1" by (rule keeps_fields)
  show ?thesis
  proof (cases h)
    case None
    have e1: "engine_ok u content q ?e1" "logged e ?e1" using 1 e by (simp_all add: keeps_def)
    obtain e' where "drive_engine q ep now input ?e1 = Some (e', Ok ())" "engine_ok u content q e'" "logged ?e1 e'"
      by (rule drive_engine_ok [OF q e1(1)])
    then show ?thesis using that [of e'] logged_trans [OF e1(2)] by (simp add: handle_outer_def x None)
  next
    case (Some he)
    obtain handle event where he: "he = (handle, event)" by (cases he)
    let ?e2 = "case event of
        NewConnection connection \<Rightarrow>
          if qe_candidate ?e1 \<noteq> None then dispose_managed_connection q ep (new_managed handle connection now) now (Some (ascii ''candidate busy'')) ?e1
          else ?e1\<lparr> qe_candidate := Some (new_managed handle connection now) \<rparr>
      | ConnectionEvent v \<Rightarrow> on_handle handle (\<lambda>m. m\<lparr> mc_connection := conn_handle_event ep (mc_connection m) v \<rparr>) ?e1"
    let ?e3 = "case extract_dcid packet (qe_dcid_len e) of Some d \<Rightarrow> on_handle handle (\<lambda>m. track_dcid m d) ?e2 | None \<Rightarrow> ?e2"
    let ?e4 = "stage_dcids_for_handle handle g ?e3"
    have new: "conn_good u content (new_managed handle connection now)" for connection
      using c by (simp add: conn_good_def new_managed_def default_auth_def tx_ok_def)
    have "keeps u content q ?e1 ?e2"
    proof (cases event)
      case (NewConnection connection)
      have "keeps u content q ?e1 (?e1\<lparr> qe_candidate := Some (new_managed handle connection now) \<rparr>)"
        using new by (auto simp: keeps_def engine_ok_def logged_def)
      then show ?thesis unfolding NewConnection datagram_event.case by (intro keeps_if keeps_dispose)
    qed (simp add: keeps_on_handle connection_event_good)
    also have "keeps u content q ?e2 ?e3" by (cases "extract_dcid packet (qe_dcid_len e)") (simp_all add: keeps_on_handle track_dcid_good)
    also have "keeps u content q ?e3 ?e4" by (rule keeps_stage)
    finally have "keeps u content q e ?e4" using 1 keeps_trans by blast
    then have e4: "engine_ok u content q ?e4" "logged e ?e4" using e by (simp_all add: keeps_def)
    obtain e' where "drive_engine q ep now input ?e4 = Some (e', Ok ())" "engine_ok u content q e'" "logged ?e4 e'"
      by (rule drive_engine_ok [OF q e4(1)])
    then show ?thesis using that [of e'] logged_trans [OF e4(2)] by (simp add: handle_outer_def x Some he Let_def)
  qed
qed

subsection \<open>Operations of the worker\<close>

lemma keeps_send_datagram: "keeps u content q e (fst (send_datagram ep d e))"
  by (auto simp: send_datagram_def keeps_def engine_ok_def logged_def conn_good_def split: option.split prod.split)

lemma keeps_send_datagrams:
  "keeps u content q e (fst (send_datagrams ep ds e)) \<and> snd (send_datagrams ep ds e) \<noteq> Panic"
proof (induction ds arbitrary: e)
  case (Cons d ds)
  obtain e1 sent where s: "send_datagram ep d e = (e1, sent)" by (cases "send_datagram ep d e")
  have "keeps u content q e e1" using keeps_send_datagram [of u content q e ep d] s by simp
  then show ?case using Cons.IH [of e1] keeps_trans s by (cases sent) auto
qed simp

lemma keeps_send_fragmented:
  "keeps u content q e (fst (send_fragmented_inner ep packet n e)) \<and> snd (send_fragmented_inner ep packet n e) \<noteq> Panic"
  by (simp add: send_fragmented_inner_def Let_def keeps_trans [OF keeps_fields(6) keeps_send_datagrams [THEN conjunct1]] keeps_send_datagrams)

lemma send_inner_ok:
  assumes q: "quinn_ok q" and e: "engine_ok u content q e"
  obtains e' r where "send_inner q ep now packet input e = Some (e', r)" "r \<noteq> Panic" "engine_ok u content q e'" "logged e e'"
proof (cases "packet = [] \<or> \<not> is_authenticated e \<or> Option.bind (qe_connection e) (\<lambda>m. conn_max_size ep (mc_connection m)) = None")
  case True
  then have "\<exists>x. send_inner q ep now packet input e = Some (e, Err x)" by (auto simp: send_inner_def)
  then show ?thesis using that e by auto
next
  case False
  then obtain n where n: "Option.bind (qe_connection e) (\<lambda>m. conn_max_size ep (mc_connection m)) = Some n" by auto
  define er where "er = (if length packet < n then send_datagrams ep [INNER_PACKET # packet] e else send_fragmented_inner ep packet n e)"
  have eq: "send_inner q ep now packet input e = drive_after q ep now input er" using False n by (simp add: send_inner_def er_def)
  have k: "keeps u content q e (fst er)" "snd er \<noteq> Panic"
    unfolding er_def by (simp_all add: keeps_send_datagrams keeps_send_fragmented del: send_datagrams.simps)
  then have e1: "engine_ok u content q (fst er)" "logged e (fst er)" using e by (simp_all add: keeps_def)
  show ?thesis
  proof (cases "snd er")
    case (Ok x)
    obtain e' where "drive_engine q ep now input (fst er) = Some (e', Ok ())" "engine_ok u content q e'" "logged (fst er) e'"
      by (rule drive_engine_ok [OF q e1(1)])
    then show ?thesis using that [of e' "Ok ()"] eq Ok logged_trans [OF e1(2)] by (cases er) (simp add: drive_after_def)
  next
    case (Err x)
    then show ?thesis using that [of "fst er" "Err x"] eq e1 by (cases er) (simp add: drive_after_def)
  next
    case Panic
    then show ?thesis using k(2) by simp
  qed
qed

lemma keeps_close: "keeps u content q e (close_engine q ep now e)"
  unfolding close_engine_def Let_def
  by (rule keeps_trans [OF drop_active keeps_trans [OF keeps_trans [OF keeps_fields(5) keeps_dispose_option] keeps_shut]])

lemma dispose_events_fields:
  "published_dcids (fst (dispose_events ep h es b e)) = published_dcids e" "engine_events (fst (dispose_events ep h es b e)) = engine_events e"
  "qe_connection (fst (dispose_events ep h es b e)) = qe_connection e" "qe_candidate (fst (dispose_events ep h es b e)) = qe_candidate e"
  by (induction es arbitrary: b e) simp_all

lemma dispose_fields:
  "published_dcids (dispose_managed_connection q ep m now r e) = published_dcids e"
  "engine_events (dispose_managed_connection q ep m now r e) = engine_events e"
  "qe_connection (dispose_managed_connection q ep m now r e) = qe_connection e"
  "qe_candidate (dispose_managed_connection q ep m now r e) = qe_candidate e"
proof -
  let ?c = "case r of Some x \<Rightarrow> conn_close ep (mc_connection m) now x | None \<Rightarrow> mc_connection m"
  obtain e' b where d: "dispose_events ep (mc_handle m) (snd (q_endpoint_events q ?c)) (endpoint_registered m) e = (e', b)"
    by (cases "dispose_events ep (mc_handle m) (snd (q_endpoint_events q ?c)) (endpoint_registered m) e")
  note same = dispose_events_fields [of ep "mc_handle m" "snd (q_endpoint_events q ?c)" "endpoint_registered m" e, unfolded d fst_conv]
  show "published_dcids (dispose_managed_connection q ep m now r e) = published_dcids e"
    "engine_events (dispose_managed_connection q ep m now r e) = engine_events e"
    "qe_connection (dispose_managed_connection q ep m now r e) = qe_connection e"
    "qe_candidate (dispose_managed_connection q ep m now r e) = qe_candidate e"
    by (simp_all add: dispose_managed_connection_def d same dispose_events_fields del: dispose_events.simps)
qed

text \<open>
  A replacement that the worker has published counts the ids of the candidate as published.
\<close>

lemma commit_ok:
  assumes e: "engine_ok u content q e" and u: "\<not> u" and m: "qe_candidate e = Some m"
  shows "engine_ok u content q (commit_candidate_replacement q ep now e)"
    and "\<exists>new. engine_events (commit_candidate_replacement q ep now e) = engine_events e @ new \<and>
      replay new (set (published_dcids e) \<union> set (mc_dcids m)) = Some (set (published_dcids (commit_candidate_replacement q ep now e)))"
proof -
  let ?e1 = "e\<lparr> qe_candidate := None, qe_connection := Some m \<rparr>"
  let ?e2 = "case qe_connection e of Some active \<Rightarrow> dispose_managed_connection q ep active now (Some (ascii ''peer restarted'')) ?e1 | None \<Rightarrow> ?e1"
  let ?e3 = "clear_reassembly ?e2"
  let ?gone = "filter (\<lambda>d. d \<notin> set (mc_dcids m)) (published_dcids ?e3)"
  have eq: "commit_candidate_replacement q ep now e =
      push_event Authenticated (?e3\<lparr> published_dcids := mc_dcids m, engine_events := engine_events ?e3 @ map DcidRetired ?gone \<rparr>)"
    by (simp add: commit_candidate_replacement_def m Let_def)
  have "keeps u content q e ?e1" using m by (auto simp: keeps_def engine_ok_def logged_def)
  also have "keeps u content q ?e1 ?e2" by (cases "qe_connection e") (simp_all add: keeps_dispose)
  also have "keeps u content q ?e2 ?e3" by (rule keeps_clear)
  finally have e3: "engine_ok u content q ?e3" using e by (simp add: keeps_def)
  moreover have "distinct (mc_dcids m)" using e m by (auto simp: engine_ok_def conn_good_def)
  ultimately show "engine_ok u content q (commit_candidate_replacement q ep now e)"
    using u unfolding eq by (auto simp: engine_ok_def push_event_def)
  have "engine_events ?e3 = engine_events e" "published_dcids ?e3 = published_dcids e"
    by (auto simp: clear_reassembly_def dispose_fields split: option.split)
  then show "\<exists>new. engine_events (commit_candidate_replacement q ep now e) = engine_events e @ new \<and>
      replay new (set (published_dcids e) \<union> set (mc_dcids m)) = Some (set (published_dcids (commit_candidate_replacement q ep now e)))"
    unfolding eq by (intro exI [of _ "map DcidRetired ?gone @ [Authenticated]"]) (auto simp: push_event_def replay_append replay_retired)
qed

text \<open>
  What a worker does with its engine.  An operation that would not return, or panic, gives nothing;
  otherwise it gives the engine and the events handed to the worker.
\<close>

datatype engine_op =
    HandleOuter instant socket_addr "ip_addr option" bytes turn_input
  | SendInner instant bytes turn_input
  | Poll instant turn_input
  | CloseOp instant
  | Resolve instant bool

fun run_op :: "'c quinn \<Rightarrow> ('c, 'e) endpoint_ops \<Rightarrow> engine_op \<Rightarrow> ('c, 'e) quic_engine \<Rightarrow> (('c, 'e) quic_engine \<times> quic_engine_event list) option" where
  "run_op q ep (HandleOuter now remote local_ip packet input) e =
    Option.bind (handle_outer q ep now remote local_ip packet input e) (\<lambda>(e, r). if r = Ok () then Some (e, []) else None)"
| "run_op q ep (SendInner now packet input) e =
    Option.bind (send_inner q ep now packet input e) (\<lambda>(e, r). if r = Panic then None else Some (e, []))"
| "run_op q ep (Poll now input) e =
    Option.bind (poll_engine q ep now input e) (\<lambda>(e, r). case r of Ok event \<Rightarrow> Some (e, case event of Some x \<Rightarrow> [x] | None \<Rightarrow> []) | _ \<Rightarrow> None)"
| "run_op q ep (CloseOp now) e = Some (close_engine q ep now e, [])"
| "run_op q ep (Resolve now succeeded) e = Some (resolve_candidate_replacement q ep now succeeded e, [])"

inductive engine_reach :: "'c quinn \<Rightarrow> ('c, 'e) endpoint_ops \<Rightarrow> bytes \<Rightarrow> ('c, 'e) quic_engine \<Rightarrow> bool" for q ep key where
  server: "server_for_worker ep key dcid_len = Ok e \<Longrightarrow> engine_reach q ep key e"
| client: "client_for_worker q ep key dcid_len worker_id worker_count attempts = Some (Ok e) \<Longrightarrow> engine_reach q ep key e"
| run: "engine_reach q ep key e \<Longrightarrow> run_op q ep op e = Some (e', taken) \<Longrightarrow> engine_reach q ep key e'"

lemma new_engine_ok:
  "(u \<longrightarrow> (\<forall>ex. no_proof q key role ex content)) \<Longrightarrow> engine_ok u content q (new_engine role endpoint key dcid_len)"
  by (auto simp: engine_ok_def new_engine_def reassembly_ok_def total_bytes_def)

lemma client_attempts_ok:
  assumes q: "quinn_ok q" and p: "u \<longrightarrow> (\<forall>ex. no_proof q key QuicClient ex content)" and c: "u \<longrightarrow> content []"
  shows "\<exists>r. client_attempts q ep key dcid_len worker_id worker_count attempts i n = Some r \<and> r \<noteq> Panic \<and>
    (\<forall>e. r = Ok e \<longrightarrow> engine_ok u content q e \<and> owner_matches e worker_id worker_count)"
proof (induction n arbitrary: i)
  case (Suc n)
  obtain x g h where x: "ep_connect ep (ep_new ep i) = (x, g, h)" by (cases "ep_connect ep (ep_new ep i)") auto
  obtain now input where a: "attempts i = (now, input)" by (cases "attempts i")
  show ?case
  proof (cases h)
    case (Some hc)
    obtain handle connection where hc: "hc = (handle, connection)" by (cases hc)
    let ?e = "(new_engine QuicClient x key dcid_len)\<lparr> qe_connection := Some (new_managed handle connection now),
        qe_reconnect := Some \<lparr> cr_worker_id = worker_id, cr_worker_count = worker_count \<rparr> \<rparr>"
    have "conn_good u content (new_managed handle connection now)"
      using c by (simp add: conn_good_def new_managed_def default_auth_def tx_ok_def)
    then have "engine_ok u content q ?e"
      using new_engine_ok [OF p, of x dcid_len] by (simp add: engine_ok_def) (simp add: new_engine_def reassembly_ok_def)
    then have "engine_ok u content q (stage_dcids_for_handle handle g ?e)" by (rule keepsD(1) [OF keeps_stage])
    then obtain e' where "drive_engine q ep now input (stage_dcids_for_handle handle g ?e) = Some (e', Ok ())" "engine_ok u content q e'"
      by (rule drive_engine_ok [OF q])
    then show ?thesis using Suc.IH [of "i + 1"] by (auto simp: x a Some hc Let_def)
  qed (simp add: x a)
qed simp

lemma resolve_ok:
  assumes e: "engine_ok u content q e"
  shows "engine_ok u content q (resolve_candidate_replacement q ep now s e)"
    and "\<exists>new. engine_events (resolve_candidate_replacement q ep now s e) = engine_events e @ new \<and>
      replay new (set (published_dcids e) \<union>
          (case qe_candidate e of Some m \<Rightarrow> if candidate_promotion_pending e \<and> s then set (mc_dcids m) else {} | None \<Rightarrow> {})) =
        Some (set (published_dcids (resolve_candidate_replacement q ep now s e)))"
proof -
  let ?e = "e\<lparr> candidate_promotion_pending := False \<rparr>"
  have k: "engine_ok u content q ?e" using e keeps_fields(7) by (auto simp: keeps_def)
  have d: "engine_ok u content q (drop_candidate q ep now r ?e)" "logged e (drop_candidate q ep now r ?e)" for r
    using keepsD [OF keeps_trans [OF keeps_fields(7) keeps_drop_candidate] e] by simp_all
  have "\<not> u" if "candidate_promotion_pending e" using e that by (auto simp: engine_ok_def)
  note c = commit_ok [OF k this]
  show "engine_ok u content q (resolve_candidate_replacement q ep now s e)"
    using e d c(1) k by (auto simp: resolve_candidate_replacement_def Let_def) (auto simp: commit_candidate_replacement_def split: option.split)
  show "\<exists>new. engine_events (resolve_candidate_replacement q ep now s e) = engine_events e @ new \<and>
      replay new (set (published_dcids e) \<union>
          (case qe_candidate e of Some m \<Rightarrow> if candidate_promotion_pending e \<and> s then set (mc_dcids m) else {} | None \<Rightarrow> {})) =
        Some (set (published_dcids (resolve_candidate_replacement q ep now s e)))"
  proof (cases "candidate_promotion_pending e \<and> s \<and> qe_candidate e \<noteq> None")
    case True
    then show ?thesis using c(2) by (auto simp: resolve_candidate_replacement_def Let_def)
  next
    case False
    then show ?thesis
      using d(2) by (auto simp: resolve_candidate_replacement_def Let_def logged_def commit_candidate_replacement_def split: option.split)
  qed
qed

text \<open>The ids a replacement published by the worker adds.\<close>

definition adopted :: "engine_op \<Rightarrow> ('c, 'e) quic_engine \<Rightarrow> dcid set" where
  "adopted op e = (case op of
      Resolve now s \<Rightarrow> (case qe_candidate e of Some m \<Rightarrow> if candidate_promotion_pending e \<and> s then set (mc_dcids m) else {} | None \<Rightarrow> {})
    | _ \<Rightarrow> {})"

lemma run_op_ok:
  assumes q: "quinn_ok q" and e: "engine_ok u content q e" and c: "u \<longrightarrow> content []"
  shows "\<exists>e' taken new. run_op q ep op e = Some (e', taken) \<and> engine_ok u content q e' \<and> taken @ engine_events e' = engine_events e @ new \<and>
    replay new (set (published_dcids e) \<union> adopted op e) = Some (set (published_dcids e')) \<and> (u \<longrightarrow> (\<forall>ev\<in>set taken. quiet ev))"
proof (cases op)
  case (HandleOuter now remote local_ip packet input)
  obtain e' where "handle_outer q ep now remote local_ip packet input e = Some (e', Ok ())" "engine_ok u content q e'" "logged e e'"
    by (rule handle_outer_ok [OF q e c])
  then show ?thesis using HandleOuter by (auto simp: logged_def adopted_def)
next
  case (SendInner now packet input)
  obtain e' r where "send_inner q ep now packet input e = Some (e', r)" "r \<noteq> Panic" "engine_ok u content q e'" "logged e e'"
    by (rule send_inner_ok [OF q e])
  then show ?thesis using SendInner by (auto simp: logged_def adopted_def)
next
  case (Poll now input)
  obtain e' where e': "drive_engine q ep now input e = Some (e', Ok ())" "engine_ok u content q e'" "logged e e'"
    by (rule drive_engine_ok [OF q e])
  show ?thesis
  proof (cases "engine_events e'")
    case Nil
    then show ?thesis using Poll e' by (auto simp: poll_engine_def logged_def adopted_def)
  next
    case (Cons ev rest)
    have "engine_ok u content q (e'\<lparr> engine_events := rest \<rparr>)" using e'(2) Cons by (auto simp: engine_ok_def)
    moreover have "u \<longrightarrow> quiet ev" using e'(2) Cons by (auto simp: engine_ok_def)
    ultimately show ?thesis using Poll e' Cons by (auto simp: poll_engine_def logged_def adopted_def)
  qed
next
  case (CloseOp now)
  then show ?thesis using keepsD [OF keeps_close e, of ep now] by (auto simp: logged_def adopted_def)
next
  case (Resolve now s)
  then show ?thesis using resolve_ok [OF e, of ep now s] by (auto simp: adopted_def)
qed

lemma reach_ok:
  assumes q: "quinn_ok q" and p: "u \<longrightarrow> (\<forall>role ex. no_proof q key role ex content)"
  shows "engine_reach q ep key e \<Longrightarrow> engine_ok u content q e"
proof (induction rule: engine_reach.induct)
  case (server dcid_len e)
  have "engine_ok u content q (new_engine QuicServer (ep_new ep 0) key dcid_len)" by (rule new_engine_ok) (use p in simp)
  then show ?case using server by (auto simp: server_for_worker_def and_then_eq_Ok)
next
  case (client dcid_len worker_id worker_count attempts e)
  have "u \<longrightarrow> content []" using p by (auto simp: no_proof_def)
  moreover have "u \<longrightarrow> (\<forall>ex. no_proof q key QuicClient ex content)" using p by simp
  ultimately show ?case
    using client client_attempts_ok [OF q, of u key content ep dcid_len worker_id worker_count attempts 0 1024]
    by (auto simp: client_for_worker_def split: result.splits if_splits)
next
  case (run e op e' taken)
  have "u \<longrightarrow> content []" using p by (auto simp: no_proof_def)
  then show ?case using run_op_ok [OF q run.IH, of ep op] run.hyps(2) by auto
qed

text \<open>
  A lost active connection stays when the candidate authenticates in the same turn; if the worker then
  rejects the replacement, the lost connection is still the active one and \<open>Closed\<close> was not
  reported.
\<close>

lemma drop_candidate_connection: "qe_connection (drop_candidate q ep now reason e) = qe_connection e"
proof -
  have retired: "qe_connection (retire_staged_dcids ds x) = qe_connection x" for ds and x :: "('a, 'b) quic_engine"
    unfolding retire_staged_dcids_def by (induction ds arbitrary: x) (simp_all add: push_event_def)
  show ?thesis by (simp add: drop_candidate_def dispose_fields retired split: option.split)
qed

lemma lost_active_kept:
  assumes "qe_connection e = Some m" and "qe_candidate e = Some k" and "drive_flag lost a" "\<not> drive_flag authenticated_now a"
    and "drive_flag authenticated_now c"
  shows "engine_events (settle q ep now a c e) = engine_events e @ [Replaced (mc_dcids k)]"
    and "qe_connection (resolve_candidate_replacement q ep now False (settle q ep now a c e)) = Some m"
  using assms by (simp_all add: settle_def Let_def promote_candidate_def push_event_def resolve_candidate_replacement_def drop_candidate_connection)

section \<open>From engine to engine\<close>

text \<open>A connection that takes every datagram; \<open>outbox\<close> lists the datagrams it was given.\<close>

definition accepting :: "('c, 'e) endpoint_ops \<Rightarrow> ('c \<Rightarrow> bytes list) \<Rightarrow> bool" where
  "accepting ep outbox \<longleftrightarrow> (\<forall>c d. snd (conn_send ep c d) \<and> outbox (fst (conn_send ep c d)) = outbox c @ [d])"

definition inner_datagrams :: "u64 \<Rightarrow> bytes \<Rightarrow> nat \<Rightarrow> bytes list" where
  "inner_datagrams packet_id packet max_size =
    (if length packet < max_size then [INNER_PACKET # packet] else fragments packet_id packet (max_size - INNER_FRAGMENT_HEADER_LEN))"

lemma send_datagrams_accepted:
  assumes "accepting ep outbox"
  shows "qe_connection e = Some m \<Longrightarrow> \<exists>e' m'. send_datagrams ep ds e = (e', Ok ()) \<and> qe_connection e' = Some m' \<and>
    outbox (mc_connection m') = outbox (mc_connection m) @ ds"
proof (induction ds arbitrary: e m)
  case (Cons d ds)
  obtain c where c: "conn_send ep (mc_connection m) d = (c, True)" "outbox c = outbox (mc_connection m) @ [d]"
    using assms unfolding accepting_def by (metis (full_types) prod.collapse)
  let ?e = "e\<lparr> qe_connection := Some (m\<lparr> mc_connection := c \<rparr>) \<rparr>"
  have "qe_connection ?e = Some (m\<lparr> mc_connection := c \<rparr>)" by simp
  from Cons.IH [OF this] c Cons.prems show ?case by (auto simp: send_datagram_def)
qed simp

lemma deliver_eq_datagrams:
  "is_authenticated e \<Longrightarrow> handle_application_datagrams now e (map (Cons INNER_FRAGMENT) ps) = deliver e (map (Pair now) ps)"
proof (induction ps arbitrary: e)
  case (Cons p ps)
  obtain e1 r where r: "handle_inner_fragment e now p = (e1, r)" by (cases "handle_inner_fragment e now p")
  have "is_authenticated e1" using fragment_only_inner(1) [of e now p] r Cons.prems by (simp add: is_authenticated_def)
  then show ?case
    using Cons r by (auto simp: handle_application_datagram_def INNER_PACKET_def INNER_FRAGMENT_def split: result.split)
qed simp

lemma fragments_split: "fragments packet_id packet width = map (Cons INNER_FRAGMENT) (map tl (fragments packet_id packet width))"
  by (auto simp: fragments_def fragment_wire_def)

lemma fragments_received:
  assumes r: "reassembly_ok e" "is_authenticated e" and fresh: "hm_get (reassembly e) packet_id = None" and room: "has_room e (length packet)"
    and n: "packet \<noteq> []" "length packet \<le> MAX_INNER_PACKET_LEN" and w: "0 < width"
  shows "\<exists>e'. handle_application_datagrams now e (fragments packet_id packet width) = (e', Ok ()) \<and>
    engine_events e' = engine_events e @ [InnerPacket packet]"
proof -
  define ps where "ps = map tl (fragments packet_id packet width)"
  have dist: "distinct ps"
    using payload_inj [OF n(2) w]
    by (auto simp: ps_def fragments_def distinct_map inj_on_def comp_def fragment_payload_def [symmetric])
  have "step_by (length packet) width \<noteq> []" using step_by_rec [of "length packet" width] n w by simp
  then have "ps \<noteq> []" by (simp add: ps_def fragments_def)
  then obtain front p where front: "ps = front @ [p]" by (metis rev_exhaust)
  have "\<exists>s1 s2. deliver e (map (Pair now) front) = (s1, Ok ()) \<and> deliver s1 [(now, p)] = (s2, Ok ()) \<and>
      engine_events s2 = engine_events s1 @ [InnerPacket packet] \<and> hm_get (reassembly s2) packet_id = None \<and> reassembly_ok s2 \<and>
      ((\<forall>(now, p)\<in>set (map (Pair now) front). p \<in> set ps) \<longrightarrow> engine_events s1 = engine_events e)"
    by (rule fragments_arrive [OF r(1) n(2) w fresh room, folded ps_def])
      (use dist front in \<open>auto simp: hd_map image_iff\<close>)
  then obtain s1 s2 where s: "deliver e (map (Pair now) front) = (s1, Ok ())" "deliver s1 [(now, p)] = (s2, Ok ())"
    "engine_events s2 = engine_events e @ [InnerPacket packet]" using front by auto
  have app: "deliver x (a @ b) = (case deliver x a of (y, Ok _) \<Rightarrow> deliver y b | (y, r) \<Rightarrow> (y, r))" for x a b
    by (induction x a rule: deliver.induct) (auto split: prod.split result.split)
  have "handle_application_datagrams now e (fragments packet_id packet width) = deliver e (map (Pair now) ps)"
    unfolding ps_def by (subst fragments_split) (rule deliver_eq_datagrams [OF r(2)])
  also have "\<dots> = (s2, Ok ())" using s by (simp add: front app)
  finally show ?thesis using s(3) by blast
qed

section \<open>Properties\<close>

text \<open>
  C25: Every operation of a reachable engine returns without a panic, and keeps its bounds: the
  reassembly table holds at most 4096 packets and one megabyte, its byte count is exact, and a
  connection tracks at most 32 connection ids.
\<close>

theorem engine_operations_total:
  assumes "quinn_ok q" and "engine_reach q ep key e"
  shows "run_op q ep op e \<noteq> None \<and> reassembly_ok e \<and> distinct (published_dcids e) \<and>
    (case qe_connection e of Some m \<Rightarrow> distinct (mc_dcids m) \<and> length (mc_dcids m) \<le> 32 | None \<Rightarrow> True)"
proof -
  have ok: "engine_ok False (\<lambda>_. True) q e" by (rule reach_ok [OF assms(1) _ assms(2)]) simp
  obtain e' taken where "run_op q ep op e = Some (e', taken)"
    using run_op_ok [OF assms(1) ok, of ep op] by auto
  then show ?thesis using ok by (auto simp: engine_ok_def conn_good_def MAX_TRACKED_DCIDS_def split: option.split)
qed

text \<open>
  C6: While no peer can prove the shared key, no engine lets anything in: it is never
  authenticated, publishes no connection id, delivers no inner packet, and every event it queues or
  hands to the worker is an outgoing packet, a staged or retired connection id or the closing of
  the engine.
\<close>

theorem unproved_engine_quiet:
  assumes "quinn_ok q" and "\<forall>role ex. no_proof q key role ex content" and "engine_reach q ep key e"
  shows "\<not> is_authenticated e \<and> published_dcids e = [] \<and> (\<forall>ev\<in>set (engine_events e). quiet ev) \<and>
    (case run_op q ep op e of Some (e', taken) \<Rightarrow> \<forall>ev\<in>set taken. quiet ev | None \<Rightarrow> False)"
proof -
  have ok: "engine_ok True content q e" by (rule reach_ok [OF assms(1) _ assms(3)]) (use assms(2) in simp)
  have "content []" using assms(2) by (auto simp: no_proof_def)
  then obtain e' taken where "run_op q ep op e = Some (e', taken)" "\<forall>ev\<in>set taken. quiet ev"
    using run_op_ok [OF assms(1) ok, of ep op] by auto
  then show ?thesis using ok by (auto simp: engine_ok_def conn_good_def is_authenticated_def split: option.split)
qed



section \<open>Instances\<close>

text \<open>
  A server that is called by one peer: the first read of the stream gives the request, the next ones
  the confirmation.  A connection is the number of reads and the datagrams it was given.
\<close>

definition peer_frame :: "nat \<Rightarrow> bytes" where
  "peer_frame n = (if n = 0 then 1 # replicate 16 5 @ replicate 16 0 @ replicate 32 9 else 3 # replicate 16 5 @ replicate 16 6 @ replicate 32 9)"

definition peer_quinn :: "(nat \<times> bytes list) quinn" where
  "peer_quinn = \<lparr> q_write = (\<lambda>c s bs. (c, Written (length bs))), q_read = (\<lambda>(n, out) s. ((n + 1, out), Some ([peer_frame n], False))),
     q_open = (\<lambda>c. (c, Some 0)), q_exporter = (\<lambda>_. Some (replicate 32 7)), q_poll_timeout = (\<lambda>_. None), q_handle_timeout = (\<lambda>c _. c),
     q_endpoint_events = (\<lambda>c. (c, [])), q_transmits = (\<lambda>c _. (c, [])), q_hmac = (\<lambda>key message. replicate 32 9) \<rparr>"

definition peer_endpoint :: "(nat \<times> bytes list, nat) endpoint_ops" where
  "peer_endpoint = \<lparr> ep_new = (\<lambda>_. 0), ep_connect = (\<lambda>x. (x, [], None)),
     ep_handle = (\<lambda>x now remote local_ip packet. (x + 1, [[3, 3]], Some (4, if x = 0 then NewConnection (0, []) else ConnectionEvent 0))),
     ep_handle_event = (\<lambda>x handle event. (x, [], None)), ep_transmits = (\<lambda>x. (x, [])), conn_handle_event = (\<lambda>c v. c),
     conn_close = (\<lambda>c now reason. c), conn_max_size = (\<lambda>_. Some 20), conn_send = (\<lambda>(n, out) d. ((n, out @ [d]), True)) \<rparr>"

definition peer_addr :: socket_addr where
  "peer_addr = \<lparr> sock_ip = V4 1, sock_port = 9 \<rparr>"

definition first_packet :: engine_op where
  "first_packet = HandleOuter 1 peer_addr None [0x40, 3, 3] (([], 0), ([Stream (OpenedBi [0]) (replicate 16 6)], 0))"

definition second_packet :: engine_op where
  "second_packet = HandleOuter 2 peer_addr None [0x40, 3, 3] (([], 0), ([Stream (Readable 0) []], 0))"

definition called_server :: "(nat \<times> bytes list, nat) quic_engine option" where
  "called_server =
    Option.bind (ok (server_for_worker peer_endpoint [1] 2)) (\<lambda>e.
      Option.bind (run_op peer_quinn peer_endpoint first_packet e) (\<lambda>(e, _).
        map_option fst (run_op peer_quinn peer_endpoint second_packet e)))"

lemma peer_quinn_ok: "quinn_ok peer_quinn"
  by (auto simp: quinn_ok_def peer_quinn_def)

lemma called_server_authenticated:
  "case called_server of Some e \<Rightarrow> is_authenticated e \<and> hm_get (reassembly e) (next_inner_packet_id e) = None \<and> has_room e 25 \<and>
     published_dcids e = [[3, 3]] \<and> engine_events e = [DcidStaged [3, 3], DcidStaged [3, 3], DcidPublished [3, 3], Authenticated] | None \<Rightarrow> False"
  by code_simp

lemma called_server_reach:
  assumes "called_server = Some e"
  shows "engine_reach peer_quinn peer_endpoint [1] e"
proof -
  obtain e0 e1 t1 t2 where s: "server_for_worker peer_endpoint [1] 2 = Ok e0" "run_op peer_quinn peer_endpoint first_packet e0 = Some (e1, t1)"
    "run_op peer_quinn peer_endpoint second_packet e1 = Some (e, t2)"
    using assms by (auto simp: called_server_def bind_eq_Some_conv server_for_worker_def validate_dcid_len_def)
  show ?thesis by (rule engine_reach.run [OF engine_reach.run [OF engine_reach.server [OF s(1)] s(2)] s(3)])
qed

lemma called_server_ex: "\<exists>e m. called_server = Some e \<and> is_authenticated e \<and> qe_connection e = Some m \<and>
  hm_get (reassembly e) (next_inner_packet_id e) = None \<and> has_room e 25"
  using called_server_authenticated by (auto simp: is_authenticated_def split: option.splits)

theorem engine_operations_total_witness:
  "\<exists>e. called_server = Some e \<and> run_op peer_quinn peer_endpoint second_packet e \<noteq> None \<and> reassembly_ok e \<and> distinct (published_dcids e) \<and>
    (case qe_connection e of Some m \<Rightarrow> distinct (mc_dcids m) \<and> length (mc_dcids m) \<le> 32 | None \<Rightarrow> True)"
  using called_server_ex engine_operations_total [OF peer_quinn_ok called_server_reach, of _ second_packet] by blast



text \<open>An endpoint whose every packet opens a connection to a peer that only sends zeros.\<close>

definition zero_endpoint :: "(nat, nat) endpoint_ops" where
  "zero_endpoint = \<lparr> ep_new = (\<lambda>_. 0), ep_connect = (\<lambda>x. (x, [], None)),
     ep_handle = (\<lambda>x now remote local_ip packet. (x + 1, [[word_of_nat x, 3]], Some (x, NewConnection 0))),
     ep_handle_event = (\<lambda>x handle event. (x, [], None)), ep_transmits = (\<lambda>x. (x, [])), conn_handle_event = (\<lambda>c v. c),
     conn_close = (\<lambda>c now reason. c), conn_max_size = (\<lambda>_. None), conn_send = (\<lambda>c d. (c, False)) \<rparr>"

theorem unproved_engine_quiet_witness:
  "let e = new_engine QuicServer 0 [1] 2 in
   \<not> is_authenticated e \<and> published_dcids e = [] \<and> (\<forall>ev\<in>set (engine_events e). quiet ev) \<and>
   (case run_op zero_peer zero_endpoint (HandleOuter 1 peer_addr None [0x40, 3, 3] (([], 0), ([Stream (OpenedBi [0]) []], 0))) e of
      Some (e', taken) \<Rightarrow> \<forall>ev\<in>set taken. quiet ev | None \<Rightarrow> False)"
proof -
  have "server_for_worker zero_endpoint [1] 2 = Ok (new_engine QuicServer 0 [1] 2)"
    by (simp add: server_for_worker_def validate_dcid_len_def zero_endpoint_def)
  then have "engine_reach zero_peer zero_endpoint [1] (new_engine QuicServer 0 [1] 2)" by (rule engine_reach.server)
  then show ?thesis
    unfolding Let_def using zero_peer_no_proof by (intro unproved_engine_quiet [OF zero_peer_ok]) auto
qed

end
